(* ===== verification/Prelude.thy ===== *)
theory Prelude
  imports Main "HOL-Library.Word" "HOL-Library.Char_ord" "HOL-Library.List_Lexorder"
    "HOL-Library.Product_Lexorder" "HOL-Library.Sublist" "HOL-Library.Multiset"
begin

text \<open>
  Shared vocabulary of the development: Rust results (with panics), a state-and-error
  monad for code that talks to the database or the network, 64-bit integer arithmetic as
  the release build performs it (wrap-around), casts between \<open>u64\<close> and \<open>i64\<close>,
  strings as UTF-8 byte sequences, decimal printing and parsing, and slice chunking.
  The lemma collections \<open>res_simps\<close>, \<open>u64_simps\<close> and \<open>str_simps\<close> carry the
  component proofs.
\<close>

named_theorems res_simps "results and the state-and-error monad"
named_theorems u64_simps "64-bit arithmetic without overflow"
named_theorems str_simps "string helpers"

section \<open>Results and effects\<close>

text \<open>\<open>Ok\<close> and \<open>Err\<close> are Rust's \<open>Result\<close>; \<open>Panic\<close> is an unwinding thread.\<close>

datatype ('e, 'a) res = Ok 'a | Err 'e | Panic

text \<open>Code that cannot fail but may panic.\<close>

datatype 'a outcome = Returns 'a | Panics

fun map_outcome :: "('a \<Rightarrow> 'b) \<Rightarrow> 'a outcome \<Rightarrow> 'b outcome" where
  "map_outcome f (Returns x) = Returns (f x)"
| "map_outcome f Panics = Panics"

type_synonym ('s, 'e, 'a) m = "'s \<Rightarrow> ('e, 'a) res \<times> 's"

definition ret :: "'a \<Rightarrow> ('s, 'e, 'a) m" where
  "ret x s = (Ok x, s)"

definition throw :: "'e \<Rightarrow> ('s, 'e, 'a) m" where
  "throw e s = (Err e, s)"

text \<open>\<open>bind f g\<close> is \<open>let x = f?; g(x)\<close>.\<close>

definition bind :: "('s, 'e, 'a) m \<Rightarrow> ('a \<Rightarrow> ('s, 'e, 'b) m) \<Rightarrow> ('s, 'e, 'b) m" where
  "bind f g s = (case f s of
     (Ok x, s') \<Rightarrow> g x s'
   | (Err e, s') \<Rightarrow> (Err e, s')
   | (Panic, s') \<Rightarrow> (Panic, s'))"

fun map_err :: "('e \<Rightarrow> 'f) \<Rightarrow> ('e, 'a) res \<Rightarrow> ('f, 'a) res" where
  "map_err f (Ok x) = Ok x"
| "map_err f (Err e) = Err (f e)"
| "map_err f Panic = Panic"

fun map_ok :: "('a \<Rightarrow> 'b) \<Rightarrow> ('e, 'a) res \<Rightarrow> ('e, 'b) res" where
  "map_ok f (Ok x) = Ok (f x)"
| "map_ok f (Err e) = Err e"
| "map_ok f Panic = Panic"

fun and_then :: "('e, 'a) res \<Rightarrow> ('a \<Rightarrow> ('e, 'b) res) \<Rightarrow> ('e, 'b) res" where
  "and_then (Ok x) f = f x"
| "and_then (Err e) f = Err e"
| "and_then Panic f = Panic"

fun is_ok :: "('e, 'a) res \<Rightarrow> bool" where
  "is_ok (Ok x) = True"
| "is_ok (Err e) = False"
| "is_ok Panic = False"

text \<open>A \<open>for\<close> loop whose body may return early with \<open>?\<close>, folding an accumulator.\<close>

fun for_each :: "('a \<Rightarrow> 'b \<Rightarrow> ('s, 'e, 'b) m) \<Rightarrow> 'a list \<Rightarrow> 'b \<Rightarrow> ('s, 'e, 'b) m" where
  "for_each f [] acc = ret acc"
| "for_each f (x # xs) acc = bind (f x acc) (for_each f xs)"

lemma bind_ret [simp, res_simps]: "bind (ret x) g = g x"
  by (rule ext) (simp add: bind_def ret_def)

lemma ret_apply [res_simps]: "ret x s = (Ok x, s)"
  by (simp add: ret_def)

lemma throw_apply [res_simps]: "throw e s = (Err e, s)"
  by (simp add: throw_def)

lemma bind_throw [simp, res_simps]: "bind (throw e) g = throw e"
  by (rule ext) (simp add: bind_def throw_def)

lemma bind_right_unit [simp, res_simps]: "bind f ret = f"
  by (rule ext) (auto simp: bind_def ret_def split: prod.splits res.splits)

lemma bind_assoc [res_simps]: "bind (bind f g) h = bind f (\<lambda>x. bind (g x) h)"
  by (rule ext) (auto simp: bind_def split: prod.splits res.splits)

lemma bind_Ok: "f s = (Ok x, s') \<Longrightarrow> bind f g s = g x s'"
  by (simp add: bind_def)

lemma bind_OkE:
  assumes "bind f g s = (Ok y, s'')"
  obtains x s' where "f s = (Ok x, s')" and "g x s' = (Ok y, s'')"
  using assms by (auto simp: bind_def split: prod.splits res.splits)

lemma ret_OkD: "ret x s = (Ok y, s') \<Longrightarrow> y = x \<and> s' = s"
  by (simp add: ret_def)

lemma map_err_Ok_iff [simp]: "map_err f r = Ok x \<longleftrightarrow> r = Ok x"
  by (cases r) auto

lemma map_err_Panic_iff [simp]: "map_err f r = Panic \<longleftrightarrow> r = Panic"
  by (cases r) auto

lemma and_then_Ok: "and_then r f = Ok b \<longleftrightarrow> (\<exists>a. r = Ok a \<and> f a = Ok b)"
  by (cases r) auto

lemma map_ok_Ok: "map_ok f r = Ok b \<longleftrightarrow> (\<exists>a. r = Ok a \<and> b = f a)"
  by (cases r) auto

lemma is_ok_iff: "is_ok r \<longleftrightarrow> (\<exists>x. r = Ok x)"
  by (cases r) auto

lemma for_each_append:
  "for_each f (xs @ ys) acc = bind (for_each f xs acc) (for_each f ys)"
proof (induction xs arbitrary: acc)
  case (Cons x xs)
  then have "for_each f (xs @ ys) = (\<lambda>b. bind (for_each f xs b) (for_each f ys))"
    by (rule ext)
  then show ?case by (simp add: bind_assoc)
qed simp

text \<open>An invariant that every iteration keeps holds after the loop, whatever it returns.\<close>

lemma for_each_invariant:
  assumes "\<And>x acc s r s'. x \<in> set xs \<Longrightarrow> P s \<Longrightarrow> f x acc s = (r, s') \<Longrightarrow> P s'"
    and "P s" and "for_each f xs acc s = (r, s')"
  shows "P s'"
  using assms
proof (induction xs arbitrary: acc s)
  case Nil
  then show ?case by (simp add: ret_def)
next
  case (Cons x xs)
  obtain r1 s1 where step: "f x acc s = (r1, s1)" by fastforce
  with Cons.prems have "P s1" by (meson list.set_intros(1))
  then show ?case
  proof (cases r1)
    case (Ok y)
    have "P t'" if "z \<in> set xs" "P t" "f z b t = (q, t')" for z t b q t'
      using Cons.prems(1)[of z t b q t'] that by simp
    moreover have "for_each f xs y s1 = (r, s')"
      using Cons.prems(3) step Ok by (simp add: bind_def)
    ultimately show ?thesis using Cons.IH[of s1 y] \<open>P s1\<close> by blast
  qed (use Cons.prems step in \<open>auto simp: bind_def\<close>)
qed

text \<open>What every successful iteration established, over a part of the state no iteration changes.\<close>

lemma for_each_all:
  assumes "for_each f xs acc s = (Ok r, s')"
    and "\<And>x acc s acc' s'. x \<in> set xs \<Longrightarrow> f x acc s = (Ok acc', s') \<Longrightarrow> D s' = D s \<and> Q x (D s)"
  shows "D s' = D s \<and> (\<forall>x \<in> set xs. Q x (D s))"
  using assms
proof (induction xs arbitrary: acc s)
  case Nil
  then show ?case by (simp add: ret_def)
next
  case (Cons x xs)
  from Cons.prems(1) obtain y s1 where 1: "f x acc s = (Ok y, s1)" "for_each f xs y s1 = (Ok r, s')"
    by (auto elim: bind_OkE)
  with Cons.prems(2) have "D s1 = D s" "Q x (D s)" by (meson list.set_intros(1))+
  moreover have "D s' = D s1 \<and> (\<forall>x \<in> set xs. Q x (D s1))"
  proof (rule Cons.IH[OF 1(2)])
    fix z b t b' t' assume "z \<in> set xs" "f z b t = (Ok b', t')"
    then show "D t' = D t \<and> Q z (D t)" by (intro Cons.prems(2)) simp_all
  qed
  ultimately show ?case by simp
qed

section \<open>Machine integers\<close>

text \<open>
  \<open>u64\<close> values are naturals below \<open>2 ^ 64\<close>. The release build does not check
  overflow, so \<open>+\<close>, \<open>-\<close> and \<open>*\<close> wrap.
\<close>

abbreviation u64_bound :: nat where
  "u64_bound \<equiv> 2 ^ 64"

definition u64_add :: "nat \<Rightarrow> nat \<Rightarrow> nat" where
  "u64_add a b = (a + b) mod 2 ^ 64"

definition u64_sub :: "nat \<Rightarrow> nat \<Rightarrow> nat" where
  "u64_sub a b = nat ((int a - int b) mod 2 ^ 64)"

definition u64_mul :: "nat \<Rightarrow> nat \<Rightarrow> nat" where
  "u64_mul a b = (a * b) mod 2 ^ 64"

definition saturating_sub :: "nat \<Rightarrow> nat \<Rightarrow> nat" where
  "saturating_sub a b = (if a < b then 0 else a - b)"

definition saturating_mul :: "nat \<Rightarrow> nat \<Rightarrow> nat" where
  "saturating_mul a b = min (a * b) (2 ^ 64 - 1)"

text \<open>\<open>x as i64\<close> of a \<open>u64\<close>, and \<open>x as u64\<close> of an \<open>i64\<close>.\<close>

definition as_i64 :: "nat \<Rightarrow> int" where
  "as_i64 n = (let m = n mod 2 ^ 64 in if m < 2 ^ 63 then int m else int m - 2 ^ 64)"

definition as_u64 :: "int \<Rightarrow> nat" where
  "as_u64 i = nat (i mod 2 ^ 64)"

lemma u64_add_exact [u64_simps]: "a + b < 2 ^ 64 \<Longrightarrow> u64_add a b = a + b"
  by (simp add: u64_add_def)

lemma u64_sub_exact [u64_simps]: "b \<le> a \<Longrightarrow> a < 2 ^ 64 \<Longrightarrow> u64_sub a b = a - b"
  unfolding u64_sub_def by (subst mod_pos_pos_trivial) (auto simp flip: of_nat_diff)

lemma u64_mul_exact [u64_simps]: "a * b < 2 ^ 64 \<Longrightarrow> u64_mul a b = a * b"
  by (simp add: u64_mul_def)

lemma saturating_sub_eq [simp, u64_simps]: "saturating_sub a b = a - b"
  by (simp add: saturating_sub_def)

lemma u64_add_bound: "u64_add a b < 2 ^ 64"
  by (simp add: u64_add_def)

lemma u64_mul_bound: "u64_mul a b < 2 ^ 64"
  by (simp add: u64_mul_def)

lemmas u64_numeral_bounds [simp] = u64_add_bound u64_mul_bound u64_add_bound [simplified] u64_mul_bound [simplified]

lemma u64_add_right_commute: "u64_add (u64_add a b) c = u64_add (u64_add a c) b"
  by (simp add: u64_add_def mod_simps add_ac)

lemma as_i64_small [u64_simps]: "n < 2 ^ 63 \<Longrightarrow> as_i64 n = int n"
  by (simp add: as_i64_def Let_def)

lemma as_u64_as_i64 [u64_simps]: "n < 2 ^ 64 \<Longrightarrow> as_u64 (as_i64 n) = n"
  by (auto simp: as_u64_def as_i64_def Let_def zmod_int nat_mod_as_int
      simp flip: of_nat_less_numeral_power_cancel_iff)

lemma as_u64_int [u64_simps]: "n < 2 ^ 64 \<Longrightarrow> as_u64 (int n) = n"
  by (simp add: as_u64_def)

lemma as_i64_inj: "a < 2 ^ 64 \<Longrightarrow> b < 2 ^ 64 \<Longrightarrow> as_i64 a = as_i64 b \<longleftrightarrow> a = b"
  by (metis as_u64_as_i64)

section \<open>Strings\<close>

text \<open>
  A Rust \<open>String\<close> is a sequence of UTF-8 bytes, so it is a \<open>string\<close> (a list of
  8-bit \<open>char\<close>s): \<open>length\<close> is \<open>str::len\<close>, and indexing is by byte.
\<close>

type_synonym byte = "8 word"
type_synonym bytes = "byte list"

definition char_code :: "char \<Rightarrow> nat" where
  "char_code c = of_char c"

definition is_ascii_lowercase :: "char \<Rightarrow> bool" where
  "is_ascii_lowercase c \<longleftrightarrow> 97 \<le> char_code c \<and> char_code c \<le> 122"

definition is_ascii_uppercase :: "char \<Rightarrow> bool" where
  "is_ascii_uppercase c \<longleftrightarrow> 65 \<le> char_code c \<and> char_code c \<le> 90"

definition is_ascii_digit :: "char \<Rightarrow> bool" where
  "is_ascii_digit c \<longleftrightarrow> 48 \<le> char_code c \<and> char_code c \<le> 57"

definition is_ascii_alphanumeric :: "char \<Rightarrow> bool" where
  "is_ascii_alphanumeric c \<longleftrightarrow>
     is_ascii_lowercase c \<or> is_ascii_uppercase c \<or> is_ascii_digit c"

definition to_ascii_lowercase :: "char \<Rightarrow> char" where
  "to_ascii_lowercase c = (if is_ascii_uppercase c then char_of (char_code c + 32) else c)"

text \<open>\<open>str::contains\<close> with a string pattern.\<close>

fun str_contains :: "string \<Rightarrow> string \<Rightarrow> bool" where
  "str_contains [] pat \<longleftrightarrow> pat = []"
| "str_contains (c # cs) pat \<longleftrightarrow> prefix pat (c # cs) \<or> str_contains cs pat"

text \<open>Bytes that do not start a character: the second slice bound of \<open>&s[i..j]\<close> must
  not fall on one.\<close>

definition is_utf8_continuation :: "char \<Rightarrow> bool" where
  "is_utf8_continuation c \<longleftrightarrow> 128 \<le> char_code c \<and> char_code c < 192"

lemma char_code_bound [simp]: "char_code c < 256"
  unfolding char_code_def using of_char_mod_256 [of c] by (metis mod_less_divisor zero_less_numeral)

lemma char_code_char_of [simp]: "n < 256 \<Longrightarrow> char_code (char_of n) = n"
  by (simp add: char_code_def)

lemma char_code_inj: "char_code c = char_code d \<longleftrightarrow> c = d"
  by (simp add: char_code_def)

lemmas ascii_defs = is_ascii_lowercase_def is_ascii_uppercase_def is_ascii_digit_def
  is_ascii_alphanumeric_def to_ascii_lowercase_def

lemma to_ascii_lowercase_upper [str_simps]:
  "is_ascii_uppercase c \<Longrightarrow> is_ascii_lowercase (to_ascii_lowercase c)"
  by (simp add: ascii_defs)

lemma to_ascii_lowercase_id [str_simps]:
  "\<not> is_ascii_uppercase c \<Longrightarrow> to_ascii_lowercase c = c"
  by (simp add: to_ascii_lowercase_def)

lemma ascii_disjoint [str_simps]:
  "is_ascii_lowercase c \<Longrightarrow> \<not> is_ascii_uppercase c"
  "is_ascii_digit c \<Longrightarrow> \<not> is_ascii_uppercase c"
  "is_ascii_digit c \<Longrightarrow> \<not> is_ascii_lowercase c"
  by (auto simp: ascii_defs)

lemma str_contains_iff: "str_contains s pat \<longleftrightarrow> sublist pat s"
  by (induction s) (auto simp: sublist_Cons_right)

subsection \<open>Decimal numbers\<close>

definition digit_char :: "nat \<Rightarrow> char" where
  "digit_char d = char_of (48 + d)"

fun show_nat :: "nat \<Rightarrow> string" where
  "show_nat n = (if n < 10 then [digit_char n] else show_nat (n div 10) @ [digit_char (n mod 10)])"

definition show_int :: "int \<Rightarrow> string" where
  "show_int i = (if i < 0 then CHR ''-'' # show_nat (nat (- i)) else show_nat (nat i))"

fun parse_digits :: "nat \<Rightarrow> string \<Rightarrow> nat option" where
  "parse_digits acc [] = Some acc"
| "parse_digits acc (c # cs) =
     (if is_ascii_digit c then parse_digits (10 * acc + (char_code c - 48)) cs else None)"

text \<open>\<open>str::parse::<i64>\<close>: an optional sign, at least one digit, in range.\<close>

definition parse_i64 :: "string \<Rightarrow> int option" where
  "parse_i64 s = (case s of
     [] \<Rightarrow> None
   | c # cs \<Rightarrow>
       (let (neg, ds) = (if c = CHR ''-'' then (True, cs)
                         else if c = CHR ''+'' then (False, cs) else (False, s))
        in if ds = [] then None
           else case parse_digits 0 ds of
             None \<Rightarrow> None
           | Some n \<Rightarrow>
               (let v = (if neg then - int n else int n)
                in if - (2 ^ 63) \<le> v \<and> v < 2 ^ 63 then Some v else None)))"

declare show_nat.simps [simp del]

lemma digit_char_digit [simp]: "d < 10 \<Longrightarrow> is_ascii_digit (digit_char d)"
  by (simp add: digit_char_def is_ascii_digit_def)

lemma digit_char_code [simp]: "d < 10 \<Longrightarrow> char_code (digit_char d) = 48 + d"
  by (simp add: digit_char_def)

lemma show_nat_nonempty [simp]: "show_nat n \<noteq> []"
  by (subst show_nat.simps) simp

lemma show_nat_digits: "c \<in> set (show_nat n) \<Longrightarrow> is_ascii_digit c"
proof (induction n rule: show_nat.induct)
  case (1 n)
  then show ?case by (subst (asm) show_nat.simps) (auto split: if_splits)
qed

lemma parse_digits_append:
  "parse_digits acc (xs @ ys) = Option.bind (parse_digits acc xs) (\<lambda>a. parse_digits a ys)"
  by (induction xs arbitrary: acc) auto

lemma parse_digits_show_nat [str_simps]: "parse_digits 0 (show_nat n) = Some n"
proof (induction n rule: show_nat.induct)
  case (1 n)
  then show ?case by (subst show_nat.simps) (auto simp: parse_digits_append)
qed

lemma show_nat_hd: "\<exists>c cs. show_nat n = c # cs \<and> is_ascii_digit c"
  using show_nat_nonempty[of n] show_nat_digits[of _ n] by (cases "show_nat n") auto

lemma parse_i64_show_int [str_simps]:
  assumes "- (2 ^ 63) \<le> i" and "i < 2 ^ 63"
  shows "parse_i64 (show_int i) = Some i"
proof -
  obtain c cs where "show_nat (nat i) = c # cs" and "is_ascii_digit c"
    using show_nat_hd by blast
  moreover from this have "c \<noteq> CHR ''-''" and "c \<noteq> CHR ''+''"
    by (auto simp: is_ascii_digit_def char_code_def)
  moreover have "parse_digits 0 (c # cs) = Some (nat i)"
    using calculation parse_digits_show_nat by metis
  ultimately show ?thesis
    using assms parse_digits_show_nat[of "nat (- i)"]
    by (auto simp: parse_i64_def show_int_def simp del: parse_digits.simps)
qed

section \<open>Slices\<close>

text \<open>\<open>slice::chunks(n)\<close> for a non-zero \<open>n\<close>.\<close>

function chunks :: "nat \<Rightarrow> 'a list \<Rightarrow> 'a list list" where
  "chunks n xs = (if n = 0 \<or> xs = [] then [] else take n xs # chunks n (drop n xs))"
  by pat_completeness auto
termination
  by (relation "measure (\<lambda>(n, xs). length xs)") auto

declare chunks.simps [simp del]

lemma chunks_Nil [simp]: "chunks n [] = []"
  by (simp add: chunks.simps)

lemma concat_chunks: "n \<noteq> 0 \<Longrightarrow> concat (chunks n xs) = xs"
proof (induction n xs rule: chunks.induct)
  case (1 n xs)
  then show ?case by (cases "xs = []") (simp_all add: chunks.simps[of n xs])
qed

lemma chunks_bound: "c \<in> set (chunks n xs) \<Longrightarrow> length c \<le> n \<and> c \<noteq> []"
proof (induction n xs rule: chunks.induct)
  case (1 n xs)
  then show ?case by (auto simp: chunks.simps[of n xs] split: if_splits)
qed

lemma upt_split: "i \<le> j \<Longrightarrow> j \<le> k \<Longrightarrow> [i..<j] @ [j..<k] = [i..<k]"
  using upt_add_eq_append[of i j "k - j"] by simp

section \<open>Grouping\<close>

text \<open>\<open>map.entry(k).or_default().push(v)\<close> on an association list; a new key is appended.\<close>

fun entry_push :: "'k \<Rightarrow> 'v \<Rightarrow> ('k \<times> 'v list) list \<Rightarrow> ('k \<times> 'v list) list" where
  "entry_push k v [] = [(k, [v])]"
| "entry_push k v ((k', vs) # g) =
     (if k = k' then (k', vs @ [v]) # g else (k', vs) # entry_push k v g)"

definition group_by :: "('v \<Rightarrow> 'k) \<Rightarrow> 'v list \<Rightarrow> ('k \<times> 'v list) list" where
  "group_by key vs = foldl (\<lambda>g v. entry_push (key v) v g) [] vs"

lemma entry_push_keys: "fst ` set (entry_push k v g) = insert k (fst ` set g)"
  by (induction g rule: entry_push.induct) auto

lemma entry_push_distinct: "distinct (map fst g) \<Longrightarrow> distinct (map fst (entry_push k v g))"
proof (induction k v g rule: entry_push.induct)
  case (2 k v k' vs g)
  then show ?case using entry_push_keys[of k v g] by auto
qed simp

lemma map_of_entry_push:
  "map_of (entry_push k v g) k' =
     (if k' = k then Some ((case map_of g k of None \<Rightarrow> [] | Some vs \<Rightarrow> vs) @ [v]) else map_of g k')"
  by (induction g rule: entry_push.induct) auto

lemma group_by_snoc: "group_by key (vs @ [v]) = entry_push (key v) v (group_by key vs)"
  by (simp add: group_by_def)

lemma group_by_distinct [simp]: "distinct (map fst (group_by key vs))"
  by (induction vs rule: rev_induct) (simp_all add: group_by_snoc entry_push_distinct, simp add: group_by_def)

lemma group_by_keys [simp]: "fst ` set (group_by key vs) = key ` set vs"
  by (induction vs rule: rev_induct) (simp_all add: group_by_snoc entry_push_keys, simp add: group_by_def)

text \<open>Every group holds exactly the values of its key, in arrival order.\<close>

lemma map_of_group_by:
  "map_of (group_by key vs) k =
     (if k \<in> key ` set vs then Some (filter (\<lambda>v. key v = k) vs) else None)"
proof (induction vs rule: rev_induct)
  case Nil
  then show ?case by (simp add: group_by_def)
next
  case (snoc v vs)
  show ?case
  proof (cases "k \<in> key ` set vs")
    case True
    with snoc show ?thesis by (auto simp: group_by_snoc map_of_entry_push)
  next
    case False
    then have "filter (\<lambda>x. key x = k) vs = []" by (auto simp: filter_empty_conv)
    with snoc False show ?thesis by (auto simp: group_by_snoc map_of_entry_push)
  qed
qed

end
