(* ===== verification/Shared_Types.thy ===== *)
theory Shared_Types
  imports Prelude
begin

text \<open>
  The entities of \<open>crates/shared/src/model\<close>, the shared error of
  \<open>crates/shared/src/error.rs\<close> and the data carried by the ports of
  \<open>crates/domain/src/ports\<close>. The \<open>u64\<close> newtypes (\<open>ChainId\<close>, \<open>Height\<close>,
  \<open>RecordIndex\<close>, \<open>Epoch\<close>) are naturals below \<open>2 ^ 64\<close>; \<open>Hash\<close> and
  \<open>AddressBytes\<close> are byte sequences.
\<close>

section \<open>Errors\<close>

datatype domain_error =
    Source string | Storage string | Decode string | Schema string
  | Config string | NotFound string | Invalid string

section \<open>Chain vocabulary\<close>

type_synonym chain_id = nat
type_synonym height = nat
type_synonym record_index = nat
type_synonym epoch = nat
type_synonym hash = bytes
type_synonym address_bytes = bytes

record chain_caps =
  supports_reorg :: bool
  supports_subscribe :: bool

definition chain_caps_default :: chain_caps where
  "chain_caps_default = \<lparr>supports_reorg = True, supports_subscribe = False\<rparr>"

record block_meta =
  bm_chain_id :: chain_id
  bm_height :: height
  bm_hash :: hash
  bm_parent_hash :: hash
  bm_time :: int

record tx_calldata =
  tc_chain_id :: chain_id
  tc_height :: height
  tc_block_hash :: hash
  tc_tx_id :: hash
  tc_to_addr :: bytes
  tc_tx_index :: nat
  tc_input :: bytes

section \<open>Records and rows\<close>

record raw_record =
  rr_chain_id :: chain_id
  rr_height :: height
  rr_block_hash :: hash
  rr_index :: record_index
  rr_address :: address_bytes
  rr_selectors :: "hash list"
  rr_data :: bytes
  rr_tx_id :: hash
  rr_tx_index :: nat
  rr_inner_index :: "nat option"

record tip_log =
  tl_record :: raw_record
  tl_removed :: bool

record record_filter =
  rf_addresses :: "address_bytes list"
  rf_selectors :: "hash list"

datatype event_value =
    EvAddress bytes | EvUint string | EvInt string | EvBool bool | EvBytes bytes
  | EvString string | EvHash bytes | EvJson string

record decoded_event =
  de_table :: string
  de_fields :: "(string \<times> event_value) list"

record event_row =
  er_chain_id :: chain_id
  er_height :: height
  er_block_hash :: hash
  er_block_time :: "int option"
  er_tx_id :: hash
  er_index :: record_index
  er_event :: decoded_event

section \<open>Queries\<close>

datatype sort_dir = Asc | Desc

datatype filter_op = OpEq | OpNe | OpGt | OpGte | OpLt | OpLte

record qfilter =
  qf_column :: string
  qf_op :: filter_op
  qf_value :: string

record qsort =
  qs_column :: string
  qs_dir :: sort_dir

record query_spec =
  sp_table :: string
  sp_filters :: "qfilter list"
  sp_sort :: "qsort list"
  sp_first :: nat
  sp_after :: "string option"
  sp_include_tx :: bool
  sp_include_receipt :: bool
  sp_descending :: bool

record 'a page =
  pg_items :: "'a list"
  pg_end_cursor :: "string option"
  pg_has_next :: bool

section \<open>Spend\<close>

datatype rpc_call =
    GetLogs nat nat
  | BlockNumber
  | BlockByNumber nat bool
  | TxByHash nat
  | Receipt nat
  | LogSubscription
  | Other

record plan_profile =
  max_rps :: nat
  max_cu_per_sec :: "nat option"
  max_batch :: nat
  max_getlogs_blocks :: nat
  max_getlogs_results :: nat
  monthly_quota :: "nat option"

definition plan_profile_default :: plan_profile where
  "plan_profile_default = \<lparr>
     max_rps = 25, max_cu_per_sec = None, max_batch = 100,
     max_getlogs_blocks = 2000, max_getlogs_results = 10000, monthly_quota = None \<rparr>"

section \<open>Work items\<close>

datatype work_kind = Backfill | Tip | Reorg

record work_item =
  wi_chain_id :: chain_id
  wi_from :: height
  wi_to :: height
  wi_kind :: work_kind
  wi_epoch :: epoch

record 'a lease =
  le_id :: int
  le_seq :: int
  le_item :: 'a

section \<open>Port payloads\<close>

record aux_data =
  ax_block_metas :: "block_meta list"
  ax_enrichment :: "event_row list"

definition aux_data_default :: aux_data where
  "aux_data_default = \<lparr>ax_block_metas = [], ax_enrichment = []\<rparr>"

record ingest_batch =
  ib_raw_records :: "raw_record list"
  ib_block_metas :: "block_meta list"
  ib_enrichment :: "event_row list"
  ib_enqueue :: "work_item option"
  ib_advance_cursor :: "(chain_id \<times> height \<times> hash) option"

text \<open>The statements of a plan are SQL text; the type parameter lets them be given by their
  meaning together with a rendering.\<close>

record 'st schema_plan =
  pl_summary :: "string list"
  pl_statements :: "'st list"
  pl_destructive :: bool

definition schema_plan_is_empty :: "'st schema_plan \<Rightarrow> bool" where
  "schema_plan_is_empty p \<longleftrightarrow> pl_statements p = []"

end
