(* ===== verification/Shared_Util.thy ===== *)
theory Shared_Util
  imports Shared_Types
begin

text \<open>
  \<open>crates/shared/src/util.rs\<close>: identifier validation, the ABI-name to column-name
  normalisation and the hex codec. A \<open>char\<close> of a Rust string that is not ASCII spans
  several bytes here; \<open>to_snake_case\<close> collapses a run of non-alphanumerics to one
  underscore, so treating it byte by byte gives the same result.
\<close>

section \<open>Definitions\<close>

definition RECEIPTS_TABLE :: string where
  "RECEIPTS_TABLE = ''receipts''"

definition table_has_idx :: "string \<Rightarrow> bool" where
  "table_has_idx table \<longleftrightarrow> table \<noteq> RECEIPTS_TABLE"

definition is_valid_ident :: "string \<Rightarrow> bool" where
  "is_valid_ident name \<longleftrightarrow>
     name \<noteq> [] \<and> length name \<le> 63
     \<and> list_all (\<lambda>b. is_ascii_lowercase b \<or> is_ascii_digit b \<or> b = CHR ''_'') name
     \<and> \<not> is_ascii_digit (hd name)"

definition ends_with_char :: "char \<Rightarrow> string \<Rightarrow> bool" where
  "ends_with_char c s \<longleftrightarrow> s \<noteq> [] \<and> last s = c"

text \<open>One iteration of the loop of \<open>to_snake_case\<close>: \<open>prev\<close> is \<open>chars[i - 1]\<close> when
  \<open>i > 0\<close>, \<open>rest\<close> the characters after \<open>c\<close>.\<close>

definition prev_boundary :: "char option \<Rightarrow> string \<Rightarrow> bool" where
  "prev_boundary prev rest \<longleftrightarrow> (case prev of
     None \<Rightarrow> False
   | Some p \<Rightarrow> is_ascii_lowercase p \<or> is_ascii_digit p
       \<or> (is_ascii_uppercase p \<and> (case rest of [] \<Rightarrow> False | n # _ \<Rightarrow> is_ascii_lowercase n)))"

definition snake_push :: "char option \<Rightarrow> char \<Rightarrow> string \<Rightarrow> string \<Rightarrow> string" where
  "snake_push prev c rest out =
     (if is_ascii_uppercase c then
        (if prev_boundary prev rest \<and> \<not> ends_with_char (CHR ''_'') out
         then out @ [CHR ''_''] else out) @ [to_ascii_lowercase c]
      else if is_ascii_alphanumeric c then out @ [c]
      else if \<not> ends_with_char (CHR ''_'') out then out @ [CHR ''_'']
      else out)"

fun snake_loop :: "char option \<Rightarrow> string \<Rightarrow> string \<Rightarrow> string" where
  "snake_loop prev [] out = out"
| "snake_loop prev (c # rest) out = snake_loop (Some c) rest (snake_push prev c rest out)"

definition trim_matches :: "char \<Rightarrow> string \<Rightarrow> string" where
  "trim_matches c s = rev (dropWhile (\<lambda>x. x = c) (rev (dropWhile (\<lambda>x. x = c) s)))"

definition to_snake_case :: "string \<Rightarrow> string" where
  "to_snake_case name = trim_matches (CHR ''_'') (snake_loop None name [])"

text \<open>\<open>u8::from_str_radix(s, 16)\<close> on a two-byte slice: the standard library accepts a
  leading plus sign.\<close>

definition hex_digit :: "char \<Rightarrow> nat option" where
  "hex_digit c =
     (let n = char_code c in
      if 48 \<le> n \<and> n \<le> 57 then Some (n - 48)
      else if 97 \<le> n \<and> n \<le> 102 then Some (n - 87)
      else if 65 \<le> n \<and> n \<le> 70 then Some (n - 55)
      else None)"

definition from_str_radix16 :: "char \<Rightarrow> char \<Rightarrow> byte option" where
  "from_str_radix16 c d =
     (if c = CHR ''+'' then map_option of_nat (hex_digit d)
      else case (hex_digit c, hex_digit d) of
        (Some h, Some l) \<Rightarrow> Some (of_nat (16 * h + l))
      | _ \<Rightarrow> None)"

text \<open>
  The \<open>step_by(2)\<close> iterator collected into an \<open>Option\<close>: it stops at the first
  \<open>None\<close>. Slicing \<open>&s[i..i + 2]\<close> panics when a bound falls inside a character;
  \<open>next\<close> is the byte at \<open>i + 2\<close>, the start bound is the end bound of the
  iteration before (position 0 is always a boundary).
\<close>

fun hex_pairs :: "string \<Rightarrow> bytes option outcome" where
  "hex_pairs [] = Returns (Some [])"
| "hex_pairs [c] = Returns None"
| "hex_pairs (c # d # rest) =
     (if rest \<noteq> [] \<and> is_utf8_continuation (hd rest) then Panics
      else case from_str_radix16 c d of
        None \<Rightarrow> Returns None
      | Some b \<Rightarrow> map_outcome (map_option ((#) b)) (hex_pairs rest))"

definition strip_prefix :: "string \<Rightarrow> string \<Rightarrow> string option" where
  "strip_prefix p s = (if prefix p s then Some (drop (length p) s) else None)"

definition hex_decode :: "string \<Rightarrow> bytes option outcome" where
  "hex_decode s =
     (let s' = (case strip_prefix ''0x'' s of None \<Rightarrow> s | Some r \<Rightarrow> r) in
      if odd (length s') then Returns None else hex_pairs s')"

definition hex_char :: "nat \<Rightarrow> char" where
  "hex_char n = (if n < 10 then char_of (48 + n) else char_of (87 + n))"

definition hex_encode :: "bytes \<Rightarrow> string" where
  "hex_encode bs = concat (map (\<lambda>b. [hex_char (unat b div 16), hex_char (unat b mod 16)]) bs)"

definition hash_hex :: "hash \<Rightarrow> string" where
  "hash_hex h = ''0x'' @ hex_encode h"

section \<open>The hex codec\<close>

lemma hex_digit_hex_char [simp]: "n < 16 \<Longrightarrow> hex_digit (hex_char n) = Some n"
  by (auto simp: hex_digit_def hex_char_def Let_def)

lemma hex_char_not_plus [simp]: "n < 16 \<Longrightarrow> hex_char n \<noteq> CHR ''+''"
  by (auto simp: hex_char_def char_code_inj [symmetric], auto simp: char_code_def)

lemma hex_char_code: "n < 16 \<Longrightarrow> char_code (hex_char n) = (if n < 10 then 48 + n else 87 + n)"
  by (simp add: hex_char_def)

lemma hex_char_ascii [simp]: "n < 16 \<Longrightarrow> \<not> is_utf8_continuation (hex_char n)"
  by (simp add: is_utf8_continuation_def hex_char_code)

lemma unat_byte_nibbles [simp]: "unat (b :: byte) div 16 < 16" "unat (b :: byte) mod 16 < 16"
proof -
  have "unat b < 256" using unsigned_less [of b] by simp
  then show "unat b div 16 < 16" by (simp add: less_mult_imp_div_less)
qed simp

lemma from_str_radix16_encode [simp]:
  "from_str_radix16 (hex_char (unat b div 16)) (hex_char (unat b mod 16)) = Some b"
  by (simp add: from_str_radix16_def del: of_nat_add of_nat_mult)

lemma hex_encode_Nil [simp]: "hex_encode [] = []"
  by (simp add: hex_encode_def)

lemma hex_encode_Cons [simp]:
  "hex_encode (b # bs) = hex_char (unat b div 16) # hex_char (unat b mod 16) # hex_encode bs"
  by (simp add: hex_encode_def)

lemma length_hex_encode [simp]: "length (hex_encode bs) = 2 * length bs"
  by (induction bs) simp_all

lemma hex_encode_hd: "hex_encode bs \<noteq> [] \<Longrightarrow> \<not> is_utf8_continuation (hd (hex_encode bs))"
  by (cases bs) simp_all

lemma hex_pairs_encode: "hex_pairs (hex_encode bs) = Returns (Some bs)"
  by (induction bs) (auto dest: hex_encode_hd)

lemma hex_encode_no_prefix: "\<not> prefix ''0x'' (hex_encode bs)"
proof (cases bs)
  case (Cons b bs')
  have "unat b mod 16 < 16" by simp
  then have "char_code (hex_char (unat b mod 16)) \<noteq> 120"
    unfolding hex_char_code [OF \<open>unat b mod 16 < 16\<close>] by (auto split: if_splits)
  then have "hex_char (unat b mod 16) \<noteq> CHR ''x''" by (auto simp: char_code_def)
  then show ?thesis using Cons by auto
qed simp

lemma hex_decode_encode: "hex_decode (hex_encode bs) = Returns (Some bs)"
  by (simp add: hex_decode_def strip_prefix_def hex_encode_no_prefix hex_pairs_encode)

lemma hex_decode_0x: "hex_decode (''0x'' @ s) = (if odd (length s) then Returns None else hex_pairs s)"
  by (simp add: hex_decode_def strip_prefix_def)

lemma hex_digit_Some:
  "hex_digit c = Some n \<Longrightarrow> n < 16 \<and> hex_char n = to_ascii_lowercase c"
  by (auto simp: hex_digit_def hex_char_def ascii_defs Let_def char_code_inj [symmetric]
      split: if_splits)

lemma from_str_radix16_Some:
  assumes "from_str_radix16 c d = Some b" and "c \<noteq> CHR ''+''"
  shows "[hex_char (unat b div 16), hex_char (unat b mod 16)] = map to_ascii_lowercase [c, d]"
proof -
  obtain h l where h: "hex_digit c = Some h" and l: "hex_digit d = Some l"
    and b: "b = of_nat (16 * h + l)"
    using assms by (auto simp: from_str_radix16_def split: option.splits)
  have "unat b = 16 * h + l"
    using hex_digit_Some[OF h] hex_digit_Some[OF l] unfolding b
    by (simp add: unat_of_nat del: of_nat_add of_nat_mult)
  then show ?thesis using hex_digit_Some[OF h] hex_digit_Some[OF l] by simp
qed

lemma hex_pairs_Some:
  assumes "hex_pairs s = Returns (Some bs)" and "CHR ''+'' \<notin> set s"
  shows "hex_encode bs = map to_ascii_lowercase s"
  using assms
proof (induction s arbitrary: bs rule: hex_pairs.induct)
  case (3 c d rest)
  have bound: "\<not> (rest \<noteq> [] \<and> is_utf8_continuation (hd rest))"
    using "3.prems"(1) by auto
  with "3.prems"(1) obtain b where b: "from_str_radix16 c d = Some b"
    and "map_outcome (map_option ((#) b)) (hex_pairs rest) = Returns (Some bs)"
    by (cases "from_str_radix16 c d") auto
  then obtain bs' where rest: "hex_pairs rest = Returns (Some bs')" and bs: "bs = b # bs'"
    by (cases "hex_pairs rest") auto
  have "hex_encode bs' = map to_ascii_lowercase rest"
    using "3.IH"[OF bound b rest] "3.prems"(2) by simp
  moreover have "c \<noteq> CHR ''+''" using "3.prems"(2) by auto
  ultimately show ?case using from_str_radix16_Some[OF b] bs by simp
qed auto

section \<open>Identifiers\<close>

definition ident_char :: "char \<Rightarrow> bool" where
  "ident_char b \<longleftrightarrow> is_ascii_lowercase b \<or> is_ascii_digit b \<or> b = CHR ''_''"

definition no_double_underscore :: "string \<Rightarrow> bool" where
  "no_double_underscore s \<longleftrightarrow> successively (\<lambda>a b. \<not> (a = CHR ''_'' \<and> b = CHR ''_'')) s"

lemma no_double_underscore_snoc:
  "no_double_underscore (s @ [c]) \<longleftrightarrow>
     no_double_underscore s \<and> \<not> (ends_with_char (CHR ''_'') s \<and> c = CHR ''_'')"
  by (auto simp: no_double_underscore_def ends_with_char_def successively_append_iff)

lemma ends_with_char_snoc [simp]: "ends_with_char c (s @ [d]) \<longleftrightarrow> d = c"
  by (simp add: ends_with_char_def)

lemma underscore_class [simp]:
  "\<not> is_ascii_lowercase (CHR ''_'')" "\<not> is_ascii_uppercase (CHR ''_'')"
  "\<not> is_ascii_digit (CHR ''_'')" "\<not> is_ascii_alphanumeric (CHR ''_'')"
  by (simp_all add: ascii_defs char_code_def)

lemma snake_push_ident_char:
  "list_all ident_char out \<Longrightarrow> list_all ident_char (snake_push prev c rest out)"
  by (auto simp: snake_push_def ident_char_def is_ascii_alphanumeric_def to_ascii_lowercase_upper)

lemma snake_push_no_double:
  assumes "no_double_underscore out"
  shows "no_double_underscore (snake_push prev c rest out)"
proof -
  have "is_ascii_uppercase c \<Longrightarrow> to_ascii_lowercase c \<noteq> CHR ''_''"
    using to_ascii_lowercase_upper[of c] by auto
  moreover have "is_ascii_alphanumeric c \<Longrightarrow> c \<noteq> CHR ''_''" by auto
  ultimately show ?thesis
    using assms by (auto simp: snake_push_def no_double_underscore_snoc)
qed

lemma snake_loop_ident_char:
  "list_all ident_char out \<Longrightarrow> list_all ident_char (snake_loop prev s out)"
  by (induction prev s out rule: snake_loop.induct) (simp_all add: snake_push_ident_char)

lemma snake_loop_no_double:
  "no_double_underscore out \<Longrightarrow> no_double_underscore (snake_loop prev s out)"
  by (induction prev s out rule: snake_loop.induct) (simp_all add: snake_push_no_double)

lemma trim_matches_decomp:
  obtains p q where "s = p @ trim_matches c s @ q"
    and "trim_matches c s \<noteq> [] \<Longrightarrow> hd (trim_matches c s) \<noteq> c"
    and "trim_matches c s \<noteq> [] \<Longrightarrow> last (trim_matches c s) \<noteq> c"
proof -
  let ?t = "dropWhile (\<lambda>x. x = c) s" and ?r = "trim_matches c s"
  have r: "?r = rev (dropWhile (\<lambda>x. x = c) (rev ?t))" by (simp add: trim_matches_def)
  have t: "?t = ?r @ rev (takeWhile (\<lambda>x. x = c) (rev ?t))"
    unfolding r rev_append [symmetric] by (simp only: takeWhile_dropWhile_id rev_rev_ident)
  have "s = takeWhile (\<lambda>x. x = c) s @ ?t" by simp
  then have s: "s = takeWhile (\<lambda>x. x = c) s @ ?r @ rev (takeWhile (\<lambda>x. x = c) (rev ?t))"
    using t by simp
  have "hd ?r \<noteq> c" if "?r \<noteq> []"
  proof -
    from that t have "?t \<noteq> []" and "hd ?t = hd ?r" by (metis Nil_is_append_conv, metis hd_append2)
    then show ?thesis using hd_dropWhile [of "\<lambda>x. x = c" s] by simp
  qed
  moreover have "last ?r \<noteq> c" if "?r \<noteq> []"
    using that hd_dropWhile [of "\<lambda>x. x = c" "rev ?t"] unfolding r by (simp add: last_rev)
  ultimately show ?thesis using s that by blast
qed

lemma trim_matches_id:
  assumes "s \<noteq> [] \<Longrightarrow> hd s \<noteq> c" and "s \<noteq> [] \<Longrightarrow> last s \<noteq> c"
  shows "trim_matches c s = s"
proof (cases "s = []")
  case False
  then have "dropWhile (\<lambda>x. x = c) s = s" and "dropWhile (\<lambda>x. x = c) (rev s) = rev s"
    using assms by (simp_all add: dropWhile_eq_self_iff hd_rev)
  then show ?thesis by (simp add: trim_matches_def)
qed (simp add: trim_matches_def)

text \<open>The shape of every column name the normalisation produces.\<close>

definition snake_shape :: "string \<Rightarrow> bool" where
  "snake_shape s \<longleftrightarrow> list_all ident_char s \<and> no_double_underscore s
     \<and> (s \<noteq> [] \<longrightarrow> hd s \<noteq> CHR ''_'' \<and> last s \<noteq> CHR ''_'')"

lemma to_snake_case_shape: "snake_shape (to_snake_case name)"
proof -
  let ?s = "snake_loop None name []"
  obtain p q where pq: "?s = p @ to_snake_case name @ q"
    and "to_snake_case name \<noteq> [] \<Longrightarrow> hd (to_snake_case name) \<noteq> CHR ''_''"
    and "to_snake_case name \<noteq> [] \<Longrightarrow> last (to_snake_case name) \<noteq> CHR ''_''"
    unfolding to_snake_case_def by (rule trim_matches_decomp [of ?s "CHR ''_''"]) blast
  moreover have "list_all ident_char ?s"
    by (rule snake_loop_ident_char) simp
  moreover have "no_double_underscore ?s"
    by (rule snake_loop_no_double) (simp add: no_double_underscore_def)
  ultimately show ?thesis
    by (auto simp: snake_shape_def no_double_underscore_def successively_append_iff)
qed

lemma snake_loop_id:
  assumes "list_all ident_char s" and "no_double_underscore (out @ s)"
  shows "snake_loop prev s out = out @ s"
  using assms
proof (induction s arbitrary: prev out)
  case (Cons c s)
  have nd: "no_double_underscore (out @ [c])"
    using Cons.prems(2) by (auto simp: no_double_underscore_def successively_append_iff)
  have "\<not> is_ascii_uppercase c"
    using Cons.prems(1) by (auto simp: ident_char_def ascii_disjoint)
  then have "snake_push prev c s out = out @ [c]"
    using Cons.prems(1) nd
    by (auto simp: snake_push_def ident_char_def is_ascii_alphanumeric_def
        no_double_underscore_snoc)
  then show ?case using Cons.IH[of "out @ [c]" "Some c"] Cons.prems by simp
qed simp

lemma to_snake_case_id: "snake_shape s \<Longrightarrow> to_snake_case s = s"
  unfolding to_snake_case_def snake_shape_def
  by (subst snake_loop_id) (auto intro: trim_matches_id)

lemma is_valid_ident_snake:
  "snake_shape s \<Longrightarrow> is_valid_ident s \<longleftrightarrow> s \<noteq> [] \<and> length s \<le> 63 \<and> \<not> is_ascii_digit (hd s)"
  by (auto simp: snake_shape_def is_valid_ident_def ident_char_def list_all_iff)

section \<open>Properties\<close>

text \<open>
  Hex codec: decoding inverts encoding, with or without the \<open>0x\<close> prefix; and a text
  that decodes to \<open>bs\<close> is, up to letter case and the prefix, the encoding of \<open>bs\<close>,
  provided it holds no plus sign.
\<close>

theorem hex_round_trip:
  "hex_decode (hex_encode bs) = Returns (Some bs)
   \<and> hex_decode (''0x'' @ hex_encode bs) = Returns (Some bs)
   \<and> (hex_decode (''0x'' @ s) = Returns (Some bs) \<and> CHR ''+'' \<notin> set s
        \<longrightarrow> map to_ascii_lowercase s = hex_encode bs)"
  using hex_pairs_Some[of s bs]
  by (auto simp: hex_decode_encode hex_decode_0x[simplified] hex_pairs_encode split: if_splits)

theorem hex_round_trip_witness:
  "hex_decode (''0x'' @ ''DeadBEEF'') = Returns (Some [0xde, 0xad, 0xbe, 0xef])
   \<and> map to_ascii_lowercase ''DeadBEEF'' = hex_encode [0xde, 0xad, 0xbe, 0xef]"
proof -
  have "hex_decode (''0x'' @ ''DeadBEEF'') = Returns (Some [0xde, 0xad, 0xbe, 0xef])"
    by code_simp
  then show ?thesis
    using hex_round_trip[of "[0xde, 0xad, 0xbe, 0xef]" "''DeadBEEF''"] by simp
qed

text \<open>
  Column names: \<open>to_snake_case\<close> always yields lower-case letters, digits and single
  inner underscores, is idempotent, and its result is a valid SQL identifier exactly when it
  is non-empty, at most 63 bytes and does not start with a digit.
\<close>

theorem to_snake_case_normal_form:
  "list_all ident_char (to_snake_case name) \<and> no_double_underscore (to_snake_case name)
   \<and> to_snake_case (to_snake_case name) = to_snake_case name
   \<and> (is_valid_ident (to_snake_case name) \<longleftrightarrow>
        to_snake_case name \<noteq> [] \<and> length (to_snake_case name) \<le> 63
        \<and> \<not> is_ascii_digit (hd (to_snake_case name)))"
  using to_snake_case_shape[of name] is_valid_ident_snake to_snake_case_id
  by (auto simp: snake_shape_def)

text \<open>
  Limits of the two helpers: an ABI name made of underscores, or starting with one before
  a digit, is not turned into an SQL identifier; \<open>hex_decode\<close> accepts a sign inside a
  byte pair, and panics on a text whose byte pairs cut a multi-byte character.
\<close>

theorem util_edge_cases:
  "to_snake_case ''_'' = [] \<and> to_snake_case ''_0'' = ''0'' \<and> \<not> is_valid_ident (to_snake_case ''_0'')
   \<and> hex_decode ''+f'' = Returns (Some [15])
   \<and> hex_decode [CHR ''a'', char_of (0xC3 :: nat), char_of (0xA9 :: nat), CHR ''a''] = Panics"
  by (intro conjI; code_simp)

end
