(* ===== verification/Pg_Store.thy ===== *)
theory Pg_Store
  imports Shared_Util
begin

text \<open>
  The Postgres database the repositories of \<open>crates/db\<close> work on: the fixed tables of
  \<open>crates/db/src/base_schema.rs\<close>, the typed tables the migrator creates, statements,
  transactions, and the errors of \<open>crates/db/src/error.rs\<close>.

  A table is the list of its rows. A \<open>bigint\<close> column is an \<open>int\<close>. \<open>INSERT\<close>,
  \<open>DELETE\<close>, \<open>UPDATE\<close> and \<open>SELECT\<close> have their SQL meaning; a unique key is the
  function that a conflict is judged by. Every statement, \<open>BEGIN\<close> and \<open>COMMIT\<close>
  included, may also fail for reasons outside the program (connection, disk, permission):
  the component \<open>faults\<close> says which of the next statements do.
\<close>

section \<open>Errors\<close>

datatype db_error = Sqlx string | Encode string

fun db_error_string :: "db_error \<Rightarrow> string" where
  "db_error_string (Sqlx e) = ''database error: '' @ e"
| "db_error_string (Encode e) = ''encode error: '' @ e"

definition db_error_to_domain :: "db_error \<Rightarrow> domain_error" where
  "db_error_to_domain e = Storage (db_error_string e)"

section \<open>Tables\<close>

record block_row =
  bl_chain_id :: int
  bl_height :: int
  bl_hash :: bytes
  bl_parent_hash :: bytes
  bl_time :: int

record cursor_row =
  cu_chain_id :: int
  cu_last_height :: int
  cu_last_hash :: bytes

record raw_row =
  rw_chain_id :: int
  rw_height :: int
  rw_idx :: int
  rw_block_hash :: bytes
  rw_address :: bytes
  rw_selectors :: bytes
  rw_data :: bytes
  rw_tx_id :: bytes
  rw_tx_index :: int
  rw_inner_index :: "int option"

text \<open>\<open>locked_at\<close> is a time in seconds.\<close>

record queue_row =
  wq_id :: int
  wq_chain_id :: int
  wq_from :: int
  wq_to :: int
  wq_kind :: string
  wq_epoch :: int
  wq_locked_at :: "nat option"
  wq_lease_seq :: int

text \<open>
  A row of a typed table: the meta columns, \<open>idx\<close> where the table has it, and the
  decoded columns that are not null.
\<close>

record typed_row =
  tr_chain_id :: int
  tr_height :: int
  tr_block_hash :: bytes
  tr_block_time :: "int option"
  tr_tx_id :: bytes
  tr_idx :: "int option"
  tr_fields :: "(string \<times> event_value) list"

datatype sql_type = Bytea | Numeric | Boolean | Text | Jsonb | Bigint | Timestamptz

record typed_table =
  tb_cols :: "(string \<times> sql_type) list"
  tb_pk :: "string list"
  tb_tx_fk :: bool
  tb_rows :: "typed_row list"

record db =
  blocks :: "block_row list"
  cursors :: "cursor_row list"
  raw_records :: "raw_row list"
  work_queue :: "queue_row list"
  queue_next_id :: int
  tables :: "string \<Rightarrow> typed_table option"
  clock :: nat
  faults :: "string option list"

text \<open>The keys: primary keys, and the unique index of the work queue.\<close>

definition block_key :: "block_row \<Rightarrow> int \<times> int" where
  "block_key b = (bl_chain_id b, bl_height b)"

definition raw_key :: "raw_row \<Rightarrow> int \<times> int \<times> int" where
  "raw_key r = (rw_chain_id r, rw_height r, rw_idx r)"

definition queue_key :: "queue_row \<Rightarrow> int \<times> int \<times> int \<times> string" where
  "queue_key q = (wq_chain_id q, wq_from q, wq_to q, wq_kind q)"

datatype datum = DInt int | DBytes bytes | DTime int | DValue event_value | DNull

definition typed_column :: "typed_row \<Rightarrow> string \<Rightarrow> datum" where
  "typed_column r c =
     (if c = ''chain_id'' then DInt (tr_chain_id r)
      else if c = ''height'' then DInt (tr_height r)
      else if c = ''block_hash'' then DBytes (tr_block_hash r)
      else if c = ''block_time'' then (case tr_block_time r of None \<Rightarrow> DNull | Some t \<Rightarrow> DTime t)
      else if c = ''tx_id'' then DBytes (tr_tx_id r)
      else if c = ''idx'' then (case tr_idx r of None \<Rightarrow> DNull | Some i \<Rightarrow> DInt i)
      else (case map_of (tr_fields r) c of None \<Rightarrow> DNull | Some v \<Rightarrow> DValue v))"

definition typed_key :: "typed_table \<Rightarrow> typed_row \<Rightarrow> datum list" where
  "typed_key t r = map (typed_column r) (tb_pk t)"

text \<open>The fresh database of \<open>init\<close>: every statement of it is guarded by
  \<open>IF NOT EXISTS\<close>.\<close>

definition db_empty :: db where
  "db_empty = \<lparr>blocks = [], cursors = [], raw_records = [], work_queue = [], queue_next_id = 1,
     tables = (\<lambda>_. None), clock = 0, faults = []\<rparr>"

section \<open>Statements and transactions\<close>

text \<open>A statement is all or nothing: a server error leaves the data as it was.\<close>

definition stmt :: "(db \<Rightarrow> string + ('a \<times> db)) \<Rightarrow> (db, db_error, 'a) m" where
  "stmt f s =
     (let s0 = s\<lparr>faults := tl (faults s)\<rparr>
      in case faults s of
           Some e # _ \<Rightarrow> (Err (Sqlx e), s0)
         | _ \<Rightarrow> (case f s0 of Inl e \<Rightarrow> (Err (Sqlx e), s0) | Inr (x, s') \<Rightarrow> (Ok x, s')))"

text \<open>Reading statements.\<close>

definition select_stmt :: "(db \<Rightarrow> 'a) \<Rightarrow> (db, db_error, 'a) m" where
  "select_stmt f = stmt (\<lambda>s. Inr (f s, s))"

text \<open>Rolling back restores the rows; the id sequence and the clock are not transactional.\<close>

definition restore :: "db \<Rightarrow> db \<Rightarrow> db" where
  "restore snap s = snap\<lparr>queue_next_id := queue_next_id s, clock := clock s, faults := faults s\<rparr>"

definition db_result :: "(db, db_error, 'a) m \<Rightarrow> (db, domain_error, 'a) m" where
  "db_result f s = (let (r, s') = f s in (map_err db_error_to_domain r, s'))"

text \<open>\<open>pool.begin()\<close> ... \<open>tx.commit()\<close>: an early return or an unwinding panic drops the
  transaction, which rolls it back.\<close>

definition in_tx :: "(db, db_error, 'a) m \<Rightarrow> (db, db_error, 'a) m" where
  "in_tx body s =
     (case select_stmt (\<lambda>_. ()) s of
        (Ok _, s0) \<Rightarrow>
          (case bind body (\<lambda>x. bind (select_stmt (\<lambda>_. ())) (\<lambda>_. ret x)) s0 of
             (Ok x, s') \<Rightarrow> (Ok x, s')
           | (r, s') \<Rightarrow> (r, restore s0 s'))
      | (Err e, s0) \<Rightarrow> (Err e, s0)
      | (Panic, s0) \<Rightarrow> (Panic, s0))"

definition transaction :: "(db, db_error, 'a) m \<Rightarrow> (db, domain_error, 'a) m" where
  "transaction body = db_result (in_tx body)"

section \<open>Row operations\<close>

text \<open>\<open>INSERT ... ON CONFLICT DO NOTHING\<close> of several rows.\<close>

fun insert_nothing :: "('r \<Rightarrow> 'k) \<Rightarrow> 'r list \<Rightarrow> 'r list \<Rightarrow> nat \<times> 'r list" where
  "insert_nothing key [] rows = (0, rows)"
| "insert_nothing key (r # rs) rows =
     (if key r \<in> key ` set rows then insert_nothing key rs rows
      else let (n, rows') = insert_nothing key rs (rows @ [r]) in (Suc n, rows'))"

text \<open>\<open>INSERT ... ON CONFLICT (key) DO UPDATE SET\<close> all other columns; one statement may not
  touch a row twice.\<close>

definition put_row :: "('r \<Rightarrow> 'k) \<Rightarrow> 'r \<Rightarrow> 'r list \<Rightarrow> 'r list" where
  "put_row key r rows =
     (if key r \<in> key ` set rows then map (\<lambda>x. if key x = key r then r else x) rows else rows @ [r])"

definition insert_update :: "('r \<Rightarrow> 'k) \<Rightarrow> 'r list \<Rightarrow> 'r list \<Rightarrow> string + nat \<times> 'r list" where
  "insert_update key rs rows =
     (if distinct (map key rs) then Inr (length rs, fold (put_row key) rs rows)
      else Inl ''ON CONFLICT DO UPDATE command cannot affect row a second time'')"

text \<open>\<open>DELETE ... WHERE\<close>.\<close>

definition delete_where :: "('r \<Rightarrow> bool) \<Rightarrow> 'r list \<Rightarrow> nat \<times> 'r list" where
  "delete_where P rows = (length (filter P rows), filter (\<lambda>r. \<not> P r) rows)"

section \<open>Lemmas on row operations\<close>

lemma insert_nothing_keys:
  "insert_nothing key rs rows = (n, rows') \<Longrightarrow> key ` set rows' = key ` set rows \<union> key ` set rs"
proof (induction rs arbitrary: rows n rows')
  case (Cons r rs)
  show ?case
  proof (cases "key r \<in> key ` set rows")
    case True
    with Cons.prems have "insert_nothing key rs rows = (n, rows')" by simp
    from Cons.IH[OF this] True show ?thesis by (simp add: insert_absorb)
  next
    case False
    with Cons.prems obtain k where "insert_nothing key rs (rows @ [r]) = (k, rows')"
      by (auto split: prod.splits)
    from Cons.IH[OF this] show ?thesis by simp
  qed
qed simp

lemma insert_nothing_keeps:
  "insert_nothing key rs rows = (n, rows') \<Longrightarrow> \<exists>new. rows' = rows @ new \<and> length new = n \<and> set new \<subseteq> set rs
     \<and> (\<forall>r \<in> set new. key r \<notin> key ` set rows)"
proof (induction rs arbitrary: rows n rows')
  case (Cons r rs)
  show ?case
  proof (cases "key r \<in> key ` set rows")
    case True
    with Cons show ?thesis by fastforce
  next
    case False
    then obtain k where k: "insert_nothing key rs (rows @ [r]) = (k, rows')" "n = Suc k"
      using Cons.prems by (auto split: prod.splits)
    from Cons.IH[OF k(1)] obtain new where new: "rows' = (rows @ [r]) @ new" "length new = k"
      "set new \<subseteq> set rs" "\<forall>x \<in> set new. key x \<notin> key ` set (rows @ [r])" by blast
    with k False show ?thesis by (intro exI[of _ "r # new"]) auto
  qed
qed simp

lemma insert_nothing_distinct:
  "insert_nothing key rs rows = (n, rows') \<Longrightarrow> distinct (map key rows) \<Longrightarrow> distinct (map key rows')"
  by (induction rs arbitrary: rows n rows') (auto split: if_splits prod.splits)

text \<open>A second run of the same insert writes nothing.\<close>

lemma insert_nothing_present:
  "key ` set rs \<subseteq> key ` set rows \<Longrightarrow> insert_nothing key rs rows = (0, rows)"
  by (induction rs) auto

lemma insert_nothing_first:
  "insert_nothing key rs rows = (n, rows') \<Longrightarrow> distinct (map key rs) \<Longrightarrow> r \<in> set rs \<Longrightarrow>
     key r \<notin> key ` set rows \<Longrightarrow> r \<in> set rows'"
proof (induction rs arbitrary: rows n rows')
  case (Cons x rs)
  show ?case
  proof (cases "key x \<in> key ` set rows")
    case True
    with Cons show ?thesis by auto
  next
    case False
    then obtain k where k: "insert_nothing key rs (rows @ [x]) = (k, rows')"
      using Cons.prems by (auto split: prod.splits)
    show ?thesis
    proof (cases "r = x")
      case True
      with insert_nothing_keeps[OF k] show ?thesis by auto
    next
      case False
      then have "key r \<noteq> key x" using Cons.prems(2,3) by (auto simp: image_iff)
      then show ?thesis using Cons.IH[OF k] Cons.prems False by auto
    qed
  qed
qed simp

lemma put_row_keys: "key ` set (put_row key r rows) = insert (key r) (key ` set rows)"
  by (auto simp: put_row_def image_iff)

lemma put_row_map_keys:
  "key r \<in> key ` set rows \<Longrightarrow> map key (put_row key r rows) = map key rows"
  by (auto simp: put_row_def)

lemma put_row_distinct: "distinct (map key rows) \<Longrightarrow> distinct (map key (put_row key r rows))"
  by (cases "key r \<in> key ` set rows") (simp add: put_row_map_keys, auto simp: put_row_def)

lemma put_row_mem:
  "x \<in> set (put_row key r rows) \<longleftrightarrow> x = r \<or> x \<in> set rows \<and> key x \<noteq> key r"
  by (auto simp: put_row_def image_iff)

lemma fold_put_row_mem:
  assumes "distinct (map key rs)"
  shows "x \<in> set (fold (put_row key) rs rows) \<longleftrightarrow> x \<in> set rs \<or> x \<in> set rows \<and> key x \<notin> key ` set rs"
  using assms by (induction rs arbitrary: rows) (auto simp: put_row_mem)

lemma fold_put_row_distinct:
  "distinct (map key rows) \<Longrightarrow> distinct (map key (fold (put_row key) rs rows))"
  by (induction rs arbitrary: rows) (auto simp: put_row_distinct)

lemma delete_where_set [simp]: "set (snd (delete_where P rows)) = {r \<in> set rows. \<not> P r}"
  by (auto simp: delete_where_def)

lemma delete_where_distinct: "distinct (map key rows) \<Longrightarrow> distinct (map key (snd (delete_where P rows)))"
  by (simp add: delete_where_def distinct_map_filter)

section \<open>Lemmas on statements and transactions\<close>

text \<open>What a transaction protects: everything but the id sequence, the clock and the pending
  faults.\<close>

definition stored :: "db \<Rightarrow> db" where
  "stored s = s\<lparr>queue_next_id := 0, clock := 0, faults := []\<rparr>"

lemma stored_faults [simp]: "stored (s\<lparr>faults := fs\<rparr>) = stored s"
  by (simp add: stored_def)

lemma stored_restore [simp]: "stored (restore snap s) = stored snap"
  by (simp add: stored_def restore_def)

lemma stored_fields:
  assumes "stored s = stored t"
  shows "blocks s = blocks t" "cursors s = cursors t" "raw_records s = raw_records t"
    "work_queue s = work_queue t" "tables s = tables t"
  using arg_cong[OF assms, of blocks] arg_cong[OF assms, of cursors] arg_cong[OF assms, of raw_records]
    arg_cong[OF assms, of work_queue] arg_cong[OF assms, of tables]
  by (simp_all add: stored_def)

lemma stmt_OkD:
  "stmt f s = (Ok x, s') \<Longrightarrow> f (s\<lparr>faults := tl (faults s)\<rparr>) = Inr (x, s')"
  by (auto simp: stmt_def Let_def split: list.splits option.splits sum.splits)

lemma stmt_ErrD: "stmt f s = (r, s') \<Longrightarrow> \<not> is_ok r \<Longrightarrow> (\<exists>e. r = Err (Sqlx e)) \<and> s' = s\<lparr>faults := tl (faults s)\<rparr>"
  by (auto simp: stmt_def Let_def split: list.splits option.splits sum.splits)

lemma stmt_no_faults: "faults s = [] \<Longrightarrow> stmt f s = (case f s of Inl e \<Rightarrow> (Err (Sqlx e), s) | Inr (x, s') \<Rightarrow> (Ok x, s'))"
proof -
  assume "faults s = []"
  then have "s\<lparr>faults := []\<rparr> = s" by (cases s) simp
  with \<open>faults s = []\<close> show ?thesis by (simp only: stmt_def Let_def list.case list.sel)
qed

lemma select_stmt_OkD: "select_stmt f s = (Ok x, s') \<Longrightarrow> x = f (s\<lparr>faults := tl (faults s)\<rparr>) \<and> s' = s\<lparr>faults := tl (faults s)\<rparr>"
  unfolding select_stmt_def by (drule stmt_OkD) auto

lemma select_stmt_stored: "select_stmt f s = (r, s') \<Longrightarrow> s' = s\<lparr>faults := tl (faults s)\<rparr>"
  by (auto simp: select_stmt_def stmt_def Let_def split: list.splits option.splits)

lemma select_no_faults: "faults s = [] \<Longrightarrow> select_stmt f s = (Ok (f s), s)"
  by (simp add: select_stmt_def stmt_no_faults)

text \<open>A transaction either ran its body to the end or left the stored data untouched.\<close>

lemma in_tx_cases:
  assumes "in_tx body s = (r, s')"
  obtains x s1 where "r = Ok x" "body (s\<lparr>faults := tl (faults s)\<rparr>) = (Ok x, s1)"
      "s' = s1\<lparr>faults := tl (faults s1)\<rparr>"
  | "\<not> is_ok r" "stored s' = stored s"
proof -
  obtain r0 s0 where b: "select_stmt (\<lambda>_. ()) s = (r0, s0)" by fastforce
  then have s0: "s0 = s\<lparr>faults := tl (faults s)\<rparr>" by (rule select_stmt_stored)
  show thesis
  proof (cases "\<exists>u. r0 = Ok u")
    case False
    with assms b s0 that(2) show thesis by (cases r0) (auto simp: in_tx_def)
  next
    case True
    obtain r1 s1 where c: "bind body (\<lambda>x. bind (select_stmt (\<lambda>_. ())) (\<lambda>_. ret x)) s0 = (r1, s1)" by fastforce
    show thesis
    proof (cases "\<exists>x. r1 = Ok x")
      case False
      with True assms b c s0 that(2) show thesis by (cases r1) (auto simp: in_tx_def)
    next
      case True
      then obtain x where x: "r1 = Ok x" by blast
      with c obtain s2 where "body s0 = (Ok x, s2)" "select_stmt (\<lambda>_. ()) s2 = (Ok (), s1)"
        by (auto elim!: bind_OkE simp: ret_def)
      moreover have "r = Ok x" "s' = s1"
        using \<open>\<exists>u. r0 = Ok u\<close> assms b c x by (auto simp: in_tx_def)
      ultimately show thesis using that(1) select_stmt_stored s0 by blast
    qed
  qed
qed

lemma transaction_cases:
  assumes "transaction body s = (r, s')"
  obtains x s1 where "r = Ok x" "body (s\<lparr>faults := tl (faults s)\<rparr>) = (Ok x, s1)"
      "s' = s1\<lparr>faults := tl (faults s1)\<rparr>"
  | "\<not> is_ok r" "stored s' = stored s"
proof -
  obtain r0 where i: "in_tx body s = (r0, s')" and r: "r = map_err db_error_to_domain r0"
    using assms by (auto simp: transaction_def db_result_def split: prod.splits)
  from i show thesis
  proof (cases rule: in_tx_cases)
    case (1 x s1)
    then show thesis using that(1) r by simp
  next
    case 2
    then show thesis using that(2) r by (cases r0) auto
  qed
qed

text \<open>Operations that keep an invariant of the database, whatever they return; ids are only
  ever handed out once.\<close>

definition keeps :: "(db \<Rightarrow> bool) \<Rightarrow> (db, 'e, 'a) m \<Rightarrow> bool" where
  "keeps P f \<longleftrightarrow> (\<forall>s r s'. f s = (r, s') \<longrightarrow> P s \<longrightarrow> P s' \<and> queue_next_id s \<le> queue_next_id s')"

text \<open>Invariants that read the stored data and at most an upper bound on the ids.\<close>

definition db_invariant :: "(db \<Rightarrow> bool) \<Rightarrow> bool" where
  "db_invariant P \<longleftrightarrow> (\<forall>s t. stored s = stored t \<longrightarrow> queue_next_id s \<le> queue_next_id t \<longrightarrow> P s \<longrightarrow> P t)"

lemma db_invariantD:
  "db_invariant P \<Longrightarrow> P s \<Longrightarrow> stored s = stored t \<Longrightarrow> queue_next_id s \<le> queue_next_id t \<Longrightarrow> P t"
  unfolding db_invariant_def by blast

lemma keepsD: "keeps P f \<Longrightarrow> P s \<Longrightarrow> f s = (r, s') \<Longrightarrow> P s'"
  unfolding keeps_def by blast

lemma keeps_ret [simp, intro]: "keeps P (ret x)" and keeps_throw [simp, intro]: "keeps P (throw e)"
  by (simp_all add: keeps_def ret_def throw_def)

lemma keeps_bind [intro]:
  assumes "keeps P f" and "\<And>x. keeps P (g x)"
  shows "keeps P (bind f g)"
  unfolding keeps_def
proof (intro allI impI)
  fix s r s' assume b: "bind f g s = (r, s')" and "P s"
  obtain r1 s1 where f: "f s = (r1, s1)" by fastforce
  with assms(1) \<open>P s\<close> have s1: "P s1" "queue_next_id s \<le> queue_next_id s1" unfolding keeps_def by blast+
  show "P s' \<and> queue_next_id s \<le> queue_next_id s'"
  proof (cases r1)
    case (Ok x)
    with b f have "g x s1 = (r, s')" by (simp add: bind_def)
    with assms(2)[of x] s1 show ?thesis unfolding keeps_def by (meson order_trans)
  qed (use b f s1 in \<open>auto simp: bind_def\<close>)
qed

lemma keeps_for_each [intro]: "(\<And>x acc. keeps P (f x acc)) \<Longrightarrow> keeps P (for_each f xs acc)"
proof (induction xs arbitrary: acc)
  case (Cons x xs)
  then have "keeps P (bind (f x acc) (for_each f xs))" by (intro keeps_bind) auto
  then show ?case by simp
qed simp

lemma keeps_db_result [intro]: "keeps P f \<Longrightarrow> keeps P (db_result f)"
  unfolding keeps_def db_result_def by (auto split: prod.splits)

lemma keeps_stmt [intro]:
  assumes "db_invariant P" and "\<And>s x s'. P s \<Longrightarrow> f s = Inr (x, s') \<Longrightarrow> P s' \<and> queue_next_id s \<le> queue_next_id s'"
  shows "keeps P (stmt f)"
  unfolding keeps_def
proof (intro allI impI)
  fix s r s' assume st: "stmt f s = (r, s')" and "P s"
  then have P0: "P (s\<lparr>faults := tl (faults s)\<rparr>)"
    by (intro db_invariantD[OF assms(1) \<open>P s\<close>]) simp_all
  show "P s' \<and> queue_next_id s \<le> queue_next_id s'"
  proof (cases "is_ok r")
    case True
    then obtain x where "r = Ok x" by (auto simp: is_ok_iff)
    with st assms(2)[OF P0] show ?thesis by (auto dest!: stmt_OkD)
  next
    case False
    with stmt_ErrD[OF st] P0 show ?thesis by simp
  qed
qed

lemma keeps_select [intro]: "db_invariant P \<Longrightarrow> keeps P (select_stmt f)"
  unfolding select_stmt_def by (rule keeps_stmt) auto

lemma keeps_in_tx [intro]:
  assumes "db_invariant P" and "keeps P body"
  shows "keeps P (in_tx body)"
  unfolding keeps_def
proof (intro allI impI)
  fix s r s' assume tx: "in_tx body s = (r, s')" and "P s"
  obtain r0 s0 where b: "select_stmt (\<lambda>_. ()) s = (r0, s0)" by fastforce
  have k0: "P s0" "queue_next_id s \<le> queue_next_id s0" "stored s0 = stored s"
    using keeps_select[OF assms(1)] b \<open>P s\<close> select_stmt_stored[OF b] unfolding keeps_def by (blast, blast, simp)
  obtain r1 s1 where c: "bind body (\<lambda>x. bind (select_stmt (\<lambda>_. ())) (\<lambda>_. ret x)) s0 = (r1, s1)" by fastforce
  have "keeps P (bind body (\<lambda>x. bind (select_stmt (\<lambda>_. ())) (\<lambda>_. ret x)))"
    using assms by (intro keeps_bind) auto
  with c k0 have k1: "P s1" "queue_next_id s0 \<le> queue_next_id s1" unfolding keeps_def by blast+
  have "P (restore s0 s1)"
    by (rule db_invariantD[OF assms(1) k0(1)]) (simp, simp add: restore_def k1)
  then show "P s' \<and> queue_next_id s \<le> queue_next_id s'"
    using tx b c k0 k1
    by (cases r0; cases r1) (auto simp: in_tx_def restore_def)
qed

lemma keeps_transaction [intro]: "db_invariant P \<Longrightarrow> keeps P body \<Longrightarrow> keeps P (transaction body)"
  unfolding transaction_def by (intro keeps_db_result keeps_in_tx)

text \<open>The effect of a loop of statements, up to the faults consumed.\<close>

lemma for_each_effect:
  assumes "for_each f xs acc s = (Ok r, s')"
    and "\<And>x acc s acc' s'. x \<in> set xs \<Longrightarrow> f x acc s = (Ok acc', s') \<Longrightarrow> \<exists>fs. s' = (u x s)\<lparr>faults := fs\<rparr>"
    and "\<And>x s fs. u x (s\<lparr>faults := fs\<rparr>) = (u x s)\<lparr>faults := fs\<rparr>"
  shows "\<exists>fs. s' = (fold u xs s)\<lparr>faults := fs\<rparr>"
  using assms(1,2)
proof (induction xs arbitrary: acc s)
  case Nil
  then have "s' = s\<lparr>faults := faults s\<rparr>" by (cases s) (simp add: ret_def)
  with Nil show ?case by (intro exI[of _ "faults s"]) (simp add: ret_def)
next
  case (Cons x xs)
  from Cons.prems(1) obtain y s1 where 1: "f x acc s = (Ok y, s1)" "for_each f xs y s1 = (Ok r, s')"
    by (auto elim: bind_OkE)
  with Cons.prems(2) obtain fs where s1: "s1 = (u x s)\<lparr>faults := fs\<rparr>" by (meson list.set_intros(1))
  have comm: "fold u xs (t\<lparr>faults := gs\<rparr>) = (fold u xs t)\<lparr>faults := gs\<rparr>" for t gs
    by (induction xs arbitrary: t) (simp_all add: assms(3))
  from Cons.IH[OF 1(2)] Cons.prems(2) show ?case by (auto simp: s1 comm)
qed

lemma insert_nothing_snd_Cons:
  "snd (insert_nothing key (r # rs) rows) =
     snd (insert_nothing key rs (if key r \<in> key ` set rows then rows else rows @ [r]))"
  by (simp split: prod.splits)

lemma insert_nothing_append:
  "snd (insert_nothing key (xs @ ys) rows) = snd (insert_nothing key ys (snd (insert_nothing key xs rows)))"
  by (induction xs arbitrary: rows) (simp_all add: insert_nothing_snd_Cons del: insert_nothing.simps(2))

lemma insert_nothing_snd_keys: "key ` set (snd (insert_nothing key rs rows)) = key ` set rows \<union> key ` set rs"
  using insert_nothing_keys[of key rs rows] by (metis prod.collapse)

lemma insert_nothing_snd_distinct:
  "distinct (map key rows) \<Longrightarrow> distinct (map key (snd (insert_nothing key rs rows)))"
  using insert_nothing_distinct[of key rs rows] by (metis prod.collapse)

lemma insert_nothing_snd_subset:
  "set rows \<subseteq> set (snd (insert_nothing key rs rows)) \<and> set (snd (insert_nothing key rs rows)) \<subseteq> set rows \<union> set rs"
proof -
  obtain n rows' where "insert_nothing key rs rows = (n, rows')" by fastforce
  with insert_nothing_keeps[OF this] show ?thesis by auto
qed

lemma insert_nothing_exact:
  assumes "distinct (map key rs)"
  shows "snd (insert_nothing key rs rows) = rows @ filter (\<lambda>r. key r \<notin> key ` set rows) rs"
  using assms
proof (induction rs arbitrary: rows)
  case (Cons r rs)
  have "filter (\<lambda>x. key x \<notin> insert (key r) (key ` set rows)) rs = filter (\<lambda>x. key x \<notin> key ` set rows) rs"
    using Cons.prems by (intro filter_cong) (auto simp: image_iff)
  with Cons show ?case by (simp add: insert_nothing_snd_Cons del: insert_nothing.simps(2))
qed simp

text \<open>Operations that succeed on every database when no statement fails from outside.\<close>

definition runs :: "(db, 'e, 'a) m \<Rightarrow> bool" where
  "runs f \<longleftrightarrow> (\<forall>s. faults s = [] \<longrightarrow> (\<exists>x s'. f s = (Ok x, s') \<and> faults s' = []))"

lemma runsE:
  assumes "runs f" and "faults s = []"
  obtains x s' where "f s = (Ok x, s')" "faults s' = []"
  using assms unfolding runs_def by blast

lemma runs_ret [simp, intro]: "runs (ret x)"
  by (simp add: runs_def ret_def)

lemma runs_bind [intro]: "runs f \<Longrightarrow> (\<And>x. runs (g x)) \<Longrightarrow> runs (bind f g)"
  unfolding runs_def by (metis bind_Ok)

lemma runs_for_each [intro]: "(\<And>x acc. runs (f x acc)) \<Longrightarrow> runs (for_each f xs acc)"
proof (induction xs arbitrary: acc)
  case (Cons x xs)
  then have "runs (bind (f x acc) (for_each f xs))" by (intro runs_bind) auto
  then show ?case by simp
qed simp

lemma runs_select [simp, intro]: "runs (select_stmt f)"
  by (simp add: runs_def select_no_faults)

lemma runs_db_result [intro]: "runs f \<Longrightarrow> runs (db_result f)"
  unfolding runs_def db_result_def by fastforce

lemma runs_in_tx:
  assumes "faults s = []" and "body s = (Ok x, s')" and "faults s' = []"
  shows "in_tx body s = (Ok x, s')"
  using assms by (simp add: in_tx_def select_no_faults bind_def ret_def)

lemma transaction_no_faults:
  assumes "faults s = []" and "body s = (Ok x, s')" and "faults s' = []"
  shows "transaction body s = (Ok x, s')"
  using runs_in_tx[of s body x s'] assms by (simp add: transaction_def db_result_def)

lemma runs_transaction [intro]: "runs f \<Longrightarrow> runs (transaction f)"
  unfolding runs_def using transaction_no_faults by metis

end
