(* ===== verification/Repositories.thy ===== *)
theory Repositories
  imports Pg_Store
begin

text \<open>
  \<open>crates/db/src/encode.rs\<close> and the repositories of \<open>crates/db/src/repositories\<close>
  except the queue: raw records, block metas, cursors, typed event rows.
\<close>

section \<open>Selector framing\<close>

definition frame_selectors :: "hash list \<Rightarrow> bytes" where
  "frame_selectors sels = concat (map (\<lambda>s. of_nat (length s) # s) sels)"

text \<open>The release build drops a truncated tail.\<close>

function unframe_selectors :: "bytes \<Rightarrow> hash list" where
  "unframe_selectors blob = (case blob of
     [] \<Rightarrow> []
   | b # rest \<Rightarrow>
      if length rest < unat b then []
      else take (unat b) rest # unframe_selectors (drop (unat b) rest))"
  by pat_completeness auto
termination
  by (relation "measure length") auto

declare unframe_selectors.simps [simp del]

section \<open>Shared helpers\<close>

definition safe_ident :: "string \<Rightarrow> (db_error, string) res" where
  "safe_ident name = (if is_valid_ident name then Ok name else Err (Encode (''unsafe identifier: '' @ name)))"

definition chunk_rows :: "nat \<Rightarrow> nat" where
  "chunk_rows cols = max (65535 div max cols 1) 1"

text \<open>\<open>e?\<close> on a pure result.\<close>

definition lift :: "('e, 'a) res \<Rightarrow> ('s, 'e, 'a) m" where
  "lift r s = (r, s)"

text \<open>A statement that replaces the rows of one table and returns the affected count.\<close>

definition dml :: "(db \<Rightarrow> nat \<times> db) \<Rightarrow> (db, db_error, nat) m" where
  "dml f = stmt (\<lambda>s. Inr (f s))"

section \<open>Raw records\<close>

definition RAW_COLS :: nat where "RAW_COLS = 10"

definition raw_row_of :: "raw_record \<Rightarrow> raw_row" where
  "raw_row_of r =
     \<lparr>rw_chain_id = as_i64 (rr_chain_id r), rw_height = as_i64 (rr_height r), rw_idx = as_i64 (rr_index r),
      rw_block_hash = rr_block_hash r, rw_address = rr_address r,
      rw_selectors = frame_selectors (rr_selectors r), rw_data = rr_data r, rw_tx_id = rr_tx_id r,
      rw_tx_index = as_i64 (rr_tx_index r), rw_inner_index = map_option as_i64 (rr_inner_index r)\<rparr>"

definition raw_insert_stmt :: "raw_record list \<Rightarrow> (db, db_error, nat) m" where
  "raw_insert_stmt chunk = dml (\<lambda>s.
     let (n, rows) = insert_nothing raw_key (map raw_row_of chunk) (raw_records s)
     in (n, s\<lparr>raw_records := rows\<rparr>))"

definition raw_insert_batch_tx :: "raw_record list \<Rightarrow> (db, db_error, nat) m" where
  "raw_insert_batch_tx records =
     for_each (\<lambda>chunk n. bind (raw_insert_stmt chunk) (\<lambda>k. ret (u64_add n k)))
       (chunks (chunk_rows RAW_COLS) records) 0"

definition raw_insert_batch :: "raw_record list \<Rightarrow> (db, domain_error, nat) m" where
  "raw_insert_batch records = transaction (raw_insert_batch_tx records)"

definition record_of_raw_row :: "chain_id \<Rightarrow> raw_row \<Rightarrow> raw_record" where
  "record_of_raw_row chain r =
     \<lparr>rr_chain_id = chain, rr_height = as_u64 (rw_height r), rr_block_hash = rw_block_hash r,
      rr_index = as_u64 (rw_idx r), rr_address = rw_address r,
      rr_selectors = unframe_selectors (rw_selectors r), rr_data = rw_data r, rr_tx_id = rw_tx_id r,
      rr_tx_index = as_u64 (rw_tx_index r), rr_inner_index = map_option as_u64 (rw_inner_index r)\<rparr>"

definition in_range :: "int \<Rightarrow> int \<Rightarrow> int \<Rightarrow> bool" where
  "in_range from to h \<longleftrightarrow> from \<le> h \<and> h \<le> to"

definition raw_range :: "chain_id \<Rightarrow> height \<Rightarrow> height \<Rightarrow> (db, domain_error, raw_record list) m" where
  "raw_range chain from to = db_result (select_stmt (\<lambda>s.
     map (record_of_raw_row chain)
       (sort_key (\<lambda>r. (rw_height r, rw_idx r))
         (filter (\<lambda>r. rw_chain_id r = as_i64 chain \<and> in_range (as_i64 from) (as_i64 to) (rw_height r))
           (raw_records s)))))"

definition raw_delete_from_height_tx :: "chain_id \<Rightarrow> height \<Rightarrow> (db, db_error, nat) m" where
  "raw_delete_from_height_tx chain from = dml (\<lambda>s.
     let (n, rows) = delete_where (\<lambda>r. rw_chain_id r = as_i64 chain \<and> as_i64 from \<le> rw_height r) (raw_records s)
     in (n, s\<lparr>raw_records := rows\<rparr>))"

definition raw_delete_from_height :: "chain_id \<Rightarrow> height \<Rightarrow> (db, domain_error, nat) m" where
  "raw_delete_from_height chain from = transaction (raw_delete_from_height_tx chain from)"

section \<open>Block metas\<close>

definition BLOCK_COLS :: nat where "BLOCK_COLS = 5"
definition CALLDATA_CHUNK :: nat where "CALLDATA_CHUNK = 10000"

definition block_row_of :: "block_meta \<Rightarrow> block_row" where
  "block_row_of b =
     \<lparr>bl_chain_id = as_i64 (bm_chain_id b), bl_height = as_i64 (bm_height b), bl_hash = bm_hash b,
      bl_parent_hash = bm_parent_hash b, bl_time = bm_time b\<rparr>"

definition block_upsert_stmt :: "block_meta list \<Rightarrow> (db, db_error, nat) m" where
  "block_upsert_stmt chunk = stmt (\<lambda>s.
     case insert_update block_key (map block_row_of chunk) (blocks s) of
       Inl e \<Rightarrow> Inl e
     | Inr (n, rows) \<Rightarrow> Inr (n, s\<lparr>blocks := rows\<rparr>))"

definition block_upsert_batch_tx :: "block_meta list \<Rightarrow> (db, db_error, nat) m" where
  "block_upsert_batch_tx bs =
     for_each (\<lambda>chunk n. bind (block_upsert_stmt chunk) (\<lambda>k. ret (u64_add n k)))
       (chunks (chunk_rows BLOCK_COLS) bs) 0"

definition block_upsert_batch :: "block_meta list \<Rightarrow> (db, domain_error, nat) m" where
  "block_upsert_batch bs = transaction (block_upsert_batch_tx bs)"

definition block_get :: "chain_id \<Rightarrow> height \<Rightarrow> (db, domain_error, block_meta option) m" where
  "block_get chain height = db_result (select_stmt (\<lambda>s.
     map_option (\<lambda>r. \<lparr>bm_chain_id = chain, bm_height = height, bm_hash = bl_hash r,
         bm_parent_hash = bl_parent_hash r, bm_time = bl_time r\<rparr>)
       (find (\<lambda>r. bl_chain_id r = as_i64 chain \<and> bl_height r = as_i64 height) (blocks s))))"

definition block_times :: "chain_id \<Rightarrow> height \<Rightarrow> height \<Rightarrow> (db, domain_error, (height \<times> int) list) m" where
  "block_times chain from to = db_result (select_stmt (\<lambda>s.
     map (\<lambda>r. (as_u64 (bl_height r), bl_time r))
       (filter (\<lambda>r. bl_chain_id r = as_i64 chain \<and> in_range (as_i64 from) (as_i64 to) (bl_height r)) (blocks s))))"

definition block_max_height :: "chain_id \<Rightarrow> (db, domain_error, height option) m" where
  "block_max_height chain = db_result (select_stmt (\<lambda>s.
     (case map bl_height (filter (\<lambda>r. bl_chain_id r = as_i64 chain) (blocks s)) of
        [] \<Rightarrow> None
      | h # hs \<Rightarrow> Some (as_u64 (fold max hs h)))))"

definition block_delete_from_height_tx :: "chain_id \<Rightarrow> height \<Rightarrow> (db, db_error, nat) m" where
  "block_delete_from_height_tx chain from = dml (\<lambda>s.
     let (n, rows) = delete_where (\<lambda>r. bl_chain_id r = as_i64 chain \<and> as_i64 from \<le> bl_height r) (blocks s)
     in (n, s\<lparr>blocks := rows\<rparr>))"

definition block_delete_from_height :: "chain_id \<Rightarrow> height \<Rightarrow> (db, domain_error, nat) m" where
  "block_delete_from_height chain from = transaction (block_delete_from_height_tx chain from)"

text \<open>Reading a \<open>bytea\<close> column as \<open>Option<Vec<u8>>\<close> and as \<open>Vec<u8>\<close>; the latter panics
  on a null.\<close>

fun bytea :: "event_value \<Rightarrow> bytes option" where
  "bytea (EvAddress b) = Some b"
| "bytea (EvBytes b) = Some b"
| "bytea (EvHash b) = Some b"
| "bytea _ = None"

definition calldata_of_row :: "chain_id \<Rightarrow> typed_row \<Rightarrow> (db_error, tx_calldata) res" where
  "calldata_of_row chain r =
     (case Option.bind (map_of (tr_fields r) ''input'') bytea of
        None \<Rightarrow> Panic
      | Some input \<Rightarrow>
         Ok \<lparr>tc_chain_id = chain, tc_height = as_u64 (tr_height r), tc_block_hash = tr_block_hash r,
             tc_tx_id = tr_tx_id r,
             tc_to_addr = (case Option.bind (map_of (tr_fields r) ''to_addr'') bytea of None \<Rightarrow> [] | Some a \<Rightarrow> a),
             tc_tx_index = as_u64 (case tr_idx r of None \<Rightarrow> 0 | Some i \<Rightarrow> i), tc_input = input\<rparr>)"

definition calldata_stmt :: "chain_id \<Rightarrow> hash list \<Rightarrow> (db, db_error, typed_row list) m" where
  "calldata_stmt chain ids = stmt (\<lambda>s. case tables s ''transactions'' of
       None \<Rightarrow> Inl ''relation transactions does not exist''
     | Some t \<Rightarrow> Inr (filter (\<lambda>r. tr_chain_id r = as_i64 chain \<and> tr_tx_id r \<in> set ids) (tb_rows t), s))"

definition block_calldata :: "chain_id \<Rightarrow> hash list \<Rightarrow> (db, domain_error, tx_calldata list) m" where
  "block_calldata chain tx_ids = db_result
     (for_each (\<lambda>ids out. bind (calldata_stmt chain ids)
         (\<lambda>rows. for_each (\<lambda>r out. bind (lift (calldata_of_row chain r)) (\<lambda>c. ret (out @ [c]))) rows out))
       (chunks CALLDATA_CHUNK tx_ids) [])"

section \<open>Cursors\<close>

definition cursor_get :: "chain_id \<Rightarrow> (db, domain_error, (height \<times> hash) option) m" where
  "cursor_get chain = db_result (select_stmt (\<lambda>s.
     map_option (\<lambda>r. (as_u64 (cu_last_height r), cu_last_hash r))
       (find (\<lambda>r. cu_chain_id r = as_i64 chain) (cursors s))))"

definition cursor_advance_in_tx :: "chain_id \<Rightarrow> height \<Rightarrow> hash \<Rightarrow> (db, db_error, unit) m" where
  "cursor_advance_in_tx chain last_h last_hash = stmt (\<lambda>s. Inr ((),
     s\<lparr>cursors := put_row cu_chain_id
        \<lparr>cu_chain_id = as_i64 chain, cu_last_height = as_i64 last_h, cu_last_hash = last_hash\<rparr> (cursors s)\<rparr>))"

definition cursor_rewind_in_tx :: "chain_id \<Rightarrow> height \<Rightarrow> (db, db_error, unit) m" where
  "cursor_rewind_in_tx chain to = stmt (\<lambda>s. Inr ((),
     s\<lparr>cursors := map (\<lambda>r. if cu_chain_id r = as_i64 chain
        then r\<lparr>cu_last_height := as_i64 to, cu_last_hash := []\<rparr> else r) (cursors s)\<rparr>))"

definition cursor_advance :: "chain_id \<Rightarrow> height \<Rightarrow> hash \<Rightarrow> (db, domain_error, unit) m" where
  "cursor_advance chain last_h last_hash = transaction (cursor_advance_in_tx chain last_h last_hash)"

definition cursor_rewind :: "chain_id \<Rightarrow> height \<Rightarrow> (db, domain_error, unit) m" where
  "cursor_rewind chain to = transaction (cursor_rewind_in_tx chain to)"

section \<open>Typed event rows\<close>

text \<open>The SQL type of a bound value, and which columns Postgres assigns it to; every type may
  be assigned to \<open>text\<close>.\<close>

fun bound_type :: "event_value \<Rightarrow> sql_type" where
  "bound_type (EvAddress _) = Bytea"
| "bound_type (EvBytes _) = Bytea"
| "bound_type (EvHash _) = Bytea"
| "bound_type (EvBool _) = Boolean"
| "bound_type (EvUint _) = Numeric"
| "bound_type (EvInt _) = Numeric"
| "bound_type (EvString _) = Text"
| "bound_type (EvJson _) = Jsonb"

definition assignable :: "sql_type \<Rightarrow> event_value \<Rightarrow> bool" where
  "assignable ty v \<longleftrightarrow> ty = Text \<or> bound_type v = ty \<or> (ty = Bigint \<and> bound_type v = Numeric)"

definition typed_row_of :: "bool \<Rightarrow> event_row \<Rightarrow> typed_row" where
  "typed_row_of has_idx row =
     \<lparr>tr_chain_id = as_i64 (er_chain_id row), tr_height = as_i64 (er_height row),
      tr_block_hash = er_block_hash row, tr_block_time = er_block_time row, tr_tx_id = er_tx_id row,
      tr_idx = (if has_idx then Some (as_i64 (er_index row)) else None),
      tr_fields = de_fields (er_event row)\<rparr>"

text \<open>The columns an insert names must exist and accept their values; with the foreign key a
  new receipt needs its transaction.\<close>

definition has_tx :: "db \<Rightarrow> typed_row \<Rightarrow> bool" where
  "has_tx s r = (case tables s ''transactions'' of
     None \<Rightarrow> False
   | Some t \<Rightarrow> (tr_chain_id r, tr_tx_id r) \<in> (\<lambda>x. (tr_chain_id x, tr_tx_id x)) ` set (tb_rows t))"

definition meta_columns :: "string list" where
  "meta_columns = [''chain_id'', ''height'', ''block_hash'', ''block_time'', ''tx_id'', ''idx'']"

definition columns_ok :: "typed_table \<Rightarrow> typed_row list \<Rightarrow> bool" where
  "columns_ok t rows \<longleftrightarrow> (\<forall>r \<in> set rows. distinct (meta_columns @ map fst (tr_fields r))
     \<and> (\<forall>(c, v) \<in> set (tr_fields r).
          case map_of (tb_cols t) c of None \<Rightarrow> False | Some ty \<Rightarrow> assignable ty v))"

definition event_insert_stmt :: "string \<Rightarrow> event_row list \<Rightarrow> (db, db_error, nat) m" where
  "event_insert_stmt table part = stmt (\<lambda>s. case tables s table of
     None \<Rightarrow> Inl (''relation does not exist: '' @ table)
   | Some t \<Rightarrow>
      (let new = map (typed_row_of (table_has_idx table)) part;
           (n, rows) = insert_nothing (typed_key t) new (tb_rows t);
           s' = s\<lparr>tables := (tables s)(table \<mapsto> t\<lparr>tb_rows := rows\<rparr>)\<rparr>
       in if \<not> columns_ok t new then Inl ''column does not exist or has another type''
          else if tb_tx_fk t \<and> \<not> (\<forall>r \<in> set rows. r \<in> set (tb_rows t) \<or> has_tx s' r)
               then Inl ''insert violates foreign key constraint receipts_tx_fk''
          else Inr (n, s')))"

definition column_signature :: "event_row \<Rightarrow> string list" where
  "column_signature row = map fst (de_fields (er_event row))"

definition event_upsert_batch_tx :: "string \<Rightarrow> event_row list \<Rightarrow> (db, db_error, nat) m" where
  "event_upsert_batch_tx table rows =
     bind (lift (safe_ident table)) (\<lambda>_.
       for_each (\<lambda>(sig, group) n.
           for_each (\<lambda>part n.
               bind (for_each (\<lambda>name _. bind (lift (safe_ident name)) (\<lambda>_. ret ())) sig ())
                 (\<lambda>_. bind (event_insert_stmt table part) (\<lambda>k. ret (u64_add n k))))
             (chunks (chunk_rows ((if table_has_idx table then 6 else 5) + length sig)) group) n)
         (sort_key fst (group_by column_signature rows)) 0)"

definition event_upsert_batch :: "string \<Rightarrow> event_row list \<Rightarrow> (db, domain_error, nat) m" where
  "event_upsert_batch table rows =
     bind (db_result (lift (safe_ident table))) (\<lambda>_. transaction (event_upsert_batch_tx table rows))"

text \<open>\<open>ON DELETE CASCADE\<close>: deleting transactions deletes their receipts.\<close>

definition cascade_receipts :: "typed_row list \<Rightarrow> db \<Rightarrow> db" where
  "cascade_receipts gone s = (case tables s RECEIPTS_TABLE of
     Some t \<Rightarrow> if tb_tx_fk t
       then s\<lparr>tables := (tables s)(RECEIPTS_TABLE \<mapsto> t\<lparr>tb_rows := filter (\<lambda>r.
              (tr_chain_id r, tr_tx_id r) \<notin> (\<lambda>x. (tr_chain_id x, tr_tx_id x)) ` set gone) (tb_rows t)\<rparr>)\<rparr>
       else s
   | None \<Rightarrow> s)"

definition event_delete_stmt :: "string \<Rightarrow> chain_id \<Rightarrow> height \<Rightarrow> (db, db_error, nat) m" where
  "event_delete_stmt table chain from = stmt (\<lambda>s. case tables s table of
     None \<Rightarrow> Inl (''relation does not exist: '' @ table)
   | Some t \<Rightarrow>
      (let P = (\<lambda>r. tr_chain_id r = as_i64 chain \<and> as_i64 from \<le> tr_height r);
           (n, rows) = delete_where P (tb_rows t);
           s' = s\<lparr>tables := (tables s)(table \<mapsto> t\<lparr>tb_rows := rows\<rparr>)\<rparr>
       in Inr (n, if table = ''transactions'' then cascade_receipts (filter P (tb_rows t)) s' else s')))"

definition event_delete_from_height_tx :: "string \<Rightarrow> chain_id \<Rightarrow> height \<Rightarrow> (db, db_error, nat) m" where
  "event_delete_from_height_tx table chain from =
     bind (lift (safe_ident table)) (\<lambda>_. event_delete_stmt table chain from)"

definition event_delete_from_height :: "string \<Rightarrow> chain_id \<Rightarrow> height \<Rightarrow> (db, domain_error, nat) m" where
  "event_delete_from_height table chain from = transaction (event_delete_from_height_tx table chain from)"

section \<open>Lemmas: framing and chunking\<close>

lemma unframe_frame:
  "(\<And>s. s \<in> set sels \<Longrightarrow> length s < 256) \<Longrightarrow> unframe_selectors (frame_selectors sels) = sels"
proof (induction sels)
  case (Cons s sels)
  then have "unat (of_nat (length s) :: byte) = length s" by (simp add: unat_of_nat)
  with Cons show ?case
    by (subst unframe_selectors.simps) (simp add: frame_selectors_def)
qed (simp add: frame_selectors_def unframe_selectors.simps)

lemma chunk_rows_pos [simp]: "chunk_rows cols \<noteq> 0"
  by (simp add: chunk_rows_def max_def)

lemma chunk_rows_cap: "0 < cols \<Longrightarrow> cols \<le> 65535 \<Longrightarrow> chunk_rows cols * cols \<le> 65535"
proof -
  assume "0 < cols" "cols \<le> 65535"
  then have "1 \<le> 65535 div cols" by (simp add: Suc_le_eq div_greater_zero_iff)
  moreover have "max cols 1 = cols" using \<open>0 < cols\<close> by simp
  ultimately have "chunk_rows cols = 65535 div cols" unfolding chunk_rows_def by simp
  then show ?thesis by (simp add: div_times_less_eq_dividend)
qed

section \<open>Lemmas: effects of the batch writes\<close>

lemma lift_OkD: "lift r s = (Ok x, s') \<Longrightarrow> r = Ok x \<and> s' = s"
  by (simp add: lift_def)

lemma safe_ident_OkD: "safe_ident name = Ok x \<Longrightarrow> is_valid_ident name"
  by (simp add: safe_ident_def split: if_splits)

definition raw_put :: "raw_record list \<Rightarrow> db \<Rightarrow> db" where
  "raw_put rs s = s\<lparr>raw_records := snd (insert_nothing raw_key (map raw_row_of rs) (raw_records s))\<rparr>"

definition block_put :: "block_meta list \<Rightarrow> db \<Rightarrow> db" where
  "block_put bs s = s\<lparr>blocks := fold (put_row block_key) (map block_row_of bs) (blocks s)\<rparr>"

definition event_put :: "string \<Rightarrow> event_row list \<Rightarrow> db \<Rightarrow> db" where
  "event_put table rows s = (case tables s table of
     None \<Rightarrow> s
   | Some t \<Rightarrow> s\<lparr>tables := (tables s)(table \<mapsto> t\<lparr>tb_rows := snd (insert_nothing (typed_key t)
        (map (typed_row_of (table_has_idx table)) rows) (tb_rows t))\<rparr>)\<rparr>)"

lemma fold_raw_put: "fold raw_put cs s = raw_put (concat cs) s"
  by (induction cs arbitrary: s) (simp_all add: raw_put_def insert_nothing_append)

lemma fold_block_put: "fold block_put cs s = block_put (concat cs) s"
  by (induction cs arbitrary: s) (simp_all add: block_put_def)

lemma typed_key_rows [simp]: "typed_key (t\<lparr>tb_rows := rows\<rparr>) = typed_key t"
  by (rule ext) (simp add: typed_key_def)

lemma event_put_Nil [simp]: "event_put table [] s = s"
proof (cases "tables s table")
  case (Some t)
  then have "(tables s)(table \<mapsto> t) = tables s" by (rule map_upd_triv)
  with Some show ?thesis by (simp add: event_put_def)
qed (simp add: event_put_def)

lemma event_put_append: "event_put table (xs @ ys) s = event_put table ys (event_put table xs s)"
  by (simp add: event_put_def insert_nothing_append split: option.splits)

lemma fold_event_put: "fold (event_put table) cs s = event_put table (concat cs) s"
  by (induction cs arbitrary: s) (simp_all add: event_put_append)

lemma raw_insert_stmt_OkD: "raw_insert_stmt rs s = (Ok n, s') \<Longrightarrow> s' = (raw_put rs s)\<lparr>faults := tl (faults s)\<rparr>"
  unfolding raw_insert_stmt_def dml_def by (drule stmt_OkD) (auto simp: raw_put_def split: prod.splits)

lemma block_upsert_stmt_OkD: "block_upsert_stmt bs s = (Ok n, s') \<Longrightarrow> s' = (block_put bs s)\<lparr>faults := tl (faults s)\<rparr>"
  unfolding block_upsert_stmt_def
  by (drule stmt_OkD) (auto simp: block_put_def insert_update_def split: if_splits)

lemma event_insert_stmt_OkD:
  "event_insert_stmt table part s = (Ok n, s') \<Longrightarrow> s' = (event_put table part s)\<lparr>faults := tl (faults s)\<rparr>
     \<and> tables s table \<noteq> None"
  unfolding event_insert_stmt_def
  by (drule stmt_OkD) (auto simp: event_put_def Let_def split: option.splits prod.splits if_splits)

lemma raw_put_faults: "raw_put rs (s\<lparr>faults := fs\<rparr>) = (raw_put rs s)\<lparr>faults := fs\<rparr>"
  by (simp add: raw_put_def)

lemma block_put_faults: "block_put bs (s\<lparr>faults := fs\<rparr>) = (block_put bs s)\<lparr>faults := fs\<rparr>"
  by (simp add: block_put_def)

lemma event_put_faults: "event_put table rows (s\<lparr>faults := fs\<rparr>) = (event_put table rows s)\<lparr>faults := fs\<rparr>"
  by (simp add: event_put_def split: option.splits)

lemma raw_insert_batch_tx_Ok:
  assumes "raw_insert_batch_tx rs s = (Ok n, s')"
  shows "\<exists>fs. s' = (raw_put rs s)\<lparr>faults := fs\<rparr>"
proof -
  have "\<exists>fs. s' = (fold raw_put (chunks (chunk_rows RAW_COLS) rs) s)\<lparr>faults := fs\<rparr>"
    by (rule for_each_effect[OF assms[unfolded raw_insert_batch_tx_def]])
      (auto elim!: bind_OkE dest!: raw_insert_stmt_OkD simp: ret_def raw_put_faults)
  then show ?thesis by (simp add: fold_raw_put concat_chunks)
qed

lemma block_upsert_batch_tx_Ok:
  assumes "block_upsert_batch_tx bs s = (Ok n, s')"
  shows "\<exists>fs. s' = (block_put bs s)\<lparr>faults := fs\<rparr>"
proof -
  have "\<exists>fs. s' = (fold block_put (chunks (chunk_rows BLOCK_COLS) bs) s)\<lparr>faults := fs\<rparr>"
    by (rule for_each_effect[OF assms[unfolded block_upsert_batch_tx_def]])
      (auto elim!: bind_OkE dest!: block_upsert_stmt_OkD simp: ret_def block_put_faults)
  then show ?thesis by (simp add: fold_block_put concat_chunks)
qed

text \<open>The order in which a batch of typed rows is written: by column signature.\<close>

definition by_signature :: "event_row list \<Rightarrow> event_row list" where
  "by_signature rows = concat (map snd (sort_key fst (group_by column_signature rows)))"

lemma entry_push_set: "set (concat (map snd (entry_push a b gs))) = insert b (set (concat (map snd gs)))"
  by (induction a b gs rule: entry_push.induct) auto

lemma group_by_set: "set (concat (map snd (group_by key vs))) = set vs"
proof (induction vs rule: rev_induct)
  case Nil
  then show ?case by (simp add: group_by_def)
next
  case (snoc v vs)
  then show ?case by (simp add: group_by_snoc entry_push_set[simplified])
qed

lemma by_signature_set [simp]: "set (by_signature rows) = set rows"
  using group_by_set[of column_signature rows] by (simp add: by_signature_def)

lemma sig_check_frame:
  "for_each (\<lambda>name _. bind (lift (safe_ident name)) (\<lambda>_. ret ())) sig () s = (r, s') \<Longrightarrow> s' = s"
  by (induction sig) (auto simp: bind_def lift_def ret_def safe_ident_def split: if_splits prod.splits)

lemma event_upsert_batch_tx_Ok:
  assumes "event_upsert_batch_tx table rows s = (Ok n, s')"
  shows "is_valid_ident table \<and> (\<exists>fs. s' = (event_put table (by_signature rows) s)\<lparr>faults := fs\<rparr>)"
proof -
  let ?step = "\<lambda>(sig, group) n. for_each (\<lambda>part n.
               bind (for_each (\<lambda>name _. bind (lift (safe_ident name)) (\<lambda>_. ret ())) sig ())
                 (\<lambda>_. bind (event_insert_stmt table part) (\<lambda>k. ret (u64_add n k))))
             (chunks (chunk_rows ((if table_has_idx table then 6 else 5) + length sig)) group) n"
  let ?groups = "sort_key fst (group_by column_signature rows)"
  from assms have v: "is_valid_ident table" and loop: "for_each ?step ?groups 0 s = (Ok n, s')"
    unfolding event_upsert_batch_tx_def by (auto elim!: bind_OkE dest!: lift_OkD safe_ident_OkD)
  have step: "\<exists>fs. t' = (event_put table (snd g) t)\<lparr>faults := fs\<rparr>" if "?step g acc t = (Ok acc', t')" for g acc t acc' t'
  proof -
    obtain sig grp where g: "g = (sig, grp)" by (cases g)
    let ?c = "chunks (chunk_rows ((if table_has_idx table then 6 else 5) + length sig)) grp"
    have "\<exists>fs. t' = (fold (event_put table) ?c t)\<lparr>faults := fs\<rparr>"
      by (rule for_each_effect[OF that[unfolded g prod.case]])
        (auto elim!: bind_OkE dest!: event_insert_stmt_OkD sig_check_frame simp: ret_def event_put_faults)
    then show ?thesis by (simp add: g fold_event_put concat_chunks)
  qed
  have "\<exists>fs. s' = (fold (\<lambda>g. event_put table (snd g)) ?groups s)\<lparr>faults := fs\<rparr>"
    by (rule for_each_effect[OF loop]) (use step in \<open>auto simp: event_put_faults\<close>)
  moreover have "fold (\<lambda>g. event_put table (snd g)) gs t = event_put table (concat (map snd gs)) t" for gs :: "(string list \<times> event_row list) list" and t
    by (induction gs arbitrary: t) (simp_all add: event_put_append)
  ultimately show ?thesis using v by (simp add: by_signature_def)
qed

section \<open>Well-formed databases\<close>

text \<open>Unique keys, ids below the sequence, and the foreign key of receipts.\<close>

definition wf_fixed :: "db \<Rightarrow> bool" where
  "wf_fixed s \<longleftrightarrow> distinct (map block_key (blocks s)) \<and> distinct (map cu_chain_id (cursors s))
     \<and> distinct (map raw_key (raw_records s)) \<and> distinct (map wq_id (work_queue s))
     \<and> distinct (map queue_key (work_queue s)) \<and> (\<forall>q \<in> set (work_queue s). wq_id q < queue_next_id s)"

definition wf_tables :: "db \<Rightarrow> bool" where
  "wf_tables s \<longleftrightarrow> (\<forall>name t. tables s name = Some t \<longrightarrow>
     distinct (map (typed_key t) (tb_rows t))
     \<and> (tb_tx_fk t \<longrightarrow> name = RECEIPTS_TABLE \<and> (\<forall>r \<in> set (tb_rows t). has_tx s r)))"

definition db_wf :: "db \<Rightarrow> bool" where
  "db_wf s \<longleftrightarrow> wf_fixed s \<and> wf_tables s"

lemma has_tx_cong: "tables s = tables t \<Longrightarrow> has_tx s = has_tx t"
  by (rule ext) (simp add: has_tx_def)

lemma wf_tables_cong: "tables s = tables t \<Longrightarrow> wf_tables s = wf_tables t"
  by (simp add: wf_tables_def has_tx_cong[of s t])

lemma db_wf_invariant [simp, intro]: "db_invariant db_wf"
  unfolding db_invariant_def
proof (intro allI impI)
  fix s t assume st: "stored s = stored t" and id: "queue_next_id s \<le> queue_next_id t" and "db_wf s"
  note f = stored_fields[OF st]
  from \<open>db_wf s\<close> have "wf_fixed t" unfolding db_wf_def wf_fixed_def f using id by fastforce
  moreover from \<open>db_wf s\<close> have "wf_tables t" unfolding db_wf_def using wf_tables_cong[OF f(5)] by simp
  ultimately show "db_wf t" by (simp add: db_wf_def)
qed

lemma db_wf_empty [simp]: "db_wf db_empty"
  by (simp add: db_wf_def wf_fixed_def wf_tables_def db_empty_def)

lemma db_wf_raw_put: "db_wf s \<Longrightarrow> db_wf (raw_put rs s)"
  by (auto simp: db_wf_def wf_fixed_def raw_put_def insert_nothing_snd_distinct cong: wf_tables_cong
      intro: wf_tables_cong[THEN iffD1, rotated])

lemma db_wf_block_put: "db_wf s \<Longrightarrow> db_wf (block_put bs s)"
  by (auto simp: db_wf_def wf_fixed_def block_put_def fold_put_row_distinct
      intro: wf_tables_cong[THEN iffD1, rotated])

lemma keeps_lift [simp, intro]: "keeps P (lift r)"
  by (simp add: keeps_def lift_def)

lemma keeps_raw_insert [intro]: "keeps db_wf (raw_insert_batch_tx rs)"
proof -
  have "keeps db_wf (raw_insert_stmt c)" for c
    unfolding raw_insert_stmt_def dml_def
    using db_wf_raw_put[of _ c] by (intro keeps_stmt) (auto simp: raw_put_def case_prod_beta)
  then show ?thesis unfolding raw_insert_batch_tx_def by (intro keeps_for_each keeps_bind) auto
qed

lemma keeps_block_upsert [intro]: "keeps db_wf (block_upsert_batch_tx bs)"
proof -
  have "keeps db_wf (block_upsert_stmt c)" for c
    unfolding block_upsert_stmt_def
    using db_wf_block_put[of _ c]
    by (intro keeps_stmt) (auto simp: block_put_def insert_update_def split: prod.splits if_splits)
  then show ?thesis unfolding block_upsert_batch_tx_def by (intro keeps_for_each keeps_bind) auto
qed

lemma keeps_cursor [intro]: "keeps db_wf (cursor_advance_in_tx c h hs)" "keeps db_wf (cursor_rewind_in_tx c h)"
proof -
  have w: "distinct (map cu_chain_id (map (\<lambda>r. if P r then r\<lparr>cu_last_height := a, cu_last_hash := b\<rparr> else r) rows))"
    if "distinct (map cu_chain_id rows)" for P a b and rows :: "cursor_row list"
  proof -
    have "map cu_chain_id (map (\<lambda>r. if P r then r\<lparr>cu_last_height := a, cu_last_hash := b\<rparr> else r) rows) = map cu_chain_id rows"
      by simp
    with that show ?thesis by (simp only:)
  qed
  show "keeps db_wf (cursor_advance_in_tx c h hs)"
    unfolding cursor_advance_in_tx_def
    by (intro keeps_stmt) (auto simp: db_wf_def wf_fixed_def put_row_distinct
        intro: wf_tables_cong[THEN iffD1, rotated])
  show "keeps db_wf (cursor_rewind_in_tx c h)"
    unfolding cursor_rewind_in_tx_def
    by (intro keeps_stmt) (auto simp: db_wf_def wf_fixed_def w simp del: map_map
        intro: wf_tables_cong[THEN iffD1, rotated])
qed

lemma keeps_raw_delete [intro]: "keeps db_wf (raw_delete_from_height_tx c h)"
  unfolding raw_delete_from_height_tx_def dml_def
  by (intro keeps_stmt) (auto simp: db_wf_def wf_fixed_def delete_where_def distinct_map_filter
      intro: wf_tables_cong[THEN iffD1, rotated])

lemma keeps_block_delete [intro]: "keeps db_wf (block_delete_from_height_tx c h)"
  unfolding block_delete_from_height_tx_def dml_def
  by (intro keeps_stmt) (auto simp: db_wf_def wf_fixed_def delete_where_def distinct_map_filter
      intro: wf_tables_cong[THEN iffD1, rotated])

lemma has_tx_upd:
  "has_tx (s\<lparr>tables := (tables s)(name \<mapsto> t)\<rparr>) r \<longleftrightarrow>
     (if name = ''transactions'' then (tr_chain_id r, tr_tx_id r) \<in> (\<lambda>x. (tr_chain_id x, tr_tx_id x)) ` set (tb_rows t)
      else has_tx s r)"
  by (simp add: has_tx_def)

lemma transactions_not_receipts [simp]: "RECEIPTS_TABLE \<noteq> ''transactions''" "''transactions'' \<noteq> RECEIPTS_TABLE"
  by (simp_all add: RECEIPTS_TABLE_def)

lemma wf_tables_grow:
  assumes "wf_tables s" and "tables s name = Some t" and "set (tb_rows t) \<subseteq> set rows"
    and "distinct (map (typed_key t) rows)"
    and "tb_tx_fk t \<Longrightarrow> \<forall>r \<in> set rows. has_tx s r"
  shows "wf_tables (s\<lparr>tables := (tables s)(name \<mapsto> t\<lparr>tb_rows := rows\<rparr>)\<rparr>)"
proof -
  let ?s = "s\<lparr>tables := (tables s)(name \<mapsto> t\<lparr>tb_rows := rows\<rparr>)\<rparr>"
  have grow: "has_tx ?s r" if "has_tx s r" for r
    using that assms(2,3) by (auto simp: has_tx_upd) (auto simp: has_tx_def)
  show ?thesis unfolding wf_tables_def
  proof (intro allI impI conjI)
    fix n u assume u: "tables ?s n = Some u"
    show "distinct (map (typed_key u) (tb_rows u))"
      using u assms(1,4) by (auto simp: wf_tables_def split: if_splits)
    show "n = RECEIPTS_TABLE" if "tb_tx_fk u"
      using u that assms(1,2) by (auto simp: wf_tables_def split: if_splits)
    show "\<forall>r \<in> set (tb_rows u). has_tx ?s r" if "tb_tx_fk u"
      using u that assms(1,2,5) grow by (auto simp: wf_tables_def split: if_splits)
  qed
qed

lemma keeps_event_insert_stmt: "keeps db_wf (event_insert_stmt table part)"
  unfolding event_insert_stmt_def
proof (rule keeps_stmt, simp)
  fix s x s'
  assume wf: "db_wf s" and step: "(case tables s table of
     None \<Rightarrow> Inl (''relation does not exist: '' @ table)
   | Some t \<Rightarrow>
      (let new = map (typed_row_of (table_has_idx table)) part;
           (n, rows) = insert_nothing (typed_key t) new (tb_rows t);
           s' = s\<lparr>tables := (tables s)(table \<mapsto> t\<lparr>tb_rows := rows\<rparr>)\<rparr>
       in if \<not> columns_ok t new then Inl ''column does not exist or has another type''
          else if tb_tx_fk t \<and> \<not> (\<forall>r \<in> set rows. r \<in> set (tb_rows t) \<or> has_tx s' r)
               then Inl ''insert violates foreign key constraint receipts_tx_fk''
          else Inr (n, s'))) = Inr (x, s')"
  then obtain t rows where t: "tables s table = Some t"
    and rows: "rows = snd (insert_nothing (typed_key t) (map (typed_row_of (table_has_idx table)) part) (tb_rows t))"
    and s': "s' = s\<lparr>tables := (tables s)(table \<mapsto> t\<lparr>tb_rows := rows\<rparr>)\<rparr>"
    and fk: "tb_tx_fk t \<Longrightarrow> \<forall>r \<in> set rows. r \<in> set (tb_rows t) \<or> has_tx s' r"
    by (auto simp: Let_def split: option.splits prod.splits if_splits)
  have wt: "wf_tables s" using wf by (simp add: db_wf_def)
  have "has_tx s r" if "tb_tx_fk t" "r \<in> set rows" for r
  proof -
    have "table = RECEIPTS_TABLE" using wt t that(1) by (simp add: wf_tables_def)
    then have "has_tx s' r = has_tx s r" unfolding s' has_tx_upd by simp
    moreover have "r \<in> set (tb_rows t) \<or> has_tx s' r" using fk that by blast
    moreover have "r \<in> set (tb_rows t) \<Longrightarrow> has_tx s r" using wt t that(1) unfolding wf_tables_def by blast
    ultimately show ?thesis by blast
  qed
  moreover have "set (tb_rows t) \<subseteq> set rows" unfolding rows by (rule insert_nothing_snd_subset[THEN conjunct1])
  ultimately have "wf_tables s'" unfolding s'
  proof (intro wf_tables_grow[OF wt t])
    show "distinct (map (typed_key t) rows)"
      unfolding rows by (rule insert_nothing_snd_distinct) (use wt t in \<open>simp add: wf_tables_def\<close>)
  qed auto
  moreover have "wf_fixed s'" using wf by (simp add: s' db_wf_def wf_fixed_def)
  ultimately show "db_wf s' \<and> queue_next_id s \<le> queue_next_id s'" by (simp add: db_wf_def s')
qed

lemma keeps_event_upsert [intro]: "keeps db_wf (event_upsert_batch_tx table rows)"
  unfolding event_upsert_batch_tx_def
  by (intro keeps_bind keeps_for_each) (auto intro!: keeps_for_each keeps_bind keeps_event_insert_stmt)

lemma wf_tables_shrink:
  assumes "wf_tables s"
    and "\<And>n u. tables s' n = Some u \<Longrightarrow> \<exists>v P. tables s n = Some v \<and> u = v\<lparr>tb_rows := filter P (tb_rows v)\<rparr>
        \<and> (tb_tx_fk v \<longrightarrow> (\<forall>r \<in> set (tb_rows v). P r \<longrightarrow> has_tx s r \<longrightarrow> has_tx s' r))"
  shows "wf_tables s'"
  unfolding wf_tables_def
proof (intro allI impI)
  fix n u assume "tables s' n = Some u"
  from assms(2)[OF this] obtain v P where v: "tables s n = Some v" "u = v\<lparr>tb_rows := filter P (tb_rows v)\<rparr>"
    "tb_tx_fk v \<Longrightarrow> \<forall>r \<in> set (tb_rows v). P r \<longrightarrow> has_tx s r \<longrightarrow> has_tx s' r" by blast
  with assms(1) show "distinct (map (typed_key u) (tb_rows u)) \<and>
      (tb_tx_fk u \<longrightarrow> n = RECEIPTS_TABLE \<and> (\<forall>r \<in> set (tb_rows u). has_tx s' r))"
    unfolding wf_tables_def by (auto simp: distinct_map_filter)
qed

definition at_or_above :: "chain_id \<Rightarrow> height \<Rightarrow> typed_row \<Rightarrow> bool" where
  "at_or_above chain from r \<longleftrightarrow> tr_chain_id r = as_i64 chain \<and> as_i64 from \<le> tr_height r"

text \<open>What a delete leaves in each table.\<close>

definition event_cut :: "string \<Rightarrow> chain_id \<Rightarrow> height \<Rightarrow> db \<Rightarrow> db" where
  "event_cut table chain from s = (case tables s table of
     None \<Rightarrow> s
   | Some t \<Rightarrow>
      (let u = s\<lparr>tables := (tables s)(table \<mapsto> t\<lparr>tb_rows := filter (\<lambda>r. \<not> at_or_above chain from r) (tb_rows t)\<rparr>)\<rparr>
       in if table = ''transactions'' then cascade_receipts (filter (at_or_above chain from) (tb_rows t)) u else u))"

lemma event_delete_stmt_OkD:
  "event_delete_stmt table chain from s = (Ok n, s') \<Longrightarrow>
     tables s table \<noteq> None \<and> s' = (event_cut table chain from s)\<lparr>faults := tl (faults s)\<rparr>"
  unfolding event_delete_stmt_def
  by (drule stmt_OkD)
    (auto simp: event_cut_def cascade_receipts_def delete_where_def Let_def at_or_above_def[abs_def]
      split: option.splits if_splits)

lemma event_cut_faults: "event_cut table chain from (s\<lparr>faults := fs\<rparr>) = (event_cut table chain from s)\<lparr>faults := fs\<rparr>"
  by (auto simp: event_cut_def cascade_receipts_def Let_def split: option.splits)

lemma event_cut_tables:
  assumes "tables (event_cut table chain from s) n = Some u"
  obtains v P where "tables s n = Some v" "u = v\<lparr>tb_rows := filter P (tb_rows v)\<rparr>"
    "\<And>r. n = table \<Longrightarrow> P r \<Longrightarrow> \<not> at_or_above chain from r"
    "\<And>r. n \<noteq> RECEIPTS_TABLE \<Longrightarrow> n \<noteq> table \<Longrightarrow> P r"
    "\<And>r. n \<noteq> RECEIPTS_TABLE \<Longrightarrow> \<not> at_or_above chain from r \<Longrightarrow> P r"
    "\<And>r t. tb_tx_fk v \<Longrightarrow> P r \<Longrightarrow> table = ''transactions'' \<Longrightarrow> tables s table = Some t \<Longrightarrow>
       n = RECEIPTS_TABLE \<Longrightarrow> (tr_chain_id r, tr_tx_id r) \<notin> (\<lambda>x. (tr_chain_id x, tr_tx_id x)) ` {x \<in> set (tb_rows t). at_or_above chain from x}"
proof -
  have id: "v = v\<lparr>tb_rows := filter (\<lambda>_. True) (tb_rows v)\<rparr>" for v :: typed_table by (cases v) simp
  show thesis
  proof (cases "tables s table")
    case None
    with assms have u: "tables s n = Some u" by (simp add: event_cut_def)
    show thesis
      by (rule that[OF u, of "\<lambda>_. True"]) (use id u None in auto)
  next
    case (Some t)
    show thesis
    proof (cases "n = table")
      case True
      with assms Some that[of t "\<lambda>r. \<not> at_or_above chain from r"] show thesis
        by (auto simp: event_cut_def cascade_receipts_def Let_def split: if_splits option.splits)
    next
      case nt: False
      show thesis
      proof (cases "table = ''transactions'' \<and> n = RECEIPTS_TABLE \<and> tb_tx_fk (the (tables s n))")
        case True
        with assms Some nt that[of "the (tables s n)" "\<lambda>r. (tr_chain_id r, tr_tx_id r) \<notin> (\<lambda>x. (tr_chain_id x, tr_tx_id x)) ` {x \<in> set (tb_rows t). at_or_above chain from x}"]
        show thesis by (auto simp: event_cut_def cascade_receipts_def Let_def split: if_splits option.splits)
      next
        case False
        with assms Some nt have "tables s n = Some u"
          by (auto simp: event_cut_def cascade_receipts_def Let_def split: if_splits option.splits)
        with that[of u "\<lambda>_. True"] id nt False show thesis by auto
      qed
    qed
  qed
qed

lemma db_wf_event_cut: "db_wf s \<Longrightarrow> db_wf (event_cut table chain from s)"
proof -
  assume wf: "db_wf s"
  let ?s = "event_cut table chain from s"
  have "wf_tables ?s"
  proof (rule wf_tables_shrink)
    show "wf_tables s" using wf by (simp add: db_wf_def)
    fix n u assume "tables ?s n = Some u"
    then obtain v P where v: "tables s n = Some v" "u = v\<lparr>tb_rows := filter P (tb_rows v)\<rparr>"
      and cut: "\<And>r t. tb_tx_fk v \<Longrightarrow> P r \<Longrightarrow> table = ''transactions'' \<Longrightarrow> tables s table = Some t \<Longrightarrow>
       n = RECEIPTS_TABLE \<Longrightarrow> (tr_chain_id r, tr_tx_id r) \<notin> (\<lambda>x. (tr_chain_id x, tr_tx_id x)) ` {x \<in> set (tb_rows t). at_or_above chain from x}"
      by (rule event_cut_tables) blast
    have "has_tx ?s r" if fk: "tb_tx_fk v" and r: "P r" "has_tx s r" for r
    proof (cases "tables s table")
      case (Some t)
      have n: "n = RECEIPTS_TABLE" using wf v(1) fk by (simp add: db_wf_def wf_tables_def)
      show ?thesis
      proof (cases "table = ''transactions''")
        case True
        with r(2) Some obtain x where x: "x \<in> set (tb_rows t)" "(tr_chain_id r, tr_tx_id r) = (tr_chain_id x, tr_tx_id x)"
          by (auto simp: has_tx_def)
        with cut[OF fk r(1) True Some n] have "\<not> at_or_above chain from x" by auto
        with x True Some show ?thesis
          by (auto simp: has_tx_def event_cut_def cascade_receipts_def Let_def image_iff split: option.splits)
      next
        case False
        with Some r(2) show ?thesis by (simp add: has_tx_def event_cut_def Let_def)
      qed
    qed (use r in \<open>simp add: event_cut_def\<close>)
    with v show "\<exists>v P. tables s n = Some v \<and> u = v\<lparr>tb_rows := filter P (tb_rows v)\<rparr>
        \<and> (tb_tx_fk v \<longrightarrow> (\<forall>r \<in> set (tb_rows v). P r \<longrightarrow> has_tx s r \<longrightarrow> has_tx ?s r))" by blast
  qed
  moreover have "wf_fixed ?s"
    using wf by (auto simp: db_wf_def wf_fixed_def event_cut_def cascade_receipts_def Let_def split: option.splits)
  ultimately show ?thesis by (simp add: db_wf_def)
qed

lemma event_cut_next_id [simp]: "queue_next_id (event_cut table chain from s) = queue_next_id s"
  by (auto simp: event_cut_def cascade_receipts_def Let_def split: option.splits)

lemma keeps_event_delete [intro]: "keeps db_wf (event_delete_from_height_tx table chain from)"
proof -
  have "keeps db_wf (event_delete_stmt table chain from)"
    unfolding keeps_def
  proof (intro allI impI)
    fix s r s' assume st: "event_delete_stmt table chain from s = (r, s')" and wf: "db_wf s"
    show "db_wf s' \<and> queue_next_id s \<le> queue_next_id s'"
    proof (cases "is_ok r")
      case True
      then obtain n where "r = Ok n" by (auto simp: is_ok_iff)
      with event_delete_stmt_OkD[of table chain "from" s n s'] st
      have "s' = (event_cut table chain from s)\<lparr>faults := tl (faults s)\<rparr>" by simp
      then show ?thesis
        using db_invariantD[OF db_wf_invariant db_wf_event_cut[OF wf, of table chain "from"], where t = s'] by simp
    next
      case False
      with st stmt_ErrD[of _ s r s'] have "s' = s\<lparr>faults := tl (faults s)\<rparr>"
        unfolding event_delete_stmt_def by blast
      then show ?thesis using db_invariantD[OF db_wf_invariant wf, where t = s'] by simp
    qed
  qed
  then show ?thesis unfolding event_delete_from_height_tx_def by (intro keeps_bind) auto
qed

section \<open>Lemmas: the raw store\<close>

text \<open>Records whose numbers survive the trip through \<open>bigint\<close> columns and whose selectors
  fit a frame.\<close>

definition record_ok :: "raw_record \<Rightarrow> bool" where
  "record_ok r \<longleftrightarrow> rr_chain_id r < 2 ^ 64 \<and> rr_height r < 2 ^ 63 \<and> rr_index r < 2 ^ 63
     \<and> rr_tx_index r < 2 ^ 64 \<and> (\<forall>i. rr_inner_index r = Some i \<longrightarrow> i < 2 ^ 64)
     \<and> (\<forall>s \<in> set (rr_selectors r). length s < 256)"

definition record_key :: "raw_record \<Rightarrow> nat \<times> nat \<times> nat" where
  "record_key r = (rr_chain_id r, rr_height r, rr_index r)"

lemma record_of_raw_row_of: "record_ok r \<Longrightarrow> rr_chain_id r = chain \<Longrightarrow> record_of_raw_row chain (raw_row_of r) = r"
proof -
  assume ok: "record_ok r" and c: "rr_chain_id r = chain"
  have "map_option as_u64 (map_option as_i64 (rr_inner_index r)) = rr_inner_index r"
    using ok by (cases "rr_inner_index r") (auto simp: record_ok_def as_u64_as_i64)
  moreover have "rr_height r < 2 ^ 64" "rr_index r < 2 ^ 64" using ok by (auto simp: record_ok_def)
  ultimately show ?thesis
    using ok c by (cases r) (simp add: record_of_raw_row_def raw_row_of_def as_u64_as_i64 unframe_frame record_ok_def)
qed

lemma raw_key_of: "record_ok r \<Longrightarrow> record_ok q \<Longrightarrow> raw_key (raw_row_of r) = raw_key (raw_row_of q) \<longleftrightarrow> record_key r = record_key q"
  by (auto simp: raw_key_def raw_row_of_def record_key_def record_ok_def as_i64_inj as_i64_small)

definition range_of :: "chain_id \<Rightarrow> height \<Rightarrow> height \<Rightarrow> db \<Rightarrow> raw_record list" where
  "range_of chain from to s = map (record_of_raw_row chain)
       (sort_key (\<lambda>r. (rw_height r, rw_idx r))
         (filter (\<lambda>r. rw_chain_id r = as_i64 chain \<and> in_range (as_i64 from) (as_i64 to) (rw_height r))
           (raw_records s)))"

lemma raw_range_of: "faults s = [] \<Longrightarrow> raw_range chain from to s = (Ok (range_of chain from to s), s)"
  by (simp add: raw_range_def db_result_def select_no_faults range_of_def)

lemma runs_raw_insert [intro]: "runs (raw_insert_batch_tx rs)"
proof -
  have "runs (raw_insert_stmt c)" for c
    by (auto simp: runs_def raw_insert_stmt_def dml_def stmt_no_faults split: prod.splits)
  then show ?thesis unfolding raw_insert_batch_tx_def by (intro runs_for_each runs_bind) auto
qed

lemma raw_insert_batch_effect:
  assumes "faults s = []"
  shows "\<exists>n. raw_insert_batch rs s = (Ok n, raw_put rs s)"
proof -
  obtain n s' where b: "raw_insert_batch_tx rs s = (Ok n, s')" "faults s' = []"
    using runsE[OF runs_raw_insert assms] by metis
  from raw_insert_batch_tx_Ok[OF b(1)] obtain fs where "s' = (raw_put rs s)\<lparr>faults := fs\<rparr>" by blast
  with b(2) assms have "s' = raw_put rs s" by (simp add: raw_put_def)
  with b assms show ?thesis using transaction_no_faults[of s "raw_insert_batch_tx rs" n s']
    by (auto simp: raw_insert_batch_def)
qed

lemma raw_put_rows:
  assumes "\<forall>r \<in> set rs. record_ok r" and "distinct (map record_key rs)"
  shows "raw_records (raw_put rs s) = raw_records s
     @ map raw_row_of (filter (\<lambda>r. raw_key (raw_row_of r) \<notin> raw_key ` set (raw_records s)) rs)"
proof -
  have "distinct (map raw_key (map raw_row_of rs))"
    using assms by (induction rs) (auto simp: image_iff raw_key_of)
  then show ?thesis by (simp add: raw_put_def insert_nothing_exact filter_map o_def)
qed

lemma raw_put_idem: "raw_put rs (raw_put rs s) = raw_put rs s"
proof -
  have "insert_nothing raw_key (map raw_row_of rs) (raw_records (raw_put rs s)) = (0, raw_records (raw_put rs s))"
    by (rule insert_nothing_present) (simp add: raw_put_def insert_nothing_snd_keys)
  then show ?thesis by (simp add: raw_put_def)
qed

lemma in_range_iff:
  "record_ok r \<Longrightarrow> from < 2 ^ 63 \<Longrightarrow> to < 2 ^ 63 \<Longrightarrow>
     in_range (as_i64 from) (as_i64 to) (as_i64 (rr_height r)) \<longleftrightarrow> from \<le> rr_height r \<and> rr_height r \<le> to"
  by (simp add: in_range_def record_ok_def as_i64_small)

definition raw_rows_ok :: "db \<Rightarrow> bool" where
  "raw_rows_ok s \<longleftrightarrow> (\<forall>q \<in> set (raw_records s). 0 \<le> rw_height q \<and> rw_height q < 2 ^ 63
     \<and> 0 \<le> rw_idx q \<and> rw_idx q < 2 ^ 63)"

lemma raw_rows_ok_put: "raw_rows_ok s \<Longrightarrow> \<forall>r \<in> set rs. record_ok r \<Longrightarrow> raw_rows_ok (raw_put rs s)"
  using insert_nothing_snd_subset[of "raw_records s" raw_key "map raw_row_of rs"]
  by (auto simp: raw_rows_ok_def raw_put_def raw_row_of_def record_ok_def as_i64_small dest!: subsetD)

lemma range_of_sorted:
  assumes "raw_rows_ok s"
  shows "sorted (map (\<lambda>r. (rr_height r, rr_index r)) (range_of chain from to s))"
proof -
  let ?rows = "sort_key (\<lambda>r. (rw_height r, rw_idx r))
         (filter (\<lambda>r. rw_chain_id r = as_i64 chain \<and> in_range (as_i64 from) (as_i64 to) (rw_height r)) (raw_records s))"
  have ok: "0 \<le> rw_height q \<and> rw_height q < 2 ^ 63 \<and> 0 \<le> rw_idx q \<and> rw_idx q < 2 ^ 63" if "q \<in> set ?rows" for q
    using assms that by (auto simp: raw_rows_ok_def)
  have conv: "as_u64 i = nat i" if "0 \<le> i" "i < 2 ^ 63" for i :: int
    using that by (simp add: as_u64_def)
  have "sorted_wrt (\<lambda>p q. (rw_height p, rw_idx p) \<le> (rw_height q, rw_idx q)) ?rows"
    using sorted_sort_key[of "\<lambda>r. (rw_height r, rw_idx r)"] by (simp add: sorted_map)
  then have "sorted_wrt (\<lambda>p q. (as_u64 (rw_height p), as_u64 (rw_idx p)) \<le> (as_u64 (rw_height q), as_u64 (rw_idx q))) ?rows"
    by (rule sorted_wrt_mono_rel[rotated]) (use ok conv in \<open>fastforce simp: less_eq_prod_def\<close>)
  then show ?thesis by (simp add: range_of_def sorted_map sorted_wrt_map record_of_raw_row_def)
qed

lemma range_of_put:
  assumes ok: "\<forall>r \<in> set rs. record_ok r" and "distinct (map record_key rs)"
    and "chain < 2 ^ 64" and "from < 2 ^ 63" and "to < 2 ^ 63"
  shows "set (range_of chain from to (raw_put rs s)) = set (range_of chain from to s) \<union>
     {r \<in> set rs. rr_chain_id r = chain \<and> from \<le> rr_height r \<and> rr_height r \<le> to
          \<and> raw_key (raw_row_of r) \<notin> raw_key ` set (raw_records s)}"
proof -
  have sel: "rw_chain_id (raw_row_of r) = as_i64 chain \<and> in_range (as_i64 from) (as_i64 to) (rw_height (raw_row_of r))
      \<longleftrightarrow> rr_chain_id r = chain \<and> from \<le> rr_height r \<and> rr_height r \<le> to" if "r \<in> set rs" for r
    using that ok assms(3-5) by (auto simp: raw_row_of_def in_range_iff as_i64_inj record_ok_def)
  have same: "record_of_raw_row chain (raw_row_of r) = r" if "r \<in> set rs" "rr_chain_id r = chain" for r
    using that ok record_of_raw_row_of by blast
  show ?thesis
    unfolding range_of_def raw_put_rows[OF ok assms(2)] using sel same
    by (auto simp: image_iff) force+
qed

section \<open>Properties\<close>

text \<open>
  C28. The raw store returns what was written. In a database without outside faults, writing a
  batch of records with distinct positions succeeds; a later range query returns, ordered by
  \<open>(height, index)\<close>, exactly the records it returned before plus the records of the batch
  that belong to the chain and the range and whose position was free (the first writer
  wins), each of them field by field; and writing the batch again changes nothing.
\<close>

theorem raw_store_returns_written:
  assumes "faults s = []" and "raw_rows_ok s"
    and "\<forall>r \<in> set recs. record_ok r" and "distinct (map record_key recs)"
    and "chain < 2 ^ 64" and "from < 2 ^ 63" and "to < 2 ^ 63"
  shows "\<exists>n m out0 out s1. raw_range chain from to s = (Ok out0, s)
     \<and> raw_insert_batch recs s = (Ok n, s1) \<and> raw_insert_batch recs s1 = (Ok m, s1)
     \<and> raw_range chain from to s1 = (Ok out, s1)
     \<and> set out = set out0 \<union> {r \<in> set recs. rr_chain_id r = chain \<and> from \<le> rr_height r \<and> rr_height r \<le> to
          \<and> raw_key (raw_row_of r) \<notin> raw_key ` set (raw_records s)}
     \<and> sorted (map (\<lambda>r. (rr_height r, rr_index r)) out)"
proof -
  let ?s1 = "raw_put recs s"
  obtain n where n: "raw_insert_batch recs s = (Ok n, ?s1)" using raw_insert_batch_effect[OF assms(1)] by blast
  have f1: "faults ?s1 = []" using assms(1) by (simp add: raw_put_def)
  obtain m where m: "raw_insert_batch recs ?s1 = (Ok m, ?s1)"
    using raw_insert_batch_effect[OF f1, of recs] raw_put_idem by metis
  have "set (range_of chain from to ?s1) = set (range_of chain from to s) \<union>
     {r \<in> set recs. rr_chain_id r = chain \<and> from \<le> rr_height r \<and> rr_height r \<le> to
          \<and> raw_key (raw_row_of r) \<notin> raw_key ` set (raw_records s)}"
    by (rule range_of_put) (use assms in auto)
  moreover have "sorted (map (\<lambda>r. (rr_height r, rr_index r)) (range_of chain from to ?s1))"
    by (rule range_of_sorted) (use assms raw_rows_ok_put in auto)
  ultimately show ?thesis using n m raw_range_of assms(1) f1 by blast
qed

definition demo_raw :: "nat \<Rightarrow> nat \<Rightarrow> raw_record" where
  "demo_raw h i = \<lparr>rr_chain_id = 1, rr_height = h, rr_block_hash = [], rr_index = i, rr_address = [],
     rr_selectors = [[1, 2]], rr_data = [], rr_tx_id = [], rr_tx_index = 0, rr_inner_index = None\<rparr>"

theorem raw_store_returns_written_witness:
  "\<exists>n out s1. raw_insert_batch [demo_raw 9 0, demo_raw 7 3] db_empty = (Ok n, s1)
     \<and> raw_range 1 5 9 s1 = (Ok out, s1) \<and> set out = {demo_raw 9 0, demo_raw 7 3}
     \<and> sorted (map (\<lambda>r. (rr_height r, rr_index r)) out)"
proof -
  have h: "faults db_empty = []" "raw_rows_ok db_empty" "\<forall>r \<in> set [demo_raw 9 0, demo_raw 7 3]. record_ok r"
    "distinct (map record_key [demo_raw 9 0, demo_raw 7 3])" "(1 :: nat) < 2 ^ 64" "(5 :: nat) < 2 ^ 63" "(9 :: nat) < 2 ^ 63"
    by (auto simp: db_empty_def raw_rows_ok_def record_ok_def record_key_def demo_raw_def)
  have "range_of 1 5 9 db_empty = []" by (simp add: range_of_def db_empty_def)
  moreover have "{r \<in> set [demo_raw 9 0, demo_raw 7 3]. rr_chain_id r = 1 \<and> 5 \<le> rr_height r \<and> rr_height r \<le> 9
          \<and> raw_key (raw_row_of r) \<notin> raw_key ` set (raw_records db_empty)} = {demo_raw 9 0, demo_raw 7 3}"
    by (auto simp: db_empty_def demo_raw_def)
  ultimately show ?thesis
    using raw_store_returns_written[OF h] raw_range_of[OF h(1), of 1 5 9] by fastforce
qed

text \<open>
  Selector framing: unframing inverts framing for selectors shorter than 256 bytes, so for
  every topic; and no multi-row insert exceeds the 65535 bind parameters of Postgres, with
  at least one row per statement.
\<close>

theorem selectors_and_chunks:
  "((\<forall>s \<in> set sels. length s < 256) \<longrightarrow> unframe_selectors (frame_selectors sels) = sels)
   \<and> (0 < cols \<and> cols \<le> 65535 \<longrightarrow> chunk_rows cols * cols \<le> 65535 \<and> 0 < chunk_rows cols)"
  using unframe_frame[of sels] chunk_rows_cap[of cols] chunk_rows_pos[of cols] by blast

theorem selectors_and_chunks_witness:
  "unframe_selectors (frame_selectors [[1, 2, 3], [], [4]]) = [[1, 2, 3], [], [4]]
   \<and> chunk_rows 10 * 10 \<le> 65535 \<and> 0 < chunk_rows 10"
  using selectors_and_chunks[of "[[1, 2, 3], [], [4]]" 10] by simp

end
