(* ===== verification/Schema_IR.thy ===== *)
theory Schema_IR
  imports Repositories
begin

text \<open>
  The typed-table schema: the logical columns of \<open>crates/schema\<close>, the builder from ABI
  events and functions of \<open>crates/abi-schema\<close>, and the mapping to Postgres types of
  \<open>crates/sql-pg\<close>. The ABI items are the data of \<open>alloy_json_abi\<close> that the builder
  reads; the keccak selector of an event is a parameter.
\<close>

section \<open>The schema\<close>

datatype column_type = CAddress | CUInt nat | CInt nat | CBool | CBytes | CUtf8 | CJson | CInt64 | CTimestamp

record column_def =
  cd_name :: string
  cd_ty :: column_type
  cd_indexed_hash :: bool

record event_schema =
  es_table :: string
  es_event :: string
  es_topic0 :: "string option"
  es_columns :: "column_def list"
  es_indexed_positions :: "nat list"
  es_pk_columns :: "string list"

definition event_pk :: "string list" where
  "event_pk = [''chain_id'', ''height'', ''idx'']"

section \<open>ABI items\<close>

record event_param =
  ep_name :: string
  ep_ty :: string
  ep_indexed :: bool

record abi_event =
  ev_name :: string
  ev_inputs :: "event_param list"

record fn_param =
  fp_name :: string
  fp_ty :: string

record abi_function =
  fn_name :: string
  fn_inputs :: "fn_param list"

section \<open>The builder\<close>

text \<open>\<open>str::parse::<u16>\<close>: an optional plus sign, at least one digit, in range.\<close>

definition parse_u16 :: "string \<Rightarrow> nat option" where
  "parse_u16 s = (let ds = (case s of c # cs \<Rightarrow> if c = CHR ''+'' then cs else s | [] \<Rightarrow> [])
     in if ds = [] then None
        else case parse_digits 0 ds of None \<Rightarrow> None | Some n \<Rightarrow> if n < 65536 then Some n else None)"

definition parse_bits :: "string \<Rightarrow> string \<Rightarrow> nat" where
  "parse_bits ty pre = (case strip_prefix pre ty of
     None \<Rightarrow> 256
   | Some n \<Rightarrow> (case parse_u16 n of None \<Rightarrow> 256 | Some b \<Rightarrow> b))"

definition col_name :: "nat \<Rightarrow> string \<Rightarrow> string" where
  "col_name i raw = (if raw = [] then ''arg'' @ show_nat i else to_snake_case raw)"

definition column_type_for :: "string \<Rightarrow> column_type" where
  "column_type_for ty =
     (if ends_with_char (CHR '']'') ty \<or> prefix ''('' ty \<or> ty = ''tuple'' then CJson
      else if ty = ''address'' then CAddress
      else if ty = ''bool'' then CBool
      else if ty = ''string'' then CUtf8
      else if ty = ''bytes'' then CBytes
      else if prefix ''bytes'' ty then CBytes
      else if prefix ''uint'' ty then CUInt (parse_bits ty ''uint'')
      else if prefix ''int'' ty then CInt (parse_bits ty ''int'')
      else CBytes)"

definition dynamic_type :: "string \<Rightarrow> bool" where
  "dynamic_type ty \<longleftrightarrow> ty = ''string'' \<or> ty = ''bytes'' \<or> ends_with_char (CHR '']'') ty"

definition event_column :: "nat \<Rightarrow> event_param \<Rightarrow> column_def" where
  "event_column i p =
     (let indexed_hash = ep_indexed p \<and> dynamic_type (ep_ty p);
          name = col_name i (ep_name p)
      in if indexed_hash then \<lparr>cd_name = name @ ''_hash'', cd_ty = CBytes, cd_indexed_hash = True\<rparr>
         else \<lparr>cd_name = name, cd_ty = column_type_for (ep_ty p), cd_indexed_hash = False\<rparr>)"

text \<open>The loop over \<open>event.inputs.iter().enumerate()\<close>, from index \<open>i\<close> on.\<close>

fun schema_loop :: "nat \<Rightarrow> event_param list \<Rightarrow> column_def list \<times> nat list" where
  "schema_loop i [] = ([], [])"
| "schema_loop i (p # ps) =
     (let (columns, indexed_positions) = schema_loop (Suc i) ps
      in (event_column i p # columns, if ep_indexed p then i # indexed_positions else indexed_positions))"

definition schema_for :: "(abi_event \<Rightarrow> bytes) \<Rightarrow> abi_event \<Rightarrow> string \<Rightarrow> event_schema" where
  "schema_for selector event table =
     (let (columns, indexed_positions) = schema_loop 0 (ev_inputs event)
      in \<lparr>es_table = table, es_event = ev_name event, es_topic0 = Some (''0x'' @ hex_encode (selector event)),
          es_columns = columns, es_indexed_positions = indexed_positions, es_pk_columns = event_pk\<rparr>)"

fun function_columns :: "nat \<Rightarrow> fn_param list \<Rightarrow> column_def list" where
  "function_columns i [] = []"
| "function_columns i (p # ps) =
     \<lparr>cd_name = col_name i (fp_name p), cd_ty = column_type_for (fp_ty p), cd_indexed_hash = False\<rparr>
     # function_columns (Suc i) ps"

definition schema_for_function :: "abi_function \<Rightarrow> string \<Rightarrow> event_schema" where
  "schema_for_function func table =
     \<lparr>es_table = table, es_event = fn_name func, es_topic0 = None,
      es_columns = function_columns 0 (fn_inputs func), es_indexed_positions = [],
      es_pk_columns = [''chain_id'', ''tx_id'']\<rparr>"

section \<open>Postgres types\<close>

fun pg_type :: "column_type \<Rightarrow> string" where
  "pg_type CAddress = ''bytea''"
| "pg_type CBytes = ''bytea''"
| "pg_type (CUInt _) = ''numeric(78,0)''"
| "pg_type (CInt _) = ''numeric(78,0)''"
| "pg_type CBool = ''boolean''"
| "pg_type CUtf8 = ''text''"
| "pg_type CJson = ''jsonb''"
| "pg_type CInt64 = ''bigint''"
| "pg_type CTimestamp = ''timestamptz''"

fun cast_suffix :: "column_type \<Rightarrow> string" where
  "cast_suffix (CUInt _) = ''::numeric''"
| "cast_suffix (CInt _) = ''::numeric''"
| "cast_suffix CTimestamp = ''::timestamptz''"
| "cast_suffix CJson = ''::jsonb''"
| "cast_suffix _ = ''''"

definition quoted :: "string \<Rightarrow> string" where
  "quoted name = [CHR 0x22] @ name @ [CHR 0x22]"

fun json_projection :: "string \<Rightarrow> string \<Rightarrow> column_type \<Rightarrow> string" where
  "json_projection alias name CAddress =
     [CHR 0x27] @ ''0x'' @ [CHR 0x27] @ '' || encode('' @ alias @ ''.'' @ quoted name @ '', '' @ [CHR 0x27] @ ''hex'' @ [CHR 0x27] @ '')''"
| "json_projection alias name CBytes =
     [CHR 0x27] @ ''0x'' @ [CHR 0x27] @ '' || encode('' @ alias @ ''.'' @ quoted name @ '', '' @ [CHR 0x27] @ ''hex'' @ [CHR 0x27] @ '')''"
| "json_projection alias name (CUInt _) = alias @ ''.'' @ quoted name @ ''::text''"
| "json_projection alias name (CInt _) = alias @ ''.'' @ quoted name @ ''::text''"
| "json_projection alias name _ = alias @ ''.'' @ quoted name"

text \<open>What the server makes of a type name of \<open>pg_type\<close>.\<close>

definition sql_type_named :: "string \<Rightarrow> sql_type option" where
  "sql_type_named n = map_of [(''bytea'', Bytea), (''numeric(78,0)'', Numeric), (''boolean'', Boolean),
     (''text'', Text), (''jsonb'', Jsonb), (''bigint'', Bigint), (''timestamptz'', Timestamptz)] n"

section \<open>Lemmas\<close>

fun column_sql_type :: "column_type \<Rightarrow> sql_type" where
  "column_sql_type CAddress = Bytea"
| "column_sql_type CBytes = Bytea"
| "column_sql_type (CUInt _) = Numeric"
| "column_sql_type (CInt _) = Numeric"
| "column_sql_type CBool = Boolean"
| "column_sql_type CUtf8 = Text"
| "column_sql_type CJson = Jsonb"
| "column_sql_type CInt64 = Bigint"
| "column_sql_type CTimestamp = Timestamptz"

lemma sql_type_of_pg_type [simp]: "sql_type_named (pg_type t) = Some (column_sql_type t)"
  by (cases t) (simp_all add: sql_type_named_def)

lemma schema_loop_length [simp]: "length (fst (schema_loop i ps)) = length ps"
  by (induction ps arbitrary: i) (auto simp: case_prod_beta Let_def)

lemma schema_loop_nth: "j < length ps \<Longrightarrow> fst (schema_loop i ps) ! j = event_column (i + j) (ps ! j)"
  by (induction ps arbitrary: i j) (auto simp: case_prod_beta Let_def nth_Cons split: nat.split)

lemma hex_decode_0x_encode: "hex_decode (''0x'' @ hex_encode bs) = Returns (Some bs)"
  unfolding hex_decode_0x by (simp add: hex_pairs_encode)

lemma schema_loop_positions: "snd (schema_loop i ps) = map (\<lambda>j. i + j) (filter (\<lambda>j. ep_indexed (ps ! j)) [0..<length ps])"
proof (induction ps arbitrary: i)
  case (Cons p ps)
  have "[0..<length (p # ps)] = 0 # map Suc [0..<length ps]" by (simp add: map_Suc_upt upt_conv_Cons del: upt_Suc)
  then show ?case using Cons[of "Suc i"] by (simp add: case_prod_beta Let_def filter_map comp_def)
qed simp

lemma schema_for_fields [simp]:
  "es_table (schema_for sel e t) = t" "es_event (schema_for sel e t) = ev_name e"
  "es_columns (schema_for sel e t) = fst (schema_loop 0 (ev_inputs e))"
  "es_indexed_positions (schema_for sel e t) = snd (schema_loop 0 (ev_inputs e))"
  "es_pk_columns (schema_for sel e t) = event_pk" "es_topic0 (schema_for sel e t) = Some (''0x'' @ hex_encode (sel e))"
  by (simp_all add: schema_for_def case_prod_beta Let_def)

lemma function_columns_length [simp]: "length (function_columns i ps) = length ps"
  by (induction ps arbitrary: i) auto

lemma function_columns_nth: "j < length ps \<Longrightarrow> function_columns i ps ! j =
    \<lparr>cd_name = col_name (i + j) (fp_name (ps ! j)), cd_ty = column_type_for (fp_ty (ps ! j)), cd_indexed_hash = False\<rparr>"
  by (induction ps arbitrary: i j) (auto simp: nth_Cons split: nat.split)

section \<open>Properties\<close>

text \<open>
  The schema of an event mirrors its inputs: there is one column per input, in order; the
  indexed positions are exactly the positions of the indexed inputs, in increasing order, so
  every one of them names a column; the columns stored as hashes are exactly the indexed
  inputs of a dynamic type, and they are byte columns; and the recorded selector reads back
  as the event's selector.
\<close>

theorem schema_for_mirrors_inputs:
  "map cd_indexed_hash (es_columns (schema_for sel e t)) = map (\<lambda>p. ep_indexed p \<and> dynamic_type (ep_ty p)) (ev_inputs e)
   \<and> map cd_ty (es_columns (schema_for sel e t))
       = map (\<lambda>p. if ep_indexed p \<and> dynamic_type (ep_ty p) then CBytes else column_type_for (ep_ty p)) (ev_inputs e)
   \<and> es_indexed_positions (schema_for sel e t) = filter (\<lambda>j. ep_indexed (ev_inputs e ! j)) [0..<length (ev_inputs e)]
   \<and> map_option hex_decode (es_topic0 (schema_for sel e t)) = Some (Returns (Some (sel e)))"
  by (intro conjI; (intro nth_equalityI)?)
    (auto simp: schema_loop_nth event_column_def Let_def schema_loop_positions
      hex_decode_0x_encode[simplified])

end
