(* ===== verification/Abi_Index.thy ===== *)
theory Abi_Index
  imports Schema_IR "HOL-Library.AList"
begin

text \<open>
  \<open>crates/abi\<close>: the index from event selectors and call selectors to schemas, and the
  decoding of raw records and calldata into rows. The ABI library (\<open>alloy_json_abi\<close>,
  \<open>alloy_dyn_abi\<close>) and the JSON printer (\<open>serde_json\<close>) are the parameter
  \<open>abi_lib\<close>; their value types are the datatypes \<open>dyn_value\<close> and \<open>json\<close>.
\<close>

section \<open>Values of the ABI library\<close>

datatype dyn_value =
    DvAddress bytes | DvBool bool | DvUint nat nat | DvInt int nat | DvBytes bytes
  | DvFixedBytes bytes nat | DvString string
  | DvArray "dyn_value list" | DvFixedArray "dyn_value list" | DvTuple "dyn_value list" | DvFunction bytes

datatype json = JNull | JBool bool | JString string | JArray "json list"

text \<open>The events and functions of a parsed ABI, in the order its iterators yield them.\<close>

record json_abi =
  ja_events :: "abi_event list"
  ja_functions :: "abi_function list"

record abi_lib =
  al_parse :: "string \<Rightarrow> string + json_abi"
  al_event_selector :: "abi_event \<Rightarrow> bytes"
  al_function_selector :: "abi_function \<Rightarrow> bytes"
  al_decode_log_parts :: "abi_event \<Rightarrow> bytes list \<Rightarrow> bytes \<Rightarrow> string + (dyn_value list \<times> dyn_value list)"
  al_abi_decode_input :: "abi_function \<Rightarrow> bytes \<Rightarrow> string + dyn_value list"
  al_json_text :: "json \<Rightarrow> string"

section \<open>Errors\<close>

datatype decode_error = AbiError string | DecodeFailed string

fun decode_error_string :: "decode_error \<Rightarrow> string" where
  "decode_error_string (AbiError e) = ''abi error: '' @ e"
| "decode_error_string (DecodeFailed e) = ''decode failed: '' @ e"

definition decode_error_to_domain :: "decode_error \<Rightarrow> domain_error" where
  "decode_error_to_domain e = Decode (decode_error_string e)"

section \<open>Values\<close>

text \<open>\<open>w[..n]\<close>, which panics beyond the end.\<close>

definition slice_to :: "bytes \<Rightarrow> nat \<Rightarrow> (decode_error, bytes) res" where
  "slice_to w n = (if n \<le> length w then Ok (take n w) else Panic)"

fun to_json :: "dyn_value \<Rightarrow> (decode_error, json) res"
and to_json_list :: "dyn_value list \<Rightarrow> (decode_error, json list) res" where
  "to_json (DvAddress a) = Ok (JString (''0x'' @ hex_encode a))"
| "to_json (DvBool b) = Ok (JBool b)"
| "to_json (DvUint u _) = Ok (JString (show_nat u))"
| "to_json (DvInt i _) = Ok (JString (show_int i))"
| "to_json (DvBytes b) = Ok (JString (''0x'' @ hex_encode b))"
| "to_json (DvFixedBytes w n) = map_ok (\<lambda>b. JString (''0x'' @ hex_encode b)) (slice_to w n)"
| "to_json (DvString s) = Ok (JString s)"
| "to_json (DvArray xs) = map_ok JArray (to_json_list xs)"
| "to_json (DvFixedArray xs) = map_ok JArray (to_json_list xs)"
| "to_json (DvTuple xs) = map_ok JArray (to_json_list xs)"
| "to_json (DvFunction _) = Ok JNull"
| "to_json_list [] = Ok []"
| "to_json_list (x # xs) = and_then (to_json x) (\<lambda>j. map_ok (\<lambda>js. j # js) (to_json_list xs))"

fun to_value :: "abi_lib \<Rightarrow> dyn_value \<Rightarrow> (decode_error, event_value) res" where
  "to_value lib (DvAddress a) = Ok (EvAddress a)"
| "to_value lib (DvBool b) = Ok (EvBool b)"
| "to_value lib (DvUint u _) = Ok (EvUint (show_nat u))"
| "to_value lib (DvInt i _) = Ok (EvInt (show_int i))"
| "to_value lib (DvBytes b) = Ok (EvBytes b)"
| "to_value lib (DvFixedBytes w n) = map_ok EvBytes (slice_to w n)"
| "to_value lib (DvString s) = Ok (EvString s)"
| "to_value lib other = map_ok (\<lambda>j. EvJson (al_json_text lib j)) (to_json other)"

fun to_hash :: "dyn_value \<Rightarrow> bytes" where
  "to_hash (DvFixedBytes w _) = w"
| "to_hash _ = []"

definition topic0_hash :: "string \<Rightarrow> hash option outcome" where
  "topic0_hash topic0_hex = hex_decode topic0_hex"

section \<open>Decoding one item\<close>

text \<open>The loop over the inputs of an event, from index \<open>i\<close> on, with what is left of the
  two iterators over the decoded values.\<close>

fun event_fields :: "abi_lib \<Rightarrow> column_def list \<Rightarrow> nat \<Rightarrow> event_param list \<Rightarrow> dyn_value list \<Rightarrow> dyn_value list
    \<Rightarrow> (decode_error, (string \<times> event_value) list) res" where
  "event_fields lib cols i [] indexed body = Ok []"
| "event_fields lib cols i (input # inputs) indexed body =
     (if length cols \<le> i then Panic
      else if ep_indexed input then
        (case indexed of
           [] \<Rightarrow> Err (DecodeFailed ''missing indexed value'')
         | v # indexed' \<Rightarrow> and_then (if cd_indexed_hash (cols ! i) then Ok (EvHash (to_hash v)) else to_value lib v)
             (\<lambda>value. map_ok ((#) (cd_name (cols ! i), value)) (event_fields lib cols (Suc i) inputs indexed' body)))
      else
        (case body of
           [] \<Rightarrow> Err (DecodeFailed ''missing body value'')
         | v # body' \<Rightarrow> and_then (to_value lib v)
             (\<lambda>value. map_ok ((#) (cd_name (cols ! i), value)) (event_fields lib cols (Suc i) inputs indexed body'))))"

definition decode_event :: "abi_lib \<Rightarrow> abi_event \<Rightarrow> event_schema \<Rightarrow> raw_record \<Rightarrow> (decode_error, decoded_event) res" where
  "decode_event lib event schema raw =
     (if \<not> list_all (\<lambda>h. length h = 32) (rr_selectors raw) then Panic
      else case al_decode_log_parts lib event (rr_selectors raw) (rr_data raw) of
        Inl e \<Rightarrow> Err (DecodeFailed e)
      | Inr (indexed, body) \<Rightarrow> map_ok (\<lambda>fields. \<lparr>de_table = es_table schema, de_fields = fields\<rparr>)
          (event_fields lib (es_columns schema) 0 (ev_inputs event) indexed body))"

fun call_fields :: "abi_lib \<Rightarrow> column_def list \<Rightarrow> nat \<Rightarrow> dyn_value list
    \<Rightarrow> (decode_error, (string \<times> event_value) list) res" where
  "call_fields lib cols i [] = Ok []"
| "call_fields lib cols i (v # vs) =
     (if length cols \<le> i then Panic
      else and_then (to_value lib v)
        (\<lambda>value. map_ok ((#) (cd_name (cols ! i), value)) (call_fields lib cols (Suc i) vs)))"

definition decode_call_input :: "abi_lib \<Rightarrow> abi_function \<Rightarrow> event_schema \<Rightarrow> bytes \<Rightarrow> (decode_error, decoded_event) res" where
  "decode_call_input lib func schema input =
     (if length input < 4 then Panic
      else case al_abi_decode_input lib func (drop 4 input) of
        Inl e \<Rightarrow> Err (DecodeFailed e)
      | Inr vs \<Rightarrow> map_ok (\<lambda>fields. \<lparr>de_table = es_table schema, de_fields = fields\<rparr>)
          (call_fields lib (es_columns schema) 0 vs))"

section \<open>The index\<close>

record abi_entry =
  ae_event :: abi_event
  ae_schema :: event_schema

record call_entry =
  ce_function :: abi_function
  ce_schema :: event_schema

text \<open>The two \<open>HashMap\<close>s as association lists with distinct keys; the order of an iteration
  over them is the parameter \<open>abi_iter\<close>.\<close>

record abi_index =
  by_topic0 :: "(bytes \<times> abi_entry) list"
  by_call :: "((bytes \<times> bytes) \<times> call_entry) list"

record abi_iter =
  it_topic0 :: "(bytes \<times> abi_entry) list \<Rightarrow> (bytes \<times> abi_entry) list"
  it_call :: "((bytes \<times> bytes) \<times> call_entry) list \<Rightarrow> ((bytes \<times> bytes) \<times> call_entry) list"

record contract_spec =
  sp_abi_json :: string
  sp_events :: "string list"
  sp_functions :: "string list"
  sp_address :: address_bytes
  sp_table_prefix :: string
  sp_table_override :: "string option"

definition event_table :: "contract_spec \<Rightarrow> abi_event \<Rightarrow> string" where
  "event_table spec event = (case sp_table_override spec of
     Some t \<Rightarrow> t
   | None \<Rightarrow> ''evt_'' @ sp_table_prefix spec @ ''_'' @ map to_ascii_lowercase (ev_name event))"

definition add_event :: "abi_lib \<Rightarrow> contract_spec \<Rightarrow> abi_event \<Rightarrow> abi_index \<Rightarrow> abi_index" where
  "add_event lib spec event idx =
     (if sp_events spec \<noteq> [] \<and> ev_name event \<notin> set (sp_events spec) then idx
      else idx\<lparr>by_topic0 := AList.update (al_event_selector lib event)
        \<lparr>ae_event = event, ae_schema = schema_for (al_event_selector lib) event (event_table spec event)\<rparr> (by_topic0 idx)\<rparr>)"

definition call_table :: "contract_spec \<Rightarrow> abi_function \<Rightarrow> string" where
  "call_table spec func = ''call_'' @ sp_table_prefix spec @ ''_'' @ map to_ascii_lowercase (fn_name func)"

definition add_function :: "abi_lib \<Rightarrow> contract_spec \<Rightarrow> abi_function \<Rightarrow> abi_index \<Rightarrow> abi_index" where
  "add_function lib spec func idx =
     (if fn_name func \<notin> set (sp_functions spec) then idx
      else idx\<lparr>by_call := AList.update (sp_address spec, al_function_selector lib func)
        \<lparr>ce_function = func, ce_schema = schema_for_function func (call_table spec func)\<rparr> (by_call idx)\<rparr>)"

fun build_loop :: "abi_lib \<Rightarrow> contract_spec list \<Rightarrow> abi_index \<Rightarrow> (decode_error, abi_index) res" where
  "build_loop lib [] idx = Ok idx"
| "build_loop lib (spec # specs) idx = (case al_parse lib (sp_abi_json spec) of
     Inl e \<Rightarrow> Err (AbiError (''parse abi: '' @ e))
   | Inr abi \<Rightarrow> build_loop lib specs
       (fold (add_function lib spec) (ja_functions abi) (fold (add_event lib spec) (ja_events abi) idx)))"

definition abi_build :: "abi_lib \<Rightarrow> contract_spec list \<Rightarrow> (decode_error, abi_index) res" where
  "abi_build lib specs = build_loop lib specs \<lparr>by_topic0 = [], by_call = []\<rparr>"

definition abi_schemas :: "abi_iter \<Rightarrow> abi_index \<Rightarrow> event_schema list" where
  "abi_schemas it idx = map (ae_schema \<circ> snd) (it_topic0 it (by_topic0 idx))"

definition call_schemas :: "abi_iter \<Rightarrow> abi_index \<Rightarrow> event_schema list" where
  "call_schemas it idx = map (ce_schema \<circ> snd) (it_call it (by_call idx))"

definition call_is_empty :: "abi_index \<Rightarrow> bool" where
  "call_is_empty idx \<longleftrightarrow> by_call idx = []"

definition topic0s :: "abi_iter \<Rightarrow> abi_index \<Rightarrow> hash list" where
  "topic0s it idx = map fst (it_topic0 it (by_topic0 idx))"

definition abi_is_empty :: "abi_index \<Rightarrow> bool" where
  "abi_is_empty idx \<longleftrightarrow> by_topic0 idx = []"

definition abi_decode_call :: "abi_lib \<Rightarrow> abi_index \<Rightarrow> tx_calldata \<Rightarrow> (decode_error, event_row option) res" where
  "abi_decode_call lib idx tx =
     (if length (tc_input tx) < 4 then Ok None
      else case map_of (by_call idx) (tc_to_addr tx, take 4 (tc_input tx)) of
        None \<Rightarrow> Ok None
      | Some entry \<Rightarrow> map_ok (\<lambda>event. Some \<lparr>er_chain_id = tc_chain_id tx, er_height = tc_height tx,
            er_block_hash = tc_block_hash tx, er_block_time = None, er_tx_id = tc_tx_id tx,
            er_index = tc_tx_index tx, er_event = event\<rparr>)
          (decode_call_input lib (ce_function entry) (ce_schema entry) (tc_input tx)))"

definition abi_decode :: "abi_lib \<Rightarrow> abi_index \<Rightarrow> raw_record \<Rightarrow> (decode_error, event_row option) res" where
  "abi_decode lib idx raw = (case rr_selectors raw of
     [] \<Rightarrow> Ok None
   | sel0 # _ \<Rightarrow>
     (if length sel0 \<noteq> 32 then Ok None
      else case map_of (by_topic0 idx) sel0 of
        None \<Rightarrow> Ok None
      | Some entry \<Rightarrow> map_ok (\<lambda>event. Some \<lparr>er_chain_id = rr_chain_id raw, er_height = rr_height raw,
            er_block_hash = rr_block_hash raw, er_block_time = None, er_tx_id = rr_tx_id raw,
            er_index = rr_index raw, er_event = event\<rparr>)
          (decode_event lib (ae_event entry) (ae_schema entry) raw)))"

section \<open>What the ABI library promises\<close>

text \<open>A decoded value has the type its parameter declares; words are 32 bytes, and an indexed
  parameter of a type that does not fit a topic comes back as the 32-byte hash.\<close>

definition sol_typed :: "string \<Rightarrow> dyn_value \<Rightarrow> bool" where
  "sol_typed ty v \<longleftrightarrow>
     (if ends_with_char (CHR '']'') ty then \<exists>xs. v = DvArray xs \<or> v = DvFixedArray xs
      else if prefix ''('' ty \<or> ty = ''tuple'' then \<exists>xs. v = DvTuple xs
      else if ty = ''address'' then \<exists>a. v = DvAddress a
      else if ty = ''bool'' then \<exists>b. v = DvBool b
      else if ty = ''string'' then \<exists>s. v = DvString s
      else if ty = ''bytes'' then \<exists>b. v = DvBytes b
      else if prefix ''bytes'' ty then \<exists>w n. v = DvFixedBytes w n
      else if prefix ''uint'' ty then \<exists>u n. v = DvUint u n
      else if prefix ''int'' ty then \<exists>i n. v = DvInt i n
      else ty = ''function'' \<and> (\<exists>b. v = DvFunction b))"

definition topic_typed :: "string \<Rightarrow> dyn_value \<Rightarrow> bool" where
  "topic_typed ty v \<longleftrightarrow> (if dynamic_type ty \<or> prefix ''('' ty \<or> ty = ''tuple'' then \<exists>w. v = DvFixedBytes w 32
     else sol_typed ty v)"

fun words_ok :: "dyn_value \<Rightarrow> bool" where
  "words_ok (DvFixedBytes w n) = (length w = 32 \<and> n \<le> 32)"
| "words_ok (DvArray xs) = list_all words_ok xs"
| "words_ok (DvFixedArray xs) = list_all words_ok xs"
| "words_ok (DvTuple xs) = list_all words_ok xs"
| "words_ok _ = True"

definition decodes_typed :: "abi_lib \<Rightarrow> bool" where
  "decodes_typed lib \<longleftrightarrow>
     (\<forall>e ts d indexed body. al_decode_log_parts lib e ts d = Inr (indexed, body) \<longrightarrow>
        list_all2 (\<lambda>p v. words_ok v \<and> topic_typed (ep_ty p) v) (filter ep_indexed (ev_inputs e)) indexed
      \<and> list_all2 (\<lambda>p v. words_ok v \<and> sol_typed (ep_ty p) v) (filter (\<lambda>p. \<not> ep_indexed p) (ev_inputs e)) body)
   \<and> (\<forall>f b vs. al_abi_decode_input lib f b = Inr vs \<longrightarrow>
        list_all2 (\<lambda>p v. words_ok v \<and> sol_typed (fp_ty p) v) (fn_inputs f) vs)"

text \<open>Parameters whose column accepts what they decode to.\<close>

definition storable :: "event_param \<Rightarrow> bool" where
  "storable p \<longleftrightarrow> ep_ty p \<noteq> ''function'' \<and> (ep_indexed p \<longrightarrow> ep_ty p \<noteq> ''tuple'' \<and> \<not> prefix ''('' (ep_ty p))"

section \<open>Lemmas\<close>

lemma to_json_ok: "words_ok v \<Longrightarrow> \<exists>j. to_json v = Ok j" "list_all words_ok vs \<Longrightarrow> \<exists>js. to_json_list vs = Ok js"
  by (induction v and vs rule: to_json_to_json_list.induct) (auto simp: slice_to_def)

lemma to_value_ok: "words_ok v \<Longrightarrow> \<exists>x. to_value lib v = Ok x"
  using to_json_ok(1)[of v] by (cases v) (auto simp: slice_to_def)

fun dyn_sql_type :: "dyn_value \<Rightarrow> sql_type" where
  "dyn_sql_type (DvAddress _) = Bytea"
| "dyn_sql_type (DvBool _) = Boolean"
| "dyn_sql_type (DvUint _ _) = Numeric"
| "dyn_sql_type (DvInt _ _) = Numeric"
| "dyn_sql_type (DvBytes _) = Bytea"
| "dyn_sql_type (DvFixedBytes _ _) = Bytea"
| "dyn_sql_type (DvString _) = Text"
| "dyn_sql_type _ = Jsonb"

declare map_ok_Ok [simp]

lemma to_value_bound: "to_value lib v = Ok x \<Longrightarrow> bound_type x = dyn_sql_type v"
  by (cases v) auto

lemma sol_typed_sql:
  assumes "sol_typed ty v" and "ty \<noteq> ''function''"
  shows "column_sql_type (column_type_for ty) = dyn_sql_type v"
proof -
  have branches: "column_sql_type (if a \<or> b \<or> c then CJson else if d then CAddress else if e then CBool else if f then CUtf8
      else if g then CBytes else if h then CBytes else if i then CUInt x else if j then CInt y else CBytes) = dyn_sql_type v"
    if "if a then \<exists>xs. v = DvArray xs \<or> v = DvFixedArray xs else if b \<or> c then \<exists>xs. v = DvTuple xs
      else if d then \<exists>a. v = DvAddress a else if e then \<exists>b. v = DvBool b else if f then \<exists>s. v = DvString s
      else if g then \<exists>b. v = DvBytes b else if h then \<exists>w n. v = DvFixedBytes w n else if i then \<exists>u n. v = DvUint u n
      else if j then \<exists>i n. v = DvInt i n else k \<and> (\<exists>b. v = DvFunction b)" and "\<not> k"
    for a b c d e f g h i j k x y
    using that by (auto split: if_splits)
  show ?thesis
    using assms unfolding sol_typed_def column_type_for_def by (rule branches)
qed

lemma assignableI: "bound_type x = ty \<Longrightarrow> assignable ty x"
  by (simp add: assignable_def)

lemma to_value_typed:
  "sol_typed ty v \<Longrightarrow> ty \<noteq> ''function'' \<Longrightarrow> to_value lib v = Ok x \<Longrightarrow> assignable (column_sql_type (column_type_for ty)) x"
  by (rule assignableI) (metis to_value_bound sol_typed_sql)

definition fits :: "string \<times> event_value \<Rightarrow> column_def \<Rightarrow> bool" where
  "fits f c \<longleftrightarrow> fst f = cd_name c \<and> assignable (column_sql_type (cd_ty c)) (snd f)"

lemma topic_fits:
  assumes "topic_typed (ep_ty p) v" and "words_ok v" and "ep_indexed p" and "storable p"
  shows "\<exists>x. (if cd_indexed_hash (event_column k p) then Ok (EvHash (to_hash v)) else to_value lib v) = Ok x
     \<and> fits (cd_name (event_column k p), x) (event_column k p)"
proof (cases "dynamic_type (ep_ty p)")
  case True
  with assms(3) show ?thesis by (simp add: event_column_def fits_def assignable_def)
next
  case False
  with assms have "sol_typed (ep_ty p) v" "ep_ty p \<noteq> ''function''" by (auto simp: topic_typed_def storable_def)
  moreover obtain x where "to_value lib v = Ok x" using to_value_ok[OF assms(2)] by blast
  ultimately show ?thesis using False assms(3) to_value_typed by (simp add: event_column_def fits_def)
qed

lemma body_fits:
  assumes "sol_typed (ep_ty p) v" and "words_ok v" and "\<not> ep_indexed p" and "storable p"
  shows "\<exists>x. to_value lib v = Ok x \<and> fits (cd_name (event_column k p), x) (event_column k p)"
proof -
  obtain x where "to_value lib v = Ok x" using to_value_ok[OF assms(2)] by blast
  with assms to_value_typed show ?thesis by (auto simp: event_column_def fits_def storable_def)
qed

lemma event_fields_fit:
  assumes "list_all storable ps"
    and "list_all2 (\<lambda>p v. words_ok v \<and> topic_typed (ep_ty p) v) (filter ep_indexed ps) indexed"
    and "list_all2 (\<lambda>p v. words_ok v \<and> sol_typed (ep_ty p) v) (filter (\<lambda>p. \<not> ep_indexed p) ps) body"
    and "list_all2 (\<lambda>p c. \<exists>k. c = event_column k p) ps cs"
  shows "\<exists>fields. event_fields lib (pre @ cs) (length pre) ps indexed body = Ok fields \<and> list_all2 fits fields cs"
  using assms
proof (induction ps arbitrary: pre cs indexed body)
  case (Cons p ps)
  then obtain k cs' where cs: "cs = event_column k p # cs'" "list_all2 (\<lambda>p c. \<exists>k. c = event_column k p) ps cs'"
    by (auto simp: list_all2_Cons1)
  have pre: "pre @ cs = (pre @ [event_column k p]) @ cs'" "Suc (length pre) = length (pre @ [event_column k p])"
    by (simp_all add: cs)
  have at: "(pre @ cs) ! length pre = event_column k p" "\<not> length (pre @ cs) \<le> length pre" by (simp_all add: cs)
  show ?case
  proof (cases "ep_indexed p")
    case True
    with Cons.prems obtain v indexed' where v: "indexed = v # indexed'" "words_ok v" "topic_typed (ep_ty p) v"
      "list_all2 (\<lambda>p v. words_ok v \<and> topic_typed (ep_ty p) v) (filter ep_indexed ps) indexed'"
      by (auto simp: list_all2_Cons1)
    have "list_all storable ps" "list_all2 (\<lambda>p v. words_ok v \<and> sol_typed (ep_ty p) v) (filter (\<lambda>p. \<not> ep_indexed p) ps) body"
      using Cons.prems True by auto
    from Cons.IH[OF this(1) v(4) this(2) cs(2), of "pre @ [event_column k p]"] obtain fields where
      f: "event_fields lib (pre @ cs) (Suc (length pre)) ps indexed' body = Ok fields" "list_all2 fits fields cs'"
      unfolding pre by blast
    obtain x where "(if cd_indexed_hash (event_column k p) then Ok (EvHash (to_hash v)) else to_value lib v) = Ok x"
      "fits (cd_name (event_column k p), x) (event_column k p)"
      using topic_fits[OF v(3) v(2) True] Cons.prems(1) by fastforce
    with f True at v(1) show ?thesis by (simp add: cs(1))
  next
    case False
    with Cons.prems obtain v body' where v: "body = v # body'" "words_ok v" "sol_typed (ep_ty p) v"
      "list_all2 (\<lambda>p v. words_ok v \<and> sol_typed (ep_ty p) v) (filter (\<lambda>p. \<not> ep_indexed p) ps) body'"
      by (auto simp: list_all2_Cons1)
    have "list_all storable ps" "list_all2 (\<lambda>p v. words_ok v \<and> topic_typed (ep_ty p) v) (filter ep_indexed ps) indexed"
      using Cons.prems False by auto
    from Cons.IH[OF this v(4) cs(2), of "pre @ [event_column k p]"] obtain fields where
      f: "event_fields lib (pre @ cs) (Suc (length pre)) ps indexed body' = Ok fields" "list_all2 fits fields cs'"
      unfolding pre by blast
    obtain x where "to_value lib v = Ok x" "fits (cd_name (event_column k p), x) (event_column k p)"
      using body_fits[OF v(3) v(2) False] Cons.prems(1) by fastforce
    with f False at v(1) show ?thesis by (simp add: cs(1))
  qed
qed simp

lemma schema_columns_from_inputs: "list_all2 (\<lambda>p c. \<exists>k. c = event_column k p) ps (fst (schema_loop i ps))"
  by (auto simp: list_all2_conv_all_nth schema_loop_nth)

lemma call_fields_fit:
  assumes "list_all (\<lambda>p. fp_ty p \<noteq> ''function'') ps"
    and "list_all2 (\<lambda>p v. words_ok v \<and> sol_typed (fp_ty p) v) ps vs"
  shows "\<exists>fields. call_fields lib (pre @ function_columns (length pre) ps) (length pre) vs = Ok fields
     \<and> list_all2 fits fields (function_columns (length pre) ps)"
  using assms
proof (induction ps arbitrary: pre vs)
  case (Cons p ps)
  then obtain v vs' where v: "vs = v # vs'" "words_ok v" "sol_typed (fp_ty p) v"
    "list_all2 (\<lambda>p v. words_ok v \<and> sol_typed (fp_ty p) v) ps vs'" by (auto simp: list_all2_Cons1)
  let ?c = "\<lparr>cd_name = col_name (length pre) (fp_name p), cd_ty = column_type_for (fp_ty p), cd_indexed_hash = False\<rparr>"
  obtain x where x: "to_value lib v = Ok x" using to_value_ok[OF v(2)] by blast
  then have "fits (cd_name ?c, x) ?c" using to_value_typed[OF v(3)] Cons.prems(1) by (simp add: fits_def)
  moreover have "\<exists>fields. call_fields lib (pre @ ?c # function_columns (Suc (length pre)) ps) (Suc (length pre)) vs' = Ok fields
     \<and> list_all2 fits fields (function_columns (Suc (length pre)) ps)"
    using Cons.IH[of vs' "pre @ [?c]"] v(4) Cons.prems(1) by simp
  ultimately show ?case using x by (auto simp: v(1))
qed simp

section \<open>The configured events and calls\<close>

definition event_entry :: "abi_lib \<Rightarrow> contract_spec \<Rightarrow> abi_event \<Rightarrow> bytes \<times> abi_entry" where
  "event_entry lib spec e = (al_event_selector lib e,
     \<lparr>ae_event = e, ae_schema = schema_for (al_event_selector lib) e (event_table spec e)\<rparr>)"

definition function_entry :: "abi_lib \<Rightarrow> contract_spec \<Rightarrow> abi_function \<Rightarrow> (bytes \<times> bytes) \<times> call_entry" where
  "function_entry lib spec f = ((sp_address spec, al_function_selector lib f),
     \<lparr>ce_function = f, ce_schema = schema_for_function f (call_table spec f)\<rparr>)"

definition spec_events :: "abi_lib \<Rightarrow> contract_spec \<Rightarrow> (bytes \<times> abi_entry) list" where
  "spec_events lib spec = (case al_parse lib (sp_abi_json spec) of Inl _ \<Rightarrow> []
     | Inr abi \<Rightarrow> map (event_entry lib spec)
         (filter (\<lambda>e. sp_events spec = [] \<or> ev_name e \<in> set (sp_events spec)) (ja_events abi)))"

definition spec_calls :: "abi_lib \<Rightarrow> contract_spec \<Rightarrow> ((bytes \<times> bytes) \<times> call_entry) list" where
  "spec_calls lib spec = (case al_parse lib (sp_abi_json spec) of Inl _ \<Rightarrow> []
     | Inr abi \<Rightarrow> map (function_entry lib spec)
         (filter (\<lambda>f. fn_name f \<in> set (sp_functions spec)) (ja_functions abi)))"

definition configured_events :: "abi_lib \<Rightarrow> contract_spec list \<Rightarrow> (bytes \<times> abi_entry) list" where
  "configured_events lib specs = concat (map (spec_events lib) specs)"

definition configured_calls :: "abi_lib \<Rightarrow> contract_spec list \<Rightarrow> ((bytes \<times> bytes) \<times> call_entry) list" where
  "configured_calls lib specs = concat (map (spec_calls lib) specs)"

text \<open>Inserting a list of entries into a hash map: the last entry of a key wins.\<close>

definition insert_all :: "('k \<times> 'v) list \<Rightarrow> ('k \<times> 'v) list \<Rightarrow> ('k \<times> 'v) list" where
  "insert_all kvs al = fold (\<lambda>(k, v). AList.update k v) kvs al"

lemma insert_all_append: "insert_all (xs @ ys) al = insert_all ys (insert_all xs al)"
  by (simp add: insert_all_def)

lemma map_of_insert_all: "map_of (insert_all kvs al) = map_of al ++ map_of (rev kvs)"
proof (induction kvs arbitrary: al)
  case (Cons kv kvs)
  obtain k v where kv: "kv = (k, v)" by (cases kv)
  have "map_of (insert_all (kv # kvs) al) = map_of (AList.update k v al) ++ map_of (rev kvs)"
    using Cons[of "AList.update k v al"] by (simp add: insert_all_def kv)
  also have "map_of (AList.update k v al) = (map_of al)(k \<mapsto> v)" by (auto simp: update_conv)
  finally show ?case by (simp add: kv map_add_upd_left map_add_assoc[symmetric] fun_eq_iff map_add_def split: option.split)
qed (simp add: insert_all_def)

lemma distinct_insert_all: "distinct (map fst al) \<Longrightarrow> distinct (map fst (insert_all kvs al))"
  by (induction kvs arbitrary: al) (auto simp: insert_all_def distinct_update)

lemma add_events: "fold (add_event lib spec) es idx
   = idx\<lparr>by_topic0 := insert_all (map (event_entry lib spec)
       (filter (\<lambda>e. sp_events spec = [] \<or> ev_name e \<in> set (sp_events spec)) es)) (by_topic0 idx)\<rparr>"
  by (induction es arbitrary: idx) (auto simp: insert_all_def add_event_def event_entry_def)

lemma add_functions: "fold (add_function lib spec) fs idx
   = idx\<lparr>by_call := insert_all (map (function_entry lib spec)
       (filter (\<lambda>f. fn_name f \<in> set (sp_functions spec)) fs)) (by_call idx)\<rparr>"
  by (induction fs arbitrary: idx) (auto simp: insert_all_def add_function_def function_entry_def)

lemma build_loop_Ok:
  "build_loop lib specs idx = Ok idx' \<Longrightarrow>
     idx' = \<lparr>by_topic0 = insert_all (configured_events lib specs) (by_topic0 idx),
             by_call = insert_all (configured_calls lib specs) (by_call idx)\<rparr>"
proof (induction lib specs idx rule: build_loop.induct)
  case (2 lib spec specs idx)
  from "2.prems" obtain abi where abi: "al_parse lib (sp_abi_json spec) = Inr abi"
    by (auto split: sum.splits)
  with "2.IH"[OF abi] "2.prems" show ?case
    by (simp add: add_events add_functions configured_events_def configured_calls_def spec_events_def spec_calls_def
        insert_all_append)
qed (simp add: configured_events_def configured_calls_def insert_all_def)

lemma abi_build_Ok:
  assumes "abi_build lib specs = Ok idx"
  shows "map_of (by_topic0 idx) = map_of (rev (configured_events lib specs))"
    and "map_of (by_call idx) = map_of (rev (configured_calls lib specs))"
    and "distinct (map fst (by_topic0 idx))" and "distinct (map fst (by_call idx))"
  using build_loop_Ok[OF assms[unfolded abi_build_def]] by (simp_all add: map_of_insert_all distinct_insert_all)

text \<open>Iteration visits every entry once.\<close>

definition iterates :: "abi_iter \<Rightarrow> bool" where
  "iterates it \<longleftrightarrow> (\<forall>xs. mset (it_topic0 it xs) = mset xs) \<and> (\<forall>xs. mset (it_call it xs) = mset xs)"

lemma topic0s_set: "iterates it \<Longrightarrow> set (topic0s it idx) = dom (map_of (by_topic0 idx))"
  unfolding iterates_def topic0s_def by (metis dom_map_of_conv_image_fst list.set_map set_mset_mset)

section \<open>Properties\<close>

text \<open>
  C32. Routing. After a successful build, a record is decoded by the last configured event whose
  selector is the record's first topic, whichever contract emitted the record, and the row
  carries the record's position; a record with no such event, without topics or with a first
  topic that is not 32 bytes is skipped. Calldata is routed by the called address and its
  first four bytes together.
\<close>

theorem decoder_routes_last_configured:
  assumes "abi_build lib specs = Ok idx"
  shows "abi_decode lib idx raw =
      (case rr_selectors raw of [] \<Rightarrow> Ok None | topic # _ \<Rightarrow>
        (if length topic \<noteq> 32 then Ok None
         else case map_of (rev (configured_events lib specs)) topic of
           None \<Rightarrow> Ok None
         | Some entry \<Rightarrow> map_ok (\<lambda>ev. Some \<lparr>er_chain_id = rr_chain_id raw, er_height = rr_height raw,
              er_block_hash = rr_block_hash raw, er_block_time = None, er_tx_id = rr_tx_id raw,
              er_index = rr_index raw, er_event = ev\<rparr>) (decode_event lib (ae_event entry) (ae_schema entry) raw)))
    \<and> (abi_decode_call lib idx tx \<noteq> Ok None \<longrightarrow>
        4 \<le> length (tc_input tx) \<and> (\<exists>spec \<in> set specs. sp_address spec = tc_to_addr tx
          \<and> (\<exists>abi f. al_parse lib (sp_abi_json spec) = Inr abi \<and> f \<in> set (ja_functions abi)
               \<and> fn_name f \<in> set (sp_functions spec) \<and> al_function_selector lib f = take 4 (tc_input tx))))"
proof
  show "abi_decode lib idx raw =
      (case rr_selectors raw of [] \<Rightarrow> Ok None | topic # _ \<Rightarrow>
        (if length topic \<noteq> 32 then Ok None
         else case map_of (rev (configured_events lib specs)) topic of
           None \<Rightarrow> Ok None
         | Some entry \<Rightarrow> map_ok (\<lambda>ev. Some \<lparr>er_chain_id = rr_chain_id raw, er_height = rr_height raw,
              er_block_hash = rr_block_hash raw, er_block_time = None, er_tx_id = rr_tx_id raw,
              er_index = rr_index raw, er_event = ev\<rparr>) (decode_event lib (ae_event entry) (ae_schema entry) raw)))"
    unfolding abi_decode_def abi_build_Ok(1)[OF assms] ..
next
  have known: "\<exists>spec \<in> set specs. sp_address spec = fst k \<and> (\<exists>abi f. al_parse lib (sp_abi_json spec) = Inr abi
      \<and> f \<in> set (ja_functions abi) \<and> fn_name f \<in> set (sp_functions spec) \<and> al_function_selector lib f = snd k)"
    if "map_of (rev (configured_calls lib specs)) k = Some e" for k e
    using map_of_SomeD[OF that]
    by (auto simp: configured_calls_def spec_calls_def function_entry_def split: sum.splits) metis
  show "abi_decode_call lib idx tx \<noteq> Ok None \<longrightarrow>
        4 \<le> length (tc_input tx) \<and> (\<exists>spec \<in> set specs. sp_address spec = tc_to_addr tx
          \<and> (\<exists>abi f. al_parse lib (sp_abi_json spec) = Inr abi \<and> f \<in> set (ja_functions abi)
               \<and> fn_name f \<in> set (sp_functions spec) \<and> al_function_selector lib f = take 4 (tc_input tx)))"
  proof (cases "map_of (rev (configured_calls lib specs)) (tc_to_addr tx, take 4 (tc_input tx))")
    case (Some entry)
    from known[OF this] show ?thesis by (simp add: abi_decode_call_def)
  qed (simp add: abi_decode_call_def abi_build_Ok(2)[OF assms])
qed

text \<open>
  The record filter and the decoder agree: the topics the filter subscribes to are exactly
  those of the configured events, and a record whose first topic is 32 bytes is skipped by the
  decoder exactly when that topic is not one of them, so nothing fetched through the filter
  is dropped as unknown.
\<close>

theorem filter_admits_exactly_decodable:
  assumes "abi_build lib specs = Ok idx" and "iterates it"
    and "rr_selectors raw = topic # rest" and "length topic = 32"
  shows "set (topic0s it idx) = fst ` set (configured_events lib specs)
     \<and> (topic \<in> set (topic0s it idx) \<longleftrightarrow> abi_decode lib idx raw \<noteq> Ok None)"
proof
  show t: "set (topic0s it idx) = fst ` set (configured_events lib specs)"
    unfolding topic0s_set[OF assms(2)] abi_build_Ok(1)[OF assms(1)] by (simp add: dom_map_of_conv_image_fst)
  show "topic \<in> set (topic0s it idx) \<longleftrightarrow> abi_decode lib idx raw \<noteq> Ok None"
    unfolding topic0s_set[OF assms(2)] abi_decode_def assms(3) using assms(4) by (auto split: option.splits)
qed


text \<open>
  C33. Two kinds of parameter are not storable. An indexed tuple comes back from the ABI library as
  a hash, but its column is \<open>jsonb\<close> and the decoder produces bytes for it; a parameter of
  type \<open>function\<close> has a byte column, but decodes to the JSON text of null. In both cases the
  decoded value cannot be assigned to its column, so the insert of the row is refused.
\<close>

theorem indexed_tuple_and_function_mismatch:
  assumes "decodes_typed lib" and "ev_inputs e = [p]"
    and "ep_indexed p \<and> ep_ty p = ''tuple'' \<or> \<not> ep_indexed p \<and> ep_ty p = ''function''"
    and "decode_event lib e (schema_for sel e t) raw = Ok d"
  shows "\<exists>c v. es_columns (schema_for sel e t) = [c] \<and> de_fields d = [(cd_name c, v)]
     \<and> \<not> assignable (column_sql_type (cd_ty c)) v"
proof -
  from assms(4) obtain indexed body fields where
    log: "al_decode_log_parts lib e (rr_selectors raw) (rr_data raw) = Inr (indexed, body)"
    and f: "event_fields lib [event_column 0 p] 0 [p] indexed body = Ok fields" and d: "de_fields d = fields"
    by (auto simp: decode_event_def assms(2) split: if_splits sum.splits prod.splits)
  have lists: "list_all2 (\<lambda>p v. words_ok v \<and> topic_typed (ep_ty p) v) (filter ep_indexed [p]) indexed"
    "list_all2 (\<lambda>p v. words_ok v \<and> sol_typed (ep_ty p) v) (filter (\<lambda>p. \<not> ep_indexed p) [p]) body"
    using assms(1) log unfolding decodes_typed_def assms(2)[symmetric] by blast+
  show ?thesis
    using assms(3)
  proof (elim disjE conjE)
    assume p: "ep_indexed p" "ep_ty p = ''tuple''"
    with lists obtain w where "indexed = [DvFixedBytes w 32]" "length w = 32"
      by (auto simp: topic_typed_def list_all2_Cons1)
    with f p show ?thesis
      by (auto simp: d assms(2) event_column_def dynamic_type_def column_type_for_def ends_with_char_def slice_to_def assignable_def)
  next
    assume p: "\<not> ep_indexed p" "ep_ty p = ''function''"
    with lists obtain b where "body = [DvFunction b]"
      by (auto simp: sol_typed_def list_all2_Cons1 ends_with_char_def)
    with f p show ?thesis
      by (auto simp: d assms(2) event_column_def column_type_for_def ends_with_char_def assignable_def)
  qed
qed

section \<open>Witnesses\<close>

definition demo_transfer :: abi_event where
  "demo_transfer = \<lparr>ev_name = ''Transfer'', ev_inputs =
     [\<lparr>ep_name = ''from'', ep_ty = ''address'', ep_indexed = True\<rparr>,
      \<lparr>ep_name = ''value'', ep_ty = ''uint256'', ep_indexed = False\<rparr>]\<rparr>"

definition demo_permit :: abi_event where
  "demo_permit = \<lparr>ev_name = ''Permit'', ev_inputs = [\<lparr>ep_name = ''p'', ep_ty = ''tuple'', ep_indexed = True\<rparr>]\<rparr>"

definition demo_abi :: abi_lib where
  "demo_abi = \<lparr>al_parse = (\<lambda>s. if s = [] then Inl ''eof'' else Inr \<lparr>ja_events = [demo_transfer], ja_functions = []\<rparr>),
     al_event_selector = (\<lambda>e. replicate 32 7), al_function_selector = (\<lambda>f. replicate 4 7),
     al_decode_log_parts = (\<lambda>e ts d. if ev_inputs e = ev_inputs demo_transfer then Inr ([DvAddress (replicate 20 1)], [DvUint 100 256])
        else if ev_inputs e = ev_inputs demo_permit then Inr ([DvFixedBytes (replicate 32 2) 32], []) else Inl ''no''),
     al_abi_decode_input = (\<lambda>f b. Inl ''no''), al_json_text = (\<lambda>j. ''null'')\<rparr>"

definition demo_spec :: contract_spec where
  "demo_spec = \<lparr>sp_abi_json = ''[]'', sp_events = [], sp_functions = [], sp_address = replicate 20 3,
     sp_table_prefix = ''erc20'', sp_table_override = None\<rparr>"

definition demo_log_record :: raw_record where
  "demo_log_record = \<lparr>rr_chain_id = 1, rr_height = 9, rr_block_hash = [], rr_index = 0, rr_address = replicate 20 3,
     rr_selectors = [replicate 32 7], rr_data = [], rr_tx_id = [], rr_tx_index = 0, rr_inner_index = None\<rparr>"

lemma demo_abi_typed: "decodes_typed demo_abi"
  by (auto simp: decodes_typed_def demo_abi_def demo_transfer_def demo_permit_def topic_typed_def sol_typed_def
      dynamic_type_def ends_with_char_def)

lemma demo_abi_build: "\<exists>idx. abi_build demo_abi [demo_spec] = Ok idx"
  by (simp add: abi_build_def demo_abi_def demo_spec_def)

lemma demo_configured: "configured_events demo_abi [demo_spec] = [event_entry demo_abi demo_spec demo_transfer]"
  by (simp add: configured_events_def spec_events_def demo_abi_def demo_spec_def)

lemma demo_selectors [simp]: "rr_selectors demo_log_record = [replicate 32 7]"
  "fst (event_entry demo_abi demo_spec demo_transfer) = replicate 32 7"
  by (simp_all add: demo_log_record_def event_entry_def demo_abi_def)

theorem decoder_routes_last_configured_witness:
  "\<exists>idx row. abi_build demo_abi [demo_spec] = Ok idx \<and> abi_decode demo_abi idx demo_log_record = Ok (Some row)
     \<and> de_table (er_event row) = ''evt_erc20_transfer''"
proof -
  obtain idx where i: "abi_build demo_abi [demo_spec] = Ok idx" using demo_abi_build by blast
  have "map_of (rev (configured_events demo_abi [demo_spec])) (replicate 32 7)
      = Some (snd (event_entry demo_abi demo_spec demo_transfer))"
    unfolding demo_configured by (simp add: event_entry_def demo_abi_def)
  moreover have "\<exists>fields. decode_event demo_abi demo_transfer (schema_for (al_event_selector demo_abi) demo_transfer
      ''evt_erc20_transfer'') demo_log_record = Ok \<lparr>de_table = ''evt_erc20_transfer'', de_fields = fields\<rparr>"
    by (simp add: decode_event_def) (simp add: demo_abi_def demo_transfer_def event_column_def dynamic_type_def ends_with_char_def)
  moreover have "event_table demo_spec demo_transfer = ''evt_erc20_transfer''"
    by (simp add: event_table_def demo_spec_def demo_transfer_def to_ascii_lowercase_def is_ascii_uppercase_def
        char_code_def char_of_def bit_simps)
  ultimately have "\<exists>row. abi_decode demo_abi idx demo_log_record = Ok (Some row)
      \<and> de_table (er_event row) = ''evt_erc20_transfer''"
    using conjunct1[OF decoder_routes_last_configured[OF i, where raw = demo_log_record]]
    by (auto simp: event_entry_def)
  with i show ?thesis by blast
qed

theorem filter_admits_exactly_decodable_witness:
  "\<exists>idx. abi_build demo_abi [demo_spec] = Ok idx
     \<and> set (topic0s \<lparr>it_topic0 = (\<lambda>x. x), it_call = (\<lambda>x. x)\<rparr> idx) = {replicate 32 7}
     \<and> abi_decode demo_abi idx demo_log_record \<noteq> Ok None"
proof -
  obtain idx where i: "abi_build demo_abi [demo_spec] = Ok idx" using demo_abi_build by blast
  have "iterates \<lparr>it_topic0 = (\<lambda>x. x), it_call = (\<lambda>x. x)\<rparr>" by (simp add: iterates_def)
  from filter_admits_exactly_decodable[OF i this demo_selectors(1)] i show ?thesis
    by (auto simp: demo_configured)
qed


theorem indexed_tuple_and_function_mismatch_witness:
  "\<exists>d (c :: column_def) v. decode_event demo_abi demo_permit (schema_for (al_event_selector demo_abi) demo_permit ''t'') demo_log_record = Ok d
     \<and> de_fields d = [(cd_name c, v)] \<and> \<not> assignable (column_sql_type (cd_ty c)) v"
proof -
  obtain d where d: "decode_event demo_abi demo_permit (schema_for (al_event_selector demo_abi) demo_permit ''t'') demo_log_record = Ok d"
    by (simp add: decode_event_def) (simp add: demo_abi_def demo_transfer_def demo_permit_def event_column_def dynamic_type_def
        ends_with_char_def slice_to_def)
  have "ev_inputs demo_permit = [\<lparr>ep_name = ''p'', ep_ty = ''tuple'', ep_indexed = True\<rparr>]" by (simp add: demo_permit_def)
  from indexed_tuple_and_function_mismatch[OF demo_abi_typed this _ d] d show ?thesis by auto
qed

end
