(* ===== verification/Pricing.thy ===== *)
theory Pricing
  imports Shared_Util
begin

text \<open>
  \<open>crates/pricing\<close>: the three \<open>CostModel\<close> implementations, the registry
  \<open>for_kind\<close> and the \<open>SpendLedger\<close>. A trait object is the record of its methods.
  The interface locale \<open>cost_contract\<close> states what the ledger relies on; it is
  interpreted for each provider.
\<close>

section \<open>Cost models\<close>

record cost_model =
  cm_cost :: "rpc_call \<Rightarrow> nat \<times> nat"
  cm_rate :: "nat \<times> nat"
  cm_name :: string

definition CU_GET_LOGS :: nat where "CU_GET_LOGS = 75"
definition CU_BLOCK_NUMBER :: nat where "CU_BLOCK_NUMBER = 10"
definition CU_BLOCK_BY_NUMBER :: nat where "CU_BLOCK_BY_NUMBER = 16"
definition CU_TX_BY_HASH :: nat where "CU_TX_BY_HASH = 15"
definition CU_RECEIPT :: nat where "CU_RECEIPT = 15"
definition CU_SUBSCRIBE :: nat where "CU_SUBSCRIBE = 10"
definition MICRO_USD_PER_CU_NUM :: nat where "MICRO_USD_PER_CU_NUM = 12"
definition MICRO_USD_PER_CU_DEN :: nat where "MICRO_USD_PER_CU_DEN = 10"

fun alchemy_units :: "rpc_call \<Rightarrow> nat" where
  "alchemy_units (GetLogs blocks results) = CU_GET_LOGS"
| "alchemy_units BlockNumber = CU_BLOCK_NUMBER"
| "alchemy_units (BlockByNumber cnt full) = u64_mul CU_BLOCK_BY_NUMBER (max cnt 1)"
| "alchemy_units (TxByHash cnt) = u64_mul CU_TX_BY_HASH (max cnt 1)"
| "alchemy_units (Receipt cnt) = u64_mul CU_RECEIPT (max cnt 1)"
| "alchemy_units LogSubscription = CU_SUBSCRIBE"
| "alchemy_units Other = 0"

definition alchemy_cost :: "rpc_call \<Rightarrow> nat \<times> nat" where
  "alchemy_cost call =
     (let u = alchemy_units call
      in (u, u64_mul u MICRO_USD_PER_CU_NUM div MICRO_USD_PER_CU_DEN))"

definition AlchemyCost :: cost_model where
  "AlchemyCost = \<lparr>cm_cost = alchemy_cost,
     cm_rate = (MICRO_USD_PER_CU_NUM, MICRO_USD_PER_CU_DEN), cm_name = ''alchemy''\<rparr>"

definition CR_STD :: nat where "CR_STD = 20"
definition MICRO_USD_PER_CR_NUM :: nat where "MICRO_USD_PER_CR_NUM = 6"
definition MICRO_USD_PER_CR_DEN :: nat where "MICRO_USD_PER_CR_DEN = 10"

fun quicknode_units :: "rpc_call \<Rightarrow> nat" where
  "quicknode_units (GetLogs blocks results) = CR_STD"
| "quicknode_units BlockNumber = CR_STD"
| "quicknode_units (BlockByNumber cnt full) = u64_mul CR_STD (max cnt 1)"
| "quicknode_units (TxByHash cnt) = u64_mul CR_STD (max cnt 1)"
| "quicknode_units (Receipt cnt) = u64_mul CR_STD (max cnt 1)"
| "quicknode_units LogSubscription = CR_STD"
| "quicknode_units Other = 0"

definition quicknode_cost :: "rpc_call \<Rightarrow> nat \<times> nat" where
  "quicknode_cost call =
     (let u = quicknode_units call
      in (u, u64_mul u MICRO_USD_PER_CR_NUM div MICRO_USD_PER_CR_DEN))"

definition QuickNodeCost :: cost_model where
  "QuickNodeCost = \<lparr>cm_cost = quicknode_cost,
     cm_rate = (MICRO_USD_PER_CR_NUM, MICRO_USD_PER_CR_DEN), cm_name = ''quicknode''\<rparr>"

definition FreeNodeCost :: "string \<Rightarrow> cost_model" where
  "FreeNodeCost kind = \<lparr>cm_cost = (\<lambda>_. (0, 0)), cm_rate = (0, 1), cm_name = kind @ '':free''\<rparr>"

definition for_kind :: "string \<Rightarrow> cost_model option" where
  "for_kind kind =
     (if kind = ''alchemy'' then Some AlchemyCost
      else if kind = ''quicknode'' then Some QuickNodeCost
      else if kind = ''free_node'' \<or> kind = ''generic_rpc'' then Some (FreeNodeCost kind)
      else None)"

section \<open>The spend ledger\<close>

record spend_ledger =
  ld_units :: nat
  ld_micro_usd :: nat
  ld_monthly_quota :: "nat option"
  ld_rate :: "nat \<times> nat"

definition ledger_new :: "nat option \<Rightarrow> nat \<times> nat \<Rightarrow> spend_ledger" where
  "ledger_new quota rate = \<lparr>ld_units = 0, ld_micro_usd = 0, ld_monthly_quota = quota, ld_rate = rate\<rparr>"

text \<open>\<open>record\<close> is two separate \<open>fetch_add\<close>s; an atomic add wraps.\<close>

definition add_units :: "nat \<Rightarrow> spend_ledger \<Rightarrow> spend_ledger" where
  "add_units u l = l\<lparr>ld_units := u64_add (ld_units l) u\<rparr>"

definition add_micro_usd :: "nat \<Rightarrow> spend_ledger \<Rightarrow> spend_ledger" where
  "add_micro_usd v l = l\<lparr>ld_micro_usd := u64_add (ld_micro_usd l) v\<rparr>"

definition ledger_record :: "nat \<Rightarrow> nat \<Rightarrow> spend_ledger \<Rightarrow> spend_ledger" where
  "ledger_record units money l = add_micro_usd money (add_units units l)"

definition spent_units :: "spend_ledger \<Rightarrow> nat" where
  "spent_units l = ld_units l"

definition spent_micro_usd :: "spend_ledger \<Rightarrow> nat" where
  "spent_micro_usd l = ld_micro_usd l"

definition billable_micro_usd :: "spend_ledger \<Rightarrow> nat" where
  "billable_micro_usd l =
     (let free = (case ld_monthly_quota l of None \<Rightarrow> 0 | Some q \<Rightarrow> q);
          (num, den) = ld_rate l
      in u64_mul (saturating_sub (ld_units l) free) num div max den 1)"

definition remaining_quota :: "spend_ledger \<Rightarrow> nat option" where
  "remaining_quota l = map_option (\<lambda>q. saturating_sub q (ld_units l)) (ld_monthly_quota l)"

definition quota_exhausted :: "spend_ledger \<Rightarrow> bool" where
  "quota_exhausted l \<longleftrightarrow> remaining_quota l = Some 0"

text \<open>\<open>RpcLogSource::meter\<close>: price a call and record it.\<close>

definition meter :: "cost_model \<Rightarrow> rpc_call \<Rightarrow> spend_ledger \<Rightarrow> spend_ledger" where
  "meter cm call l = (let (units, money) = cm_cost cm call in ledger_record units money l)"

definition meter_all :: "cost_model \<Rightarrow> rpc_call list \<Rightarrow> spend_ledger \<Rightarrow> spend_ledger" where
  "meter_all cm calls l = fold (meter cm) calls l"

text \<open>The atomic steps of concurrent recorders, in the order they hit the counters.\<close>

datatype ledger_step = AddUnits nat | AddMicroUsd nat

fun ledger_apply :: "ledger_step \<Rightarrow> spend_ledger \<Rightarrow> spend_ledger" where
  "ledger_apply (AddUnits u) l = add_units u l"
| "ledger_apply (AddMicroUsd v) l = add_micro_usd v l"

definition ledger_run :: "ledger_step list \<Rightarrow> spend_ledger \<Rightarrow> spend_ledger" where
  "ledger_run steps l = fold ledger_apply steps l"

section \<open>Lemmas on the ledger\<close>

lemmas pricing_consts = CU_GET_LOGS_def CU_BLOCK_NUMBER_def CU_BLOCK_BY_NUMBER_def
  CU_TX_BY_HASH_def CU_RECEIPT_def CU_SUBSCRIBE_def MICRO_USD_PER_CU_NUM_def
  MICRO_USD_PER_CU_DEN_def CR_STD_def MICRO_USD_PER_CR_NUM_def MICRO_USD_PER_CR_DEN_def

lemma ledger_record_simps [simp]:
  "ld_units (ledger_record u v l) = u64_add (ld_units l) u"
  "ld_micro_usd (ledger_record u v l) = u64_add (ld_micro_usd l) v"
  "ld_monthly_quota (ledger_record u v l) = ld_monthly_quota l"
  "ld_rate (ledger_record u v l) = ld_rate l"
  by (simp_all add: ledger_record_def add_units_def add_micro_usd_def)

lemma ledger_new_simps [simp]:
  "ld_units (ledger_new q r) = 0" "ld_micro_usd (ledger_new q r) = 0"
  "ld_monthly_quota (ledger_new q r) = q" "ld_rate (ledger_new q r) = r"
  by (simp_all add: ledger_new_def)

lemma meter_simps [simp]:
  "ld_units (meter cm c l) = u64_add (ld_units l) (fst (cm_cost cm c))"
  "ld_micro_usd (meter cm c l) = u64_add (ld_micro_usd l) (snd (cm_cost cm c))"
  "ld_monthly_quota (meter cm c l) = ld_monthly_quota l"
  "ld_rate (meter cm c l) = ld_rate l"
  by (simp_all add: meter_def case_prod_beta)

lemma meter_all_Nil [simp]: "meter_all cm [] l = l"
  by (simp add: meter_all_def)

lemma meter_all_Cons [simp]: "meter_all cm (c # cs) l = meter_all cm cs (meter cm c l)"
  by (simp add: meter_all_def)

lemma meter_all_append [simp]: "meter_all cm (xs @ ys) l = meter_all cm ys (meter_all cm xs l)"
  by (simp add: meter_all_def)

lemma meter_all_frame [simp]:
  "ld_monthly_quota (meter_all cm cs l) = ld_monthly_quota l" "ld_rate (meter_all cm cs l) = ld_rate l"
  by (induction cs arbitrary: l) simp_all

lemma meter_all_units_mod:
  "ld_units l < 2 ^ 64 \<Longrightarrow>
   ld_units (meter_all cm cs l) = (ld_units l + sum_list (map (\<lambda>c. fst (cm_cost cm c)) cs)) mod 2 ^ 64"
proof (induction cs arbitrary: l)
  case (Cons c cs)
  have "ld_units (meter_all cm cs (meter cm c l)) =
      (ld_units (meter cm c l) + sum_list (map (\<lambda>c. fst (cm_cost cm c)) cs)) mod 2 ^ 64"
    by (rule Cons.IH) simp
  then show ?case by (simp add: u64_add_def mod_add_left_eq add.assoc)
qed simp

lemma ledger_apply_commute: "ledger_apply a (ledger_apply b l) = ledger_apply b (ledger_apply a l)"
  by (cases a; cases b)
    (simp_all add: add_units_def add_micro_usd_def u64_add_right_commute)

lemma quota_exhausted_iff:
  "quota_exhausted l \<longleftrightarrow> (\<exists>q. ld_monthly_quota l = Some q \<and> q \<le> ld_units l)"
  by (auto simp: quota_exhausted_def remaining_quota_def)

section \<open>The cost-model contract\<close>

locale cost_contract =
  fixes cm :: cost_model
  assumes den_pos: "0 < snd (cm_rate cm)"
    and money_of_units: "fst (cm_cost cm call) * fst (cm_rate cm) < 2 ^ 64 \<Longrightarrow>
      snd (cm_cost cm call) = fst (cm_cost cm call) * fst (cm_rate cm) div snd (cm_rate cm)"
begin

text \<open>Metering calls into a fresh ledger: totals, quota and bill in terms of the units used.\<close>

lemma metered_units:
  assumes "sum_list (map (\<lambda>c. fst (cm_cost cm c)) cs) < 2 ^ 64"
  shows "spent_units (meter_all cm cs (ledger_new q (cm_rate cm))) =
    sum_list (map (\<lambda>c. fst (cm_cost cm c)) cs)"
  using assms by (simp add: spent_units_def meter_all_units_mod)

lemma metered_bill:
  assumes "sum_list (map (\<lambda>c. fst (cm_cost cm c)) cs) = S" and "S < 2 ^ 64"
    and "S * fst (cm_rate cm) < 2 ^ 64"
  shows "billable_micro_usd (meter_all cm cs (ledger_new q (cm_rate cm))) =
    (S - (case q of None \<Rightarrow> 0 | Some f \<Rightarrow> f)) * fst (cm_rate cm) div snd (cm_rate cm)"
proof -
  let ?l = "meter_all cm cs (ledger_new q (cm_rate cm))"
  have "ld_units ?l = S" using metered_units assms by (simp add: spent_units_def)
  moreover have "(S - f) * fst (cm_rate cm) < 2 ^ 64" for f
    using assms(3) by (meson diff_le_self le_less_trans mult_le_mono1)
  moreover have "max (snd (cm_rate cm)) 1 = snd (cm_rate cm)" using den_pos by simp
  ultimately show ?thesis
    by (simp add: billable_micro_usd_def case_prod_beta u64_mul_exact)
qed

text \<open>Rounding each call down loses less than one micro-USD per call.\<close>

lemma call_money_bounds:
  assumes "fst (cm_cost cm call) * fst (cm_rate cm) < 2 ^ 64"
  shows "snd (cm_cost cm call) * snd (cm_rate cm) \<le> fst (cm_cost cm call) * fst (cm_rate cm)"
    and "fst (cm_cost cm call) * fst (cm_rate cm) < (snd (cm_cost cm call) + 1) * snd (cm_rate cm)"
  using money_of_units[OF assms] den_pos
  by (simp_all add: div_times_less_eq_dividend dividend_less_div_times)

end

interpretation alchemy: cost_contract AlchemyCost
  by unfold_locales (auto simp: AlchemyCost_def alchemy_cost_def Let_def pricing_consts u64_mul_exact)

interpretation quicknode: cost_contract QuickNodeCost
  by unfold_locales
    (auto simp: QuickNodeCost_def quicknode_cost_def Let_def pricing_consts u64_mul_exact)

interpretation free_node: cost_contract "FreeNodeCost kind" for kind
  by unfold_locales (auto simp: FreeNodeCost_def)

lemma for_kind_cases:
  assumes "for_kind kind = Some cm"
  obtains "cm = AlchemyCost" | "cm = QuickNodeCost" | "cm = FreeNodeCost kind"
  using assms by (auto simp: for_kind_def split: if_splits)

lemma for_kind_contract: "for_kind kind = Some cm \<Longrightarrow> cost_contract cm"
  using alchemy.cost_contract_axioms quicknode.cost_contract_axioms free_node.cost_contract_axioms
  by (elim for_kind_cases) auto

section \<open>Properties\<close>

text \<open>
  Spend accounting for every provider kind the registry knows: metering any sequence of
  calls into a fresh ledger accumulates exactly the units of those calls; the quota guard
  trips exactly when the units reach the monthly quota; and the bill charges only the
  units beyond the free allotment, at the provider's rate, provided the totals fit in
  64 bits.
\<close>

theorem ledger_accounts_spend:
  assumes "for_kind kind = Some cm"
    and "S = sum_list (map (\<lambda>c. fst (cm_cost cm c)) calls)"
    and "S < 2 ^ 64" and "S * fst (cm_rate cm) < 2 ^ 64"
  shows "spent_units (meter_all cm calls (ledger_new quota (cm_rate cm))) = S
    \<and> (quota_exhausted (meter_all cm calls (ledger_new quota (cm_rate cm))) \<longleftrightarrow>
        (\<exists>q. quota = Some q \<and> q \<le> S))
    \<and> billable_micro_usd (meter_all cm calls (ledger_new quota (cm_rate cm))) =
        (S - (case quota of None \<Rightarrow> 0 | Some q \<Rightarrow> q)) * fst (cm_rate cm) div snd (cm_rate cm)"
proof -
  have cc: "cost_contract cm" using assms(1) by (rule for_kind_contract)
  have units: "spent_units (meter_all cm calls (ledger_new quota (cm_rate cm))) = S"
    using cost_contract.metered_units[OF cc] assms by simp
  then have "quota_exhausted (meter_all cm calls (ledger_new quota (cm_rate cm))) \<longleftrightarrow>
      (\<exists>q. quota = Some q \<and> q \<le> S)"
    by (simp add: quota_exhausted_iff spent_units_def)
  moreover have "billable_micro_usd (meter_all cm calls (ledger_new quota (cm_rate cm))) =
      (S - (case quota of None \<Rightarrow> 0 | Some q \<Rightarrow> q)) * fst (cm_rate cm) div snd (cm_rate cm)"
    by (rule cost_contract.metered_bill[OF cc]) (use assms in simp_all)
  ultimately show ?thesis using units by blast
qed

theorem ledger_accounts_spend_witness:
  "spent_units (meter_all AlchemyCost [GetLogs 10 0, Receipt 3] (ledger_new (Some 100) (12, 10))) = 120
   \<and> quota_exhausted (meter_all AlchemyCost [GetLogs 10 0, Receipt 3] (ledger_new (Some 100) (12, 10)))
   \<and> billable_micro_usd (meter_all AlchemyCost [GetLogs 10 0, Receipt 3] (ledger_new (Some 100) (12, 10))) = 24"
proof -
  have k: "for_kind ''alchemy'' = Some AlchemyCost" by (simp add: for_kind_def)
  have r: "cm_rate AlchemyCost = (12, 10)" by (simp add: AlchemyCost_def pricing_consts)
  have s: "120 = sum_list (map (\<lambda>c. fst (cm_cost AlchemyCost c)) [GetLogs 10 0, Receipt 3])"
    by (simp add: AlchemyCost_def alchemy_cost_def pricing_consts u64_mul_def)
  show ?thesis
    using ledger_accounts_spend[OF k s, of "Some 100"] by (simp add: r)
qed

text \<open>
  The ledger is safe for concurrent recorders: whatever order the atomic additions of
  concurrent \<open>record\<close> calls reach the counters in, the totals are the same.
\<close>

theorem ledger_interleaving:
  assumes "mset steps = mset steps'"
  shows "ledger_run steps l = ledger_run steps' l"
  unfolding ledger_run_def
  by (rule fun_cong[OF fold_multiset_equiv[OF _ assms]]) (auto simp: fun_eq_iff ledger_apply_commute)

theorem ledger_interleaving_witness:
  "ledger_run [AddUnits 75, AddUnits 15, AddMicroUsd 90, AddMicroUsd 18] (ledger_new None (12, 10))
   = ledger_run [AddUnits 15, AddMicroUsd 18, AddUnits 75, AddMicroUsd 90] (ledger_new None (12, 10))"
  by (rule ledger_interleaving) simp

end
