(* ===== verification/Limiter.thy ===== *)
theory Limiter
  imports Pricing
begin

text \<open>
  The mutable state of one \<open>RpcLogSource\<close> (\<open>crates/source/src/client.rs\<close>) and the
  rate limiter of \<open>crates/source/src/limiter.rs\<close>. Everything beyond the JSON-RPC
  endpoint is the abstract component \<open>net\<close>. Waiting on a token bucket has no other
  effect than delay, so the state records what was requested from the buckets: the number
  of request permits and the sizes of the compute-unit bursts.
\<close>

record 'n rpc =
  net :: 'n
  jitter_state :: "64 word"
  slept_ms :: "nat list"
  rps_permits :: nat
  cu_bursts :: "nat list"
  ledger :: spend_ledger
  density_milli :: nat

datatype source_error =
    Transport string | Malformed string | UnknownKind string | Unsupported string

fun source_error_string :: "source_error \<Rightarrow> string" where
  "source_error_string (Transport e) = ''rpc transport error: '' @ e"
| "source_error_string (Malformed e) = ''rpc returned malformed data: '' @ e"
| "source_error_string (UnknownKind e) = ''provider kind '' @ [CHR 0x27] @ e @ [CHR 0x27] @ '' unknown''"
| "source_error_string (Unsupported e) = ''unsupported: '' @ e"

definition source_error_to_domain :: "source_error \<Rightarrow> domain_error" where
  "source_error_to_domain e = Source (source_error_string e)"

section \<open>The limiter\<close>

text \<open>Bucket capacities; a bucket is a \<open>NonZeroU32\<close> quota per second.\<close>

record limiter =
  li_rps :: nat
  li_cu :: "nat option"

definition limiter_from_plan :: "plan_profile \<Rightarrow> limiter" where
  "limiter_from_plan plan =
     \<lparr>li_rps = max (max_rps plan) 1,
      li_cu = (case max_cu_per_sec plan of None \<Rightarrow> None | Some n \<Rightarrow> if n = 0 then None else Some n)\<rparr>"

definition acquire :: "'n rpc \<Rightarrow> 'n rpc" where
  "acquire s = s\<lparr>rps_permits := Suc (rps_permits s)\<rparr>"

text \<open>The \<open>while remaining > 0\<close> loop; \<open>cap\<close> is non-zero by its Rust type.\<close>

function cu_loop :: "nat \<Rightarrow> nat \<Rightarrow> nat list" where
  "cu_loop cap remaining =
     (if remaining = 0 \<or> cap = 0 then []
      else min remaining cap # cu_loop cap (remaining - min remaining cap))"
  by pat_completeness auto
termination
  by (relation "measure (\<lambda>(cap, remaining). remaining)") auto

declare cu_loop.simps [simp del]

definition acquire_cu :: "limiter \<Rightarrow> nat \<Rightarrow> 'n rpc \<Rightarrow> 'n rpc" where
  "acquire_cu l units s = (case li_cu l of
     None \<Rightarrow> s
   | Some cap \<Rightarrow> s\<lparr>cu_bursts := cu_bursts s @ cu_loop cap (max units 1)\<rparr>)"

section \<open>Lemmas\<close>

lemma cu_loop_sum: "0 < cap \<Longrightarrow> sum_list (cu_loop cap r) = r"
proof (induction cap r rule: cu_loop.induct)
  case (1 cap r)
  then show ?case by (cases "r = 0") (simp_all add: cu_loop.simps[of cap r] cu_loop.simps[of cap 0])
qed

lemma cu_loop_bounds: "b \<in> set (cu_loop cap r) \<Longrightarrow> 0 < b \<and> b \<le> cap"
proof (induction cap r rule: cu_loop.induct)
  case (1 cap r)
  then show ?case by (auto simp: cu_loop.simps[of cap r] split: if_splits)
qed

lemma cu_loop_length: "0 < cap \<Longrightarrow> length (cu_loop cap r) = (r + cap - 1) div cap"
proof (induction cap r rule: cu_loop.induct)
  case (1 cap r)
  show ?case
  proof (cases "r \<le> cap")
    case True
    with 1 show ?thesis
      by (cases "r = 0") (auto simp: cu_loop.simps[of cap r] cu_loop.simps[of cap 0] div_eq_dividend_iff
          intro!: sym[OF div_nat_eqI])
  next
    case False
    with 1 have "length (cu_loop cap (r - cap)) = (r - cap + cap - 1) div cap" by simp
    moreover have "(r + cap - 1) div cap = Suc ((r - 1) div cap)"
    proof -
      have "r + cap - 1 = (r - 1) + cap" using False by simp
      with 1 show ?thesis by (simp only: div_add_self2)
    qed
    ultimately show ?thesis using False 1 by (simp add: cu_loop.simps[of cap r])
  qed
qed

lemma limiter_cu_pos: "li_cu (limiter_from_plan plan) = Some cap \<Longrightarrow> 0 < cap"
  by (auto simp: limiter_from_plan_def split: option.splits if_splits)

lemma acquire_cu_frame [simp]:
  "net (acquire_cu l u s) = net s" "ledger (acquire_cu l u s) = ledger s"
  "rps_permits (acquire_cu l u s) = rps_permits s" "density_milli (acquire_cu l u s) = density_milli s"
  by (simp_all add: acquire_cu_def split: option.splits)

lemma acquire_frame [simp]:
  "net (acquire s) = net s" "ledger (acquire s) = ledger s"
  "rps_permits (acquire s) = Suc (rps_permits s)" "density_milli (acquire s) = density_milli s"
  "cu_bursts (acquire s) = cu_bursts s"
  by (simp_all add: acquire_def)

section \<open>Properties\<close>

text \<open>
  Compute-unit throttling: for a limiter built from any plan with a compute-unit cap, a
  call worth \<open>units\<close> takes exactly \<open>max units 1\<close> permits, in bursts that are
  non-empty and never larger than the bucket (so no burst is rejected), and in the least
  possible number of bursts. Without a cap nothing is taken.
\<close>

theorem acquire_cu_bursts:
  fixes s :: "'n rpc"
  shows "case li_cu (limiter_from_plan plan) of
      None \<Rightarrow> acquire_cu (limiter_from_plan plan) units s = s
    | Some cap \<Rightarrow> (\<exists>bs. cu_bursts (acquire_cu (limiter_from_plan plan) units s) = cu_bursts s @ bs
        \<and> sum_list bs = max units 1 \<and> (\<forall>b \<in> set bs. 0 < b \<and> b \<le> cap)
        \<and> length bs = (max units 1 + cap - 1) div cap)"
proof (cases "li_cu (limiter_from_plan plan)")
  case None
  then show ?thesis by (simp add: acquire_cu_def)
next
  case (Some cap)
  then have "0 < cap" by (rule limiter_cu_pos)
  with Some cu_loop_bounds[of _ cap "max units 1"] show ?thesis
    by (simp add: acquire_cu_def cu_loop_sum cu_loop_length)
qed

theorem acquire_cu_bursts_witness:
  "case li_cu (limiter_from_plan (plan_profile_default\<lparr>max_cu_per_sec := Some 330\<rparr>)) of
      None \<Rightarrow> False
    | Some cap \<Rightarrow> (\<exists>bs. cu_bursts (acquire_cu (limiter_from_plan (plan_profile_default\<lparr>max_cu_per_sec := Some 330\<rparr>)) 1600
            \<lparr>net = (), jitter_state = 0, slept_ms = [], rps_permits = 0, cu_bursts = [],
             ledger = ledger_new None (12, 10), density_milli = 0\<rparr>) = [] @ bs
        \<and> sum_list bs = 1600 \<and> length bs = 5 \<and> (\<forall>b \<in> set bs. 0 < b \<and> b \<le> cap))"
  using acquire_cu_bursts[of "plan_profile_default\<lparr>max_cu_per_sec := Some 330\<rparr>" 1600
      "\<lparr>net = (), jitter_state = 0, slept_ms = [], rps_permits = 0, cu_bursts = [],
        ledger = ledger_new None (12, 10), density_milli = 0\<rparr>"]
  by (simp add: limiter_from_plan_def)

end
