(* ===== verification/Retry.thy ===== *)
theory Retry
  imports Limiter
begin

unbundle bit_operations_syntax

text \<open>
  \<open>crates/source/src/retry.rs\<close> and the error classification of
  \<open>crates/source/src/metric.rs\<close>: jittered retry of a transport call, recognition of
  result-cap errors, and the halving of a block range. The interface \<open>gated_call\<close>
  states what \<open>with_retry\<close> asks of the closure it is given.
\<close>

section \<open>Jitter\<close>

definition GOLDEN :: "64 word" where
  "GOLDEN = 0x9E3779B97F4A7C15"

definition splitmix :: "64 word \<Rightarrow> 64 word" where
  "splitmix x =
     (let z = (x XOR drop_bit 30 x) * 0xBF58476D1CE4E5B9;
          z = (z XOR drop_bit 27 z) * 0x94D049BB133111EB
      in z XOR drop_bit 31 z)"

definition jitter_below :: "nat \<Rightarrow> 'n rpc \<Rightarrow> nat \<times> 'n rpc" where
  "jitter_below mx s =
     (if mx = 0 then (0, s)
      else (unat (splitmix (jitter_state s)) mod mx, s\<lparr>jitter_state := jitter_state s + GOLDEN\<rparr>))"

section \<open>Error classification\<close>

definition lower :: "string \<Rightarrow> string" where
  "lower e = map to_ascii_lowercase e"

definition error_reason :: "string \<Rightarrow> string" where
  "error_reason e =
     (let el = lower e in
      if str_contains el ''429'' \<or> str_contains el ''too many requests'' \<or> str_contains el ''limit'' then ''429''
      else if str_contains el ''timeout'' \<or> str_contains el ''timed out'' then ''timeout''
      else if str_contains el ''503'' \<or> str_contains el ''502'' then ''5xx''
      else if str_contains el ''connection'' then ''connection''
      else ''other'')"

definition transient :: "string \<Rightarrow> bool" where
  "transient e =
     (let el = lower e in
        str_contains el ''429'' \<or> str_contains el ''limit'' \<or> str_contains el ''too many requests''
      \<or> str_contains el ''timeout'' \<or> str_contains el ''timed out'' \<or> str_contains el ''503''
      \<or> str_contains el ''502'' \<or> str_contains el ''connection'')"

definition is_range_cap_error :: "string \<Rightarrow> bool" where
  "is_range_cap_error e =
     (let el = lower e in
        str_contains el ''more than'' \<or> str_contains el ''too large'' \<or> str_contains el ''response size''
      \<or> str_contains el ''range is too'' \<or> str_contains el ''query timeout'')"

fun method_name :: "rpc_call \<Rightarrow> string" where
  "method_name (GetLogs blocks results) = ''eth_getLogs''"
| "method_name BlockNumber = ''eth_blockNumber''"
| "method_name (BlockByNumber cnt full) = ''eth_getBlockByNumber''"
| "method_name (TxByHash cnt) = ''eth_getTransactionByHash''"
| "method_name (Receipt cnt) = ''eth_getTransactionReceipt''"
| "method_name LogSubscription = ''eth_subscribe''"
| "method_name Other = ''other''"

section \<open>Retry\<close>

text \<open>
  The \<open>for attempt in 0..6\<close> loop; falling out of it is \<open>unreachable!()\<close>. The delay
  never exceeds 4000, so its arithmetic does not wrap.
\<close>

definition backoff_sleep :: "nat \<Rightarrow> 'n rpc \<Rightarrow> 'n rpc" where
  "backoff_sleep delay_ms s =
     (let half = delay_ms div 2; (j, s') = jitter_below (half + 1) s
      in s'\<lparr>slept_ms := slept_ms s' @ [half + j]\<rparr>)"

function retry_loop :: "('n rpc, string, 'a) m \<Rightarrow> nat \<Rightarrow> nat \<Rightarrow> ('n rpc, source_error, 'a) m" where
  "retry_loop call attempt delay_ms s =
     (if 6 \<le> attempt then (Panic, s)
      else case call s of
        (Ok v, s') \<Rightarrow> (Ok v, s')
      | (Panic, s') \<Rightarrow> (Panic, s')
      | (Err e, s') \<Rightarrow>
          if \<not> transient e \<or> attempt = 5 then (Err (Transport e), s')
          else retry_loop call (attempt + 1) (min (delay_ms * 2) 4000) (backoff_sleep delay_ms s'))"
  by pat_completeness auto
termination
  by (relation "measure (\<lambda>(call, attempt, delay_ms, s). 6 - attempt)") auto

declare retry_loop.simps [simp del]

definition with_retry :: "('n rpc, string, 'a) m \<Rightarrow> ('n rpc, source_error, 'a) m" where
  "with_retry call = retry_loop call 0 250"

section \<open>Range halving\<close>

definition split_range :: "nat \<Rightarrow> nat \<Rightarrow> (nat \<times> nat) \<times> (nat \<times> nat)" where
  "split_range lo hi =
     (let mid = u64_add lo (u64_sub hi lo div 2) in ((lo, mid), (u64_add mid 1, hi)))"

section \<open>Lemmas\<close>

lemma jitter_below_bound: "0 < mx \<Longrightarrow> fst (jitter_below mx s) < mx"
  by (simp add: jitter_below_def)

lemma jitter_below_frame [simp]:
  "net (snd (jitter_below mx s)) = net s" "slept_ms (snd (jitter_below mx s)) = slept_ms s"
  "rps_permits (snd (jitter_below mx s)) = rps_permits s" "ledger (snd (jitter_below mx s)) = ledger s"
  "density_milli (snd (jitter_below mx s)) = density_milli s" "cu_bursts (snd (jitter_below mx s)) = cu_bursts s"
  by (simp_all add: jitter_below_def)

lemma backoff_sleep_frame [simp]:
  "net (backoff_sleep d s) = net s" "rps_permits (backoff_sleep d s) = rps_permits s"
  "ledger (backoff_sleep d s) = ledger s" "density_milli (backoff_sleep d s) = density_milli s"
  by (simp_all add: backoff_sleep_def Let_def split: prod.split)
    (metis jitter_below_frame snd_conv)+

lemma backoff_sleep_bounds:
  "\<exists>d'. slept_ms (backoff_sleep d s) = slept_ms s @ [d'] \<and> d div 2 \<le> d' \<and> d' \<le> d"
proof -
  obtain j s' where j: "jitter_below (d div 2 + 1) s = (j, s')" by fastforce
  then have "j < d div 2 + 1" and "slept_ms s' = slept_ms s"
    using jitter_below_bound[of "d div 2 + 1" s] jitter_below_frame(2)[of "d div 2 + 1" s] by auto
  with j show ?thesis by (simp add: backoff_sleep_def Let_def)
qed

lemma split_range_exact:
  "lo < hi \<Longrightarrow> hi < 2 ^ 64 \<Longrightarrow>
     split_range lo hi = ((lo, lo + (hi - lo) div 2), (lo + (hi - lo) div 2 + 1, hi))"
  by (simp add: split_range_def Let_def u64_sub_exact u64_add_exact)

lemma split_range_blocks:
  assumes "lo < hi" and "hi < 2 ^ 64" and "split_range lo hi = ((a, b), (c, d))"
  shows "a = lo \<and> c = b + 1 \<and> d = hi \<and> lo \<le> b \<and> b < hi"
  using assms by (auto simp: split_range_exact)

text \<open>The error classes: what is retried is exactly what has a reason of its own.\<close>

lemma transient_reason: "transient e \<longleftrightarrow> error_reason e \<noteq> ''other''"
  by (auto simp: transient_def error_reason_def Let_def)

text \<open>The delay before attempt \<open>n + 1\<close>.\<close>

definition backoff :: "nat \<Rightarrow> nat" where
  "backoff n = min (250 * 2 ^ n) 4000"

lemma backoff_0 [simp]: "backoff 0 = 250"
  by (simp add: backoff_def)

lemma backoff_Suc: "min (backoff n * 2) 4000 = backoff (Suc n)"
  by (simp add: backoff_def min_def)

definition sleeps_ok :: "nat \<Rightarrow> nat list \<Rightarrow> bool" where
  "sleeps_ok n ds \<longleftrightarrow> (\<forall>i < length ds. backoff (n + i) div 2 \<le> ds ! i \<and> ds ! i \<le> backoff (n + i))"

lemma sleeps_ok_Cons:
  "sleeps_ok n (d # ds) \<longleftrightarrow> backoff n div 2 \<le> d \<and> d \<le> backoff n \<and> sleeps_ok (Suc n) ds"
  by (auto simp: sleeps_ok_def nth_Cons split: nat.splits)

text \<open>
  The closure contract: the call never panics, does not sleep, and takes a fixed number of
  request permits each time it runs.
\<close>

locale gated_call =
  fixes call :: "('n rpc, string, 'a) m" and permits :: nat
  assumes no_panic: "fst (call s) \<noteq> Panic"
    and no_sleep: "slept_ms (snd (call s)) = slept_ms s"
    and gated: "rps_permits (snd (call s)) = rps_permits s + permits"
begin

lemma retry_loop_spec:
  assumes "attempt \<le> 5" and "d = backoff attempt"
  shows "\<exists>r s' ds. retry_loop call attempt d s = (r, s') \<and> slept_ms s' = slept_ms s @ ds
     \<and> sleeps_ok attempt ds \<and> attempt + length ds \<le> 5
     \<and> rps_permits s' = rps_permits s + permits * (length ds + 1)
     \<and> ((\<exists>v. r = Ok v) \<or> (\<exists>e. r = Err (Transport e) \<and> (\<not> transient e \<or> attempt + length ds = 5)))"
  using assms
proof (induction "5 - attempt" arbitrary: attempt d s)
  case (0 attempt d s)
  obtain r1 s1 where c: "call s = (r1, s1)" by fastforce
  from 0 have a: "attempt = 5" "d = backoff 5" by auto
  from c no_panic[of s] no_sleep[of s] gated[of s] show ?case unfolding a
    by (cases r1) (auto simp: retry_loop.simps[of call 5] sleeps_ok_def)
next
  case (Suc k attempt d s)
  obtain r1 s1 where c: "call s = (r1, s1)" by fastforce
  have f: "fst (call s) = r1" "slept_ms s1 = slept_ms s" "rps_permits s1 = rps_permits s + permits"
    using c no_sleep[of s] gated[of s] by auto
  have unf: "retry_loop call attempt d s = (case r1 of Ok v \<Rightarrow> (Ok v, s1) | Panic \<Rightarrow> (Panic, s1)
      | Err e \<Rightarrow> if \<not> transient e then (Err (Transport e), s1)
                else retry_loop call (attempt + 1) (backoff (attempt + 1)) (backoff_sleep d s1))"
  proof -
    from Suc.hyps(2) have "attempt < 5" by linarith
    then show ?thesis using Suc.prems c
      by (simp add: retry_loop.simps[of call attempt] backoff_Suc[of attempt] split: res.split)
  qed
  show ?case
  proof (cases "\<exists>e. r1 = Err e \<and> transient e")
    case True
    then obtain e where e: "r1 = Err e" "transient e" by blast
    have h: "k = 5 - (attempt + 1)" "attempt + 1 \<le> 5" using Suc.hyps(2) by linarith+
    obtain r s' ds where ih: "retry_loop call (attempt + 1) (backoff (attempt + 1)) (backoff_sleep d s1) = (r, s')"
      "slept_ms s' = slept_ms (backoff_sleep d s1) @ ds" "sleeps_ok (attempt + 1) ds"
      "attempt + 1 + length ds \<le> 5"
      "rps_permits s' = rps_permits (backoff_sleep d s1) + permits * (length ds + 1)"
      "(\<exists>v. r = Ok v) \<or> (\<exists>e. r = Err (Transport e) \<and> (\<not> transient e \<or> attempt + 1 + length ds = 5))"
      using Suc.hyps(1)[OF h(1) h(2) refl, of "backoff_sleep d s1"] by blast
    obtain d' where d': "slept_ms (backoff_sleep d s1) = slept_ms s1 @ [d']" "d div 2 \<le> d'" "d' \<le> d"
      using backoff_sleep_bounds by blast
    have "retry_loop call attempt d s = (r, s')" using unf e ih(1) by simp
    moreover have "slept_ms s' = slept_ms s @ d' # ds" using ih(2) d'(1) f by simp
    moreover have "sleeps_ok attempt (d' # ds)" using ih(3) d' Suc.prems by (simp add: sleeps_ok_Cons)
    moreover have "rps_permits s' = rps_permits s + permits * (length (d' # ds) + 1)" using ih(5) f by simp
    ultimately show ?thesis using ih(4,6) by (intro exI[of _ r] exI[of _ s'] exI[of _ "d' # ds"]) auto
  next
    case False
    with unf f no_panic[of s] show ?thesis
      by (cases r1) (auto simp: sleeps_ok_def intro!: Suc.prems)
  qed
qed

lemma with_retry_spec:
  "\<exists>r s' ds. with_retry call s = (r, s') \<and> slept_ms s' = slept_ms s @ ds \<and> sleeps_ok 0 ds
     \<and> length ds \<le> 5 \<and> rps_permits s' = rps_permits s + permits * (length ds + 1)
     \<and> ((\<exists>v. r = Ok v) \<or> (\<exists>e. r = Err (Transport e) \<and> (\<not> transient e \<or> length ds = 5)))"
  using retry_loop_spec[of 0 250 s] by (simp add: with_retry_def)

end

text \<open>An invariant of the call and of sleeping is an invariant of the retried call.\<close>

lemma retry_loop_invariant:
  assumes step: "\<And>s. P s \<Longrightarrow> P (snd (call s))" and sleep: "\<And>d s. P s \<Longrightarrow> P (backoff_sleep d s)"
    and "P s"
  shows "P (snd (retry_loop call attempt d s))"
  using \<open>P s\<close>
proof (induction "6 - attempt" arbitrary: attempt d s)
  case 0
  then show ?case by (subst retry_loop.simps) simp
next
  case (Suc k attempt d s)
  obtain r1 s1 where c: "call s = (r1, s1)" by fastforce
  with step[OF Suc.prems] have "P s1" by simp
  with Suc.hyps(1)[of "attempt + 1"] Suc.hyps(2) c sleep show ?case
    by (subst retry_loop.simps) (auto split: res.split)
qed

lemma with_retry_invariant:
  assumes "\<And>s. P s \<Longrightarrow> P (snd (call s))" and "\<And>d s. P s \<Longrightarrow> P (backoff_sleep d s)" and "P s"
  shows "P (snd (with_retry call s))"
  unfolding with_retry_def by (rule retry_loop_invariant) (use assms in auto)

text \<open>A result of the retried call is one the call returned; so is an error.\<close>

lemma retry_loop_returned:
  "retry_loop call attempt d s = (r, s') \<Longrightarrow> r \<noteq> Panic \<Longrightarrow>
     \<exists>s0. case r of Ok v \<Rightarrow> call s0 = (Ok v, s')
         | Err (Transport e) \<Rightarrow> call s0 = (Err e, s') | _ \<Rightarrow> False"
proof (induction "6 - attempt" arbitrary: attempt d s)
  case 0
  then show ?case by (subst (asm) retry_loop.simps) auto
next
  case (Suc k attempt d s)
  obtain r1 s1 where c: "call s = (r1, s1)" by fastforce
  from Suc.hyps(2) have a: "attempt < 6" "k = 6 - (attempt + 1)" by linarith+
  define again where "again = retry_loop call (attempt + 1) (min (d * 2) 4000) (backoff_sleep d s1)"
  have "(r, s') = (case r1 of Ok v \<Rightarrow> (Ok v, s1) | Panic \<Rightarrow> (Panic, s1)
      | Err e \<Rightarrow> if \<not> transient e \<or> attempt = 5 then (Err (Transport e), s1) else again)"
    unfolding again_def Suc.prems(1)[symmetric] using a(1) c by (subst retry_loop.simps) simp
  then consider v where "r1 = Ok v" "r = Ok v" "s' = s1"
    | e where "r1 = Err e" "r = Err (Transport e)" "s' = s1" | "again = (r, s')"
    using Suc.prems(2) by (cases r1) (auto split: if_splits)
  then show ?case
  proof cases
    case 3
    then show ?thesis using Suc.hyps(1)[OF a(2)] Suc.prems(2) unfolding again_def by blast
  qed (use c in auto)
qed

lemma with_retry_OkD: "with_retry call s = (Ok v, s') \<Longrightarrow> \<exists>s0. call s0 = (Ok v, s')"
  unfolding with_retry_def by (drule retry_loop_returned) auto

lemma with_retry_ErrD: "with_retry call s = (Err x, s') \<Longrightarrow> \<exists>e s0. x = Transport e \<and> call s0 = (Err e, s')"
  using retry_loop_returned[of call 0 250 s "Err x" s'] by (cases x) (auto simp: with_retry_def)

end
