(* ===== verification/Plan.thy ===== *)
theory Plan
  imports Shared_Util
begin

text \<open>
  \<open>bins/indexer-cli/src/plan.rs\<close>: chunking a height window into provider-sized
  ranges, the bound of one fetch iteration, and the \<open>PrefixTracker\<close> that turns
  out-of-order commits into a gap-free cursor. The chunking loop is a
  \<^theory_text>\<open>partial_function\<close>: with a zero step, or a target at the top of the
  \<open>u64\<close> range, the loop of the source does not end.
\<close>

section \<open>Range planning\<close>

definition fetch_target :: "nat \<Rightarrow> nat \<Rightarrow> nat \<Rightarrow> nat \<Rightarrow> bool \<Rightarrow> nat" where
  "fetch_target safe next step range_concurrency must_fetch =
     (if must_fetch
      then min safe (u64_sub (u64_add next (u64_mul step range_concurrency)) 1)
      else safe)"

partial_function (option) span_loop ::
  "nat \<Rightarrow> nat \<Rightarrow> nat \<Rightarrow> (nat \<times> nat) list \<Rightarrow> (nat \<times> nat) list option" where
  "span_loop s target step ranges =
     (if s \<le> target
      then span_loop (u64_add (min (u64_sub (u64_add s step) 1) target) 1) target step
             (ranges @ [(s, min (u64_sub (u64_add s step) 1) target)])
      else Some ranges)"

definition plan_ranges :: "nat \<Rightarrow> nat \<Rightarrow> nat \<Rightarrow> (nat \<times> nat) list option" where
  "plan_ranges next target step = span_loop next target step []"

section \<open>The prefix tracker\<close>

record prefix_tracker =
  pt_frontier :: nat
  pt_waiting :: "(nat \<times> (nat \<times> (height \<times> hash) option)) list"
  pt_best :: "(nat \<times> hash) option"
  pt_advanced_to :: "nat option"

definition prefix_new :: "nat \<Rightarrow> prefix_tracker" where
  "prefix_new start = \<lparr>pt_frontier = start, pt_waiting = [], pt_best = None, pt_advanced_to = None\<rparr>"

text \<open>\<open>BTreeMap::insert\<close> and \<open>remove\<close> on the waiting ranges.\<close>

definition waiting_insert :: "nat \<Rightarrow> 'v \<Rightarrow> (nat \<times> 'v) list \<Rightarrow> (nat \<times> 'v) list" where
  "waiting_insert k v w = (k, v) # filter (\<lambda>p. fst p \<noteq> k) w"

definition waiting_remove :: "nat \<Rightarrow> (nat \<times> 'v) list \<Rightarrow> (nat \<times> 'v) list" where
  "waiting_remove k w = filter (\<lambda>p. fst p \<noteq> k) w"

definition best_update :: "(nat \<times> hash) option \<Rightarrow> (height \<times> hash) option \<Rightarrow> (nat \<times> hash) option" where
  "best_update best last_block = (case last_block of
     None \<Rightarrow> best
   | Some (h, hsh) \<Rightarrow>
       (case best of
          None \<Rightarrow> Some (h, hsh)
        | Some (best_h, _) \<Rightarrow> if best_h \<le> h then Some (h, hsh) else best))"

text \<open>The \<open>while let\<close> loop of \<open>record\<close>.\<close>

function prefix_drain :: "prefix_tracker \<Rightarrow> bool \<Rightarrow> bool \<times> prefix_tracker" where
  "prefix_drain p moved =
     (case map_of (pt_waiting p) (pt_frontier p) of
        None \<Rightarrow> (moved, p)
      | Some (end, last_block) \<Rightarrow>
          prefix_drain
            (p\<lparr>pt_waiting := waiting_remove (pt_frontier p) (pt_waiting p),
               pt_best := best_update (pt_best p) last_block,
               pt_frontier := u64_add end 1,
               pt_advanced_to := Some end\<rparr>) True)"
  by pat_completeness auto
termination
proof (relation "measure (\<lambda>(p, moved). length (pt_waiting p))", goal_cases)
  case (2 p moved v e lb)
  then have "(pt_frontier p, v) \<in> set (pt_waiting p)" by (blast dest: map_of_SomeD)
  then have "length (filter (\<lambda>q. fst q \<noteq> pt_frontier p) (pt_waiting p)) < length (pt_waiting p)"
    by (intro length_filter_less) auto
  then show ?case by (simp add: waiting_remove_def)
qed simp

definition best_hash :: "prefix_tracker \<Rightarrow> hash" where
  "best_hash p = (case pt_best p of None \<Rightarrow> [] | Some (_, h) \<Rightarrow> h)"

definition prefix_record :: "nat \<Rightarrow> nat \<Rightarrow> (height \<times> hash) option \<Rightarrow> prefix_tracker
    \<Rightarrow> (height \<times> hash) option outcome \<times> prefix_tracker" where
  "prefix_record from to last_block p =
     (let (moved, p') = prefix_drain (p\<lparr>pt_waiting := waiting_insert from (to, last_block) (pt_waiting p)\<rparr>) False
      in if moved
         then (case pt_advanced_to p' of
                 None \<Rightarrow> (Panics, p')
               | Some h \<Rightarrow> (Returns (Some (h, best_hash p')), p'))
         else (Returns None, p'))"

text \<open>The tracker after a list of commits, in the order the writer made them.\<close>

definition prefix_run :: "(nat \<times> nat \<times> (height \<times> hash) option) list \<Rightarrow> prefix_tracker \<Rightarrow> prefix_tracker" where
  "prefix_run commits p =
     fold (\<lambda>(from, to, lb) q. snd (prefix_record from to lb q)) commits p"

section \<open>Lemmas on planning\<close>

text \<open>The plan as a total function, and what a list of ranges covers.\<close>

function spans :: "nat \<Rightarrow> nat \<Rightarrow> nat \<Rightarrow> (nat \<times> nat) list" where
  "spans s t k = (if k = 0 \<or> t < s then [] else (s, min (s + k - 1) t) # spans (min (s + k - 1) t + 1) t k)"
  by pat_completeness auto
termination
  by (relation "measure (\<lambda>(s, t, k). t + 1 - s)") auto

declare spans.simps [simp del]

definition blocks_of :: "(nat \<times> nat) list \<Rightarrow> nat list" where
  "blocks_of rs = concat (map (\<lambda>(lo, hi). [lo..<Suc hi]) rs)"

fun contiguous :: "nat \<Rightarrow> (nat \<times> nat) list \<Rightarrow> nat \<Rightarrow> bool" where
  "contiguous s [] e \<longleftrightarrow> s = e"
| "contiguous s ((lo, hi) # r) e \<longleftrightarrow> lo = s \<and> lo \<le> hi \<and> contiguous (hi + 1) r e"

lemma span_loop_spans:
  assumes "0 < step" and "target + step < 2 ^ 64"
  shows "span_loop s target step acc = Some (acc @ spans s target step)"
  using assms
proof (induction s target step arbitrary: acc rule: spans.induct)
  case (1 s t k)
  show ?case
  proof (cases "s \<le> t")
    case True
    with "1.prems" have sum: "u64_add s k = s + k" by (simp add: u64_add_exact)
    have e: "u64_sub (u64_add s k) 1 = s + k - 1"
      unfolding sum using True "1.prems" by (intro u64_sub_exact) auto
    have nx: "u64_add (min (s + k - 1) t) 1 = min (s + k - 1) t + 1"
      using True "1.prems" by (intro u64_add_exact) auto
    have "span_loop s t k acc = span_loop (min (s + k - 1) t + 1) t k (acc @ [(s, min (s + k - 1) t)])"
      using True by (subst span_loop.simps) (simp only: e nx if_True)
    then show ?thesis
      using "1.IH" "1.prems" True by (simp add: spans.simps[of s t k])
  next
    case False
    then show ?thesis by (subst span_loop.simps) (simp add: spans.simps[of s t k])
  qed
qed

lemma plan_ranges_spans:
  "0 < step \<Longrightarrow> target + step < 2 ^ 64 \<Longrightarrow> plan_ranges next target step = Some (spans next target step)"
  by (simp add: plan_ranges_def span_loop_spans)

lemma blocks_of_spans: "0 < k \<Longrightarrow> blocks_of (spans s t k) = [s..<Suc t]"
proof (induction s t k rule: spans.induct)
  case (1 s t k)
  show ?case
  proof (cases "t < s")
    case False
    let ?e = "min (s + k - 1) t"
    have "blocks_of (spans (?e + 1) t k) = [?e + 1..<Suc t]" using 1 False by simp
    then have "blocks_of (spans s t k) = [s..<Suc ?e] @ [Suc ?e..<Suc t]"
      using False "1.prems" by (simp add: spans.simps[of s t k] blocks_of_def)
    also have "\<dots> = [s..<Suc t]"
      using False "1.prems" by (intro upt_split) auto
    finally show ?thesis .
  qed (use "1.prems" in \<open>simp add: spans.simps[of s t k] blocks_of_def\<close>)
qed

lemma spans_width: "(lo, hi) \<in> set (spans s t k) \<Longrightarrow> s \<le> lo \<and> lo \<le> hi \<and> hi \<le> t \<and> hi < lo + k"
proof (induction s t k rule: spans.induct)
  case (1 s t k)
  from "1.prems" have nz: "\<not> (k = 0 \<or> t < s)" by (auto simp: spans.simps[of s t k] split: if_splits)
  with "1.prems" consider "(lo, hi) = (s, min (s + k - 1) t)"
    | "(lo, hi) \<in> set (spans (min (s + k - 1) t + 1) t k)"
    by (auto simp: spans.simps[of s t k])
  then show ?case
  proof cases
    case 1
    with nz show ?thesis by auto
  next
    case 2
    with "1.IH" nz show ?thesis by auto
  qed
qed

lemma contiguous_spans: "0 < k \<Longrightarrow> s \<le> t + 1 \<Longrightarrow> contiguous s (spans s t k) (t + 1)"
proof (induction s t k rule: spans.induct)
  case (1 s t k)
  then show ?case by (cases "t < s") (auto simp: spans.simps[of s t k])
qed

lemma contiguous_bounds: "contiguous s sp e \<Longrightarrow> s \<le> e \<and> (\<forall>(lo, hi) \<in> set sp. s \<le> lo \<and> lo \<le> hi \<and> hi < e)"
  by (induction s sp e rule: contiguous.induct) fastforce+

lemma contiguous_distinct: "contiguous s sp e \<Longrightarrow> distinct (map fst sp)"
proof (induction s sp e rule: contiguous.induct)
  case (2 s lo hi r e)
  then have "contiguous (hi + 1) r e" by simp
  then have "\<forall>(lo', hi') \<in> set r. hi + 1 \<le> lo'" using contiguous_bounds by fastforce
  with 2 show ?case by fastforce
qed simp

lemma contiguous_blocks: "contiguous s sp e \<Longrightarrow> blocks_of sp = [s..<e]"
proof (induction s sp e rule: contiguous.induct)
  case (2 s lo hi r e)
  then have "blocks_of ((lo, hi) # r) = [s..<hi + 1] @ [hi + 1..<e]" by (simp add: blocks_of_def)
  also have "\<dots> = [s..<e]" using 2 contiguous_bounds[of "hi + 1" r e] by (intro upt_split) auto
  finally show ?case .
qed (simp add: blocks_of_def)

section \<open>Lemmas on the tracker\<close>

declare prefix_drain.simps [simp del]

lemma map_of_waiting_remove [simp]: "map_of (waiting_remove k w) = (map_of w)(k := None)"
  unfolding waiting_remove_def by (induction w) (auto simp: fun_eq_iff)

lemma map_of_waiting_insert [simp]: "map_of (waiting_insert k v w) = (map_of w)(k \<mapsto> v)"
  using map_of_waiting_remove[of k w] by (simp add: waiting_insert_def waiting_remove_def)

text \<open>
  The specification: walk the planned ranges in order while they are committed.
  \<open>prefix_end\<close> is the start of the first range not committed, \<open>prefix_best\<close> the
  best block seen on the way. \<open>val\<close> gives each range start its end and last matched
  block.
\<close>

fun prefix_end :: "nat \<Rightarrow> (nat \<times> nat) list \<Rightarrow> nat set \<Rightarrow> nat" where
  "prefix_end s [] D = s"
| "prefix_end s ((lo, hi) # r) D = (if lo \<in> D then prefix_end (hi + 1) r D else s)"

fun prefix_best :: "(nat \<times> hash) option \<Rightarrow> (nat \<times> nat) list \<Rightarrow> nat set
    \<Rightarrow> (nat \<Rightarrow> (height \<times> hash) option) \<Rightarrow> (nat \<times> hash) option" where
  "prefix_best b [] D lb = b"
| "prefix_best b ((lo, hi) # r) D lb =
     (if lo \<in> D then prefix_best (best_update b (lb lo)) r D lb else b)"

text \<open>The waiting ranges are the committed ones at or above the frontier.\<close>

definition waiting_ok :: "(nat \<times> nat) list \<Rightarrow> nat set \<Rightarrow> (nat \<Rightarrow> (height \<times> hash) option)
    \<Rightarrow> prefix_tracker \<Rightarrow> bool" where
  "waiting_ok sp D lb p \<longleftrightarrow>
     map_of (pt_waiting p) =
       (\<lambda>k. if k \<in> D \<and> pt_frontier p \<le> k
            then map_option (\<lambda>hi. (hi, lb k)) (map_of sp k) else None)"

lemma waiting_ok_frontier:
  "waiting_ok sp D lb p \<Longrightarrow> map_of (pt_waiting p) (pt_frontier p) =
     (if pt_frontier p \<in> D then map_option (\<lambda>hi. (hi, lb (pt_frontier p))) (map_of sp (pt_frontier p))
      else None)"
  by (simp add: waiting_ok_def)

text \<open>\<open>suf\<close> is what the plan still has from the frontier on.\<close>

definition plan_suffix :: "(nat \<times> nat) list \<Rightarrow> nat \<Rightarrow> (nat \<times> nat) list \<Rightarrow> nat \<Rightarrow> bool" where
  "plan_suffix sp f suf e \<longleftrightarrow> contiguous f suf e \<and> (\<forall>k \<ge> f. map_of sp k = map_of suf k)"

lemma map_of_contiguous_None: "contiguous f suf e \<Longrightarrow> k < f \<or> e \<le> k \<Longrightarrow> map_of suf k = None"
  using contiguous_bounds[of f suf e] by (fastforce simp: map_of_eq_None_iff)

lemma plan_suffix_Nil: "plan_suffix sp f [] e \<Longrightarrow> map_of sp f = None"
  by (simp add: plan_suffix_def)

lemma plan_suffix_Cons:
  assumes "plan_suffix sp f ((lo, hi) # suf) e"
  shows "lo = f" and "lo \<le> hi" and "hi < e" and "map_of sp f = Some hi"
    and "plan_suffix sp (hi + 1) suf e"
    and "\<And>k. f < k \<Longrightarrow> k \<le> hi \<Longrightarrow> map_of sp k = None"
proof -
  have ch: "contiguous (hi + 1) suf e" and lo: "lo = f" "lo \<le> hi"
    and sp: "\<And>k. k \<ge> f \<Longrightarrow> map_of sp k = map_of ((lo, hi) # suf) k"
    using assms by (auto simp: plan_suffix_def)
  show "lo = f" "lo \<le> hi" by (fact lo)+
  show "hi < e" using contiguous_bounds[OF ch] by simp
  show "map_of sp f = Some hi" using sp[of f] lo by simp
  show "map_of sp k = None" if "f < k" "k \<le> hi" for k
    using sp[of k] that lo map_of_contiguous_None[OF ch, of k] by simp
  show "plan_suffix sp (hi + 1) suf e" using ch sp lo by (auto simp: plan_suffix_def)
qed

lemma prefix_end_ge: "contiguous f suf e \<Longrightarrow> f \<le> prefix_end f suf D"
  by (induction f suf e rule: contiguous.induct) fastforce+

text \<open>What one \<open>while let\<close> loop of \<open>record\<close> achieves.\<close>

definition drain_post :: "(nat \<times> nat) list \<Rightarrow> nat set \<Rightarrow> (nat \<Rightarrow> (height \<times> hash) option)
    \<Rightarrow> (nat \<times> nat) list \<Rightarrow> prefix_tracker \<Rightarrow> bool \<Rightarrow> bool \<times> prefix_tracker \<Rightarrow> bool" where
  "drain_post sp D lb suf p moved r \<longleftrightarrow> (case r of (moved', p') \<Rightarrow>
     pt_frontier p' = prefix_end (pt_frontier p) suf D
     \<and> pt_best p' = prefix_best (pt_best p) suf D lb
     \<and> waiting_ok sp D lb p'
     \<and> moved' = (moved \<or> pt_frontier p' \<noteq> pt_frontier p)
     \<and> pt_advanced_to p' = (if pt_frontier p' = pt_frontier p then pt_advanced_to p
                            else Some (pt_frontier p' - 1)))"

lemma prefix_drain_spec:
  assumes "plan_suffix sp (pt_frontier p) suf e" and "e < 2 ^ 64" and "waiting_ok sp D lb p"
  shows "drain_post sp D lb suf p moved (prefix_drain p moved)"
  using assms
proof (induction suf arbitrary: p moved)
  case Nil
  then have "map_of (pt_waiting p) (pt_frontier p) = None"
    by (simp add: waiting_ok_frontier plan_suffix_Nil)
  with Nil.prems(3) show ?case by (simp add: prefix_drain.simps[of p] drain_post_def)
next
  case (Cons r suf)
  obtain lo hi where r: "r = (lo, hi)" by fastforce
  note ps = plan_suffix_Cons[OF Cons.prems(1)[unfolded r]]
  show ?case
  proof (cases "lo \<in> D")
    case False
    with ps(1) Cons.prems(3) have "map_of (pt_waiting p) (pt_frontier p) = None"
      by (simp add: waiting_ok_frontier)
    with False Cons.prems(3) show ?thesis
      by (simp add: prefix_drain.simps[of p] drain_post_def r)
  next
    case True
    define p1 where "p1 = p\<lparr>pt_waiting := waiting_remove (pt_frontier p) (pt_waiting p),
      pt_best := best_update (pt_best p) (lb lo), pt_frontier := hi + 1, pt_advanced_to := Some hi\<rparr>"
    have "u64_add hi 1 = hi + 1" using ps(3) Cons.prems(2) by (intro u64_add_exact) simp
    with True ps(1,4) Cons.prems(3) have step: "prefix_drain p moved = prefix_drain p1 True"
      by (subst prefix_drain.simps) (simp add: waiting_ok_frontier p1_def)
    have "waiting_ok sp D lb p1"
      using Cons.prems(3) ps(1,2,6) unfolding waiting_ok_def p1_def
      by (auto simp: fun_eq_iff not_less_eq_eq)
    then have "drain_post sp D lb suf p1 True (prefix_drain p1 True)"
      using ps(5) Cons.prems(2) by (intro Cons.IH) (simp_all add: p1_def)
    moreover have "hi + 1 \<le> prefix_end (hi + 1) suf D"
      using ps(5) by (intro prefix_end_ge) (auto simp: plan_suffix_def)
    ultimately show ?thesis
      using True ps(1,2) by (auto simp: step drain_post_def r p1_def)
  qed
qed

text \<open>The plan splits at the frontier into the committed prefix and the rest.\<close>

lemma contiguous_committed:
  "contiguous s sp e \<Longrightarrow> contiguous s (takeWhile (\<lambda>r. fst r \<in> D) sp) (prefix_end s sp D)"
  by (induction s sp e rule: contiguous.induct) auto

lemma contiguous_open:
  "contiguous s sp e \<Longrightarrow> contiguous (prefix_end s sp D) (dropWhile (\<lambda>r. fst r \<in> D) sp) e"
  by (induction s sp e rule: contiguous.induct) auto

lemma prefix_end_mono:
  "D \<subseteq> D' \<Longrightarrow>
   prefix_end s sp D' = prefix_end (prefix_end s sp D) (dropWhile (\<lambda>r. fst r \<in> D) sp) D'"
  by (induction s sp D rule: prefix_end.induct) auto

lemma prefix_best_mono:
  "D \<subseteq> D' \<Longrightarrow>
   prefix_best b sp D' lb = prefix_best (prefix_best b sp D lb) (dropWhile (\<lambda>r. fst r \<in> D) sp) D' lb"
  by (induction b sp D lb rule: prefix_best.induct) auto

text \<open>The invariant of the tracker over any sequence of commits.\<close>

definition tracker_inv :: "nat \<Rightarrow> (nat \<times> nat) list \<Rightarrow> nat set \<Rightarrow> (nat \<Rightarrow> (height \<times> hash) option)
    \<Rightarrow> prefix_tracker \<Rightarrow> bool" where
  "tracker_inv start sp D lb p \<longleftrightarrow>
     pt_frontier p = prefix_end start sp D \<and> pt_best p = prefix_best None sp D lb
     \<and> waiting_ok sp D lb p
     \<and> pt_advanced_to p = (if pt_frontier p = start then None else Some (pt_frontier p - 1))"

lemma tracker_inv_new: "contiguous start sp e \<Longrightarrow> tracker_inv start sp {} lb (prefix_new start)"
  by (cases "(start, sp, e)" rule: contiguous.cases)
    (simp_all add: tracker_inv_def prefix_new_def waiting_ok_def fun_eq_iff)

lemma tracker_inv_record:
  assumes ch: "contiguous start sp e" and e: "e < 2 ^ 64" and inv: "tracker_inv start sp D lb p"
    and r: "(lo, hi) \<in> set sp" "lo \<notin> D" and rec: "prefix_record lo hi (lb lo) p = (out, p')"
  shows "tracker_inv start sp (insert lo D) lb p'"
    and "out = (if pt_frontier p' = pt_frontier p then Returns None
                else Returns (Some (pt_frontier p' - 1, best_hash p')))"
proof -
  let ?P = "\<lambda>r. fst r \<in> D"
  define pre suf where "pre = takeWhile ?P sp" and "suf = dropWhile ?P sp"
  have f: "prefix_end start sp D = pt_frontier p" and bst: "prefix_best None sp D lb = pt_best p"
    using inv by (simp_all add: tracker_inv_def)
  have sp: "sp = pre @ suf" by (simp add: pre_def suf_def)
  have pre: "contiguous start pre (pt_frontier p)" "fst ` set pre \<subseteq> D"
    using contiguous_committed[OF ch, of D] f by (auto simp: pre_def dest: set_takeWhileD)
  have suf: "contiguous (pt_frontier p) suf e" using contiguous_open[OF ch, of D] f by (simp add: suf_def)
  have mono: "prefix_end start sp (insert lo D) = prefix_end (pt_frontier p) suf (insert lo D)"
      "prefix_best None sp (insert lo D) lb = prefix_best (pt_best p) suf (insert lo D) lb"
    using prefix_end_mono[of D "insert lo D" start sp] prefix_best_mono[of D "insert lo D" None sp lb]
    by (auto simp: f bst suf_def)
  have "map_of pre k = None" if "pt_frontier p \<le> k" for k
    using map_of_contiguous_None[OF pre(1)] that by blast
  then have ps: "plan_suffix sp (pt_frontier p) suf e"
    using suf by (simp add: plan_suffix_def sp map_add_def)
  define q where "q = p\<lparr>pt_waiting := waiting_insert lo (hi, lb lo) (pt_waiting p)\<rparr>"
  have "(lo, hi) \<notin> set pre" using r(2) pre(2) by force
  then have "(lo, hi) \<in> set suf" using r(1) sp by simp
  then have lo: "pt_frontier p \<le> lo" using contiguous_bounds[OF suf] by fastforce
  have hi: "map_of sp lo = Some hi" using r(1) contiguous_distinct[OF ch] by simp
  have "waiting_ok sp (insert lo D) lb q"
    using inv lo hi unfolding tracker_inv_def waiting_ok_def q_def by (auto simp: fun_eq_iff)
  then have post: "drain_post sp (insert lo D) lb suf q False (prefix_drain q False)"
    using ps e by (intro prefix_drain_spec) (simp_all add: q_def)
  obtain moved p1 where d: "prefix_drain q False = (moved, p1)" by fastforce
  have ge: "start \<le> pt_frontier p" "pt_frontier p \<le> prefix_end (pt_frontier p) suf (insert lo D)"
    using contiguous_bounds[OF pre(1)] prefix_end_ge[OF suf] by simp_all
  have p': "p' = p1" and out: "out = (if moved then case pt_advanced_to p1 of None \<Rightarrow> Panics
      | Some h \<Rightarrow> Returns (Some (h, best_hash p1)) else Returns None)"
    using rec d by (auto simp: prefix_record_def q_def split: option.splits if_splits)
  show "tracker_inv start sp (insert lo D) lb p'"
    using post d inv mono ge unfolding p' tracker_inv_def drain_post_def
    by (auto simp: q_def)
  show "out = (if pt_frontier p' = pt_frontier p then Returns None
                else Returns (Some (pt_frontier p' - 1, best_hash p')))"
    using post d inv unfolding p' out drain_post_def by (auto simp: q_def)
qed

lemma prefix_run_snoc:
  "prefix_run (cs @ [(lo, hi, l)]) p = snd (prefix_record lo hi l (prefix_run cs p))"
  by (simp add: prefix_run_def)

definition commits_of_plan :: "(nat \<times> nat) list \<Rightarrow> (nat \<times> nat \<times> (height \<times> hash) option) list \<Rightarrow> bool" where
  "commits_of_plan sp cs \<longleftrightarrow> (\<forall>(lo, hi, l) \<in> set cs. (lo, hi) \<in> set sp) \<and> distinct (map fst cs)"

definition last_block_of :: "(nat \<times> nat \<times> (height \<times> hash) option) list \<Rightarrow> nat \<Rightarrow> (height \<times> hash) option" where
  "last_block_of cs k = (case map_of cs k of None \<Rightarrow> None | Some (hi, l) \<Rightarrow> l)"

lemma prefix_run_inv:
  assumes "contiguous start sp e" and "e < 2 ^ 64"
    and "\<forall>(lo, hi, l) \<in> set cs. (lo, hi) \<in> set sp \<and> lb lo = l" and "distinct (map fst cs)"
  shows "tracker_inv start sp (fst ` set cs) lb (prefix_run cs (prefix_new start))"
  using assms
proof (induction cs rule: rev_induct)
  case Nil
  then show ?case using tracker_inv_new by (simp add: prefix_run_def)
next
  case (snoc c cs)
  obtain lo hi l where c: "c = (lo, hi, l)" by (metis surj_pair)
  have new: "(lo, hi) \<in> set sp" "lo \<notin> fst ` set cs" "l = lb lo"
    using snoc.prems(3,4) by (auto simp: c)
  have "tracker_inv start sp (fst ` set cs) lb (prefix_run cs (prefix_new start))"
    using snoc by simp
  from tracker_inv_record(1)[OF snoc.prems(1,2) this new(1,2) prod.collapse[symmetric]]
  show ?case by (simp add: c prefix_run_snoc new(3))
qed

lemma commits_last_block:
  "commits_of_plan sp cs \<Longrightarrow> \<forall>(lo, hi, l) \<in> set cs. (lo, hi) \<in> set sp \<and> last_block_of cs lo = l"
  by (clarsimp simp: commits_of_plan_def last_block_of_def) (drule (1) bspec, simp)

lemma contiguous_take_end: "contiguous s sp e \<Longrightarrow> sp \<noteq> [] \<Longrightarrow> e = snd (last sp) + 1"
  by (induction s sp e rule: contiguous.induct) auto

lemma best_update_Some:
  "best_update b l = Some (h, x) \<Longrightarrow>
     (b = Some (h, x) \<or> l = Some (h, x)) \<and> (\<forall>h' x'. b = Some (h', x') \<or> l = Some (h', x') \<longrightarrow> h' \<le> h)"
  by (auto simp: best_update_def split: option.splits prod.splits if_splits)

lemma best_update_None: "best_update b l = None \<longleftrightarrow> b = None \<and> l = None"
  by (auto simp: best_update_def split: option.splits prod.splits if_splits)

text \<open>The best block is the highest matched block of the committed prefix.\<close>

lemma prefix_best_max:
  assumes "prefix_best b sp D lb = Some (h, x)"
  shows "b = Some (h, x) \<or> (\<exists>r \<in> set (takeWhile (\<lambda>r. fst r \<in> D) sp). lb (fst r) = Some (h, x))"
    and "\<forall>r \<in> set (takeWhile (\<lambda>r. fst r \<in> D) sp). \<forall>h' x'. lb (fst r) = Some (h', x') \<longrightarrow> h' \<le> h"
    and "\<forall>h' x'. b = Some (h', x') \<longrightarrow> h' \<le> h"
  using assms
proof (induction b sp D lb rule: prefix_best.induct)
  case (2 b lo hi r D lb)
  {
    case 1
    then show ?case using "2.IH"(1) best_update_Some[of b "lb lo"] by (fastforce split: if_splits)
  next
    case 2
    then show ?case using "2.IH"(2,3) best_update_Some[of b "lb lo" _ _] best_update_None[of b "lb lo"]
      by (cases "best_update b (lb lo)") (fastforce split: if_splits)+
  next
    case 3
    then show ?case using "2.IH"(3) best_update_Some[of b "lb lo"] best_update_None[of b "lb lo"]
      by (cases "best_update b (lb lo)") (fastforce split: if_splits)+
  }
qed simp_all

section \<open>Properties\<close>

text \<open>
  Range planning: for a positive step and a target that leaves room below the top of the
  \<open>u64\<close> range the loop of \<open>plan_ranges\<close> ends, and its ranges are non-empty, at most
  \<open>step\<close> wide, and cover every height of \<open>[next, target]\<close> exactly once in ascending
  order.
\<close>

theorem plan_ranges_partition:
  assumes "0 < step" and "target + step < 2 ^ 64"
  shows "\<exists>ranges. plan_ranges next target step = Some ranges
     \<and> blocks_of ranges = [next..<Suc target]
     \<and> (\<forall>(lo, hi) \<in> set ranges. lo \<le> hi \<and> hi < lo + step)"
proof (intro exI conjI)
  show "plan_ranges next target step = Some (spans next target step)"
    using assms by (rule plan_ranges_spans)
  show "blocks_of (spans next target step) = [next..<Suc target]"
    using assms(1) by (rule blocks_of_spans)
  show "\<forall>(lo, hi) \<in> set (spans next target step). lo \<le> hi \<and> hi < lo + step"
    using spans_width by fastforce
qed

theorem plan_ranges_partition_witness:
  "\<exists>ranges. plan_ranges 1 25 10 = Some ranges \<and> blocks_of ranges = [1..<Suc 25]
     \<and> (\<forall>(lo, hi) \<in> set ranges. lo \<le> hi \<and> hi < lo + 10)"
  by (rule plan_ranges_partition) simp_all

text \<open>
  C29. The cursor only ever covers a gap-free prefix. Take any plan and let the writer commit
  any subset of its ranges, each at most once and in any order. Then the tracker has
  advanced exactly over the longest prefix of the plan whose ranges are all committed: all
  of those are committed, the next planned range (if any) is not, and \<open>advanced_to\<close> is
  the end of the last range of that prefix. The stamped block is the highest matched block
  of that prefix.
\<close>

theorem prefix_tracker_gap_free:
  assumes "0 < step" and "target + step < 2 ^ 64" and "start \<le> target + 1"
    and "plan_ranges start target step = Some plan" and "commits_of_plan plan cs"
    and "p = prefix_run cs (prefix_new start)"
  shows "\<exists>n \<le> length plan.
      (\<forall>r \<in> set (take n plan). fst r \<in> fst ` set cs)
      \<and> (n < length plan \<longrightarrow> fst (plan ! n) \<notin> fst ` set cs)
      \<and> pt_advanced_to p = (if n = 0 then None else Some (snd (plan ! (n - 1))))
      \<and> (\<forall>h x. pt_best p = Some (h, x) \<longrightarrow>
            (\<exists>r \<in> set (take n plan). last_block_of cs (fst r) = Some (h, x))
            \<and> (\<forall>r \<in> set (take n plan). \<forall>h' x'. last_block_of cs (fst r) = Some (h', x') \<longrightarrow> h' \<le> h))"
proof -
  let ?D = "fst ` set cs" and ?lb = "last_block_of cs"
  let ?pre = "takeWhile (\<lambda>r. fst r \<in> ?D) plan"
  define n where "n = length ?pre"
  have plan: "plan = spans start target step"
    using assms(1,2,4) plan_ranges_spans by simp
  have ch: "contiguous start plan (target + 1)" unfolding plan using assms(1,3) by (rule contiguous_spans)
  have inv: "tracker_inv start plan ?D ?lb p"
    unfolding assms(6)
    by (rule prefix_run_inv[OF ch]) (use assms(1,2,5) commits_last_block in \<open>auto simp: commits_of_plan_def\<close>)
  have take_n: "take n plan = ?pre" unfolding n_def by (rule takeWhile_eq_take[symmetric])
  have pre: "contiguous start ?pre (pt_frontier p)"
    using contiguous_committed[OF ch, of ?D] inv by (simp add: tracker_inv_def)
  have "pt_advanced_to p = (if n = 0 then None else Some (snd (plan ! (n - 1))))"
  proof (cases "?pre = []")
    case True
    then show ?thesis using pre inv by (simp add: n_def tracker_inv_def)
  next
    case False
    then have "pt_frontier p = snd (last ?pre) + 1" using contiguous_take_end pre by blast
    moreover have "last ?pre = plan ! (n - 1)"
      using False take_n by (metis last_conv_nth length_greater_0_conv diff_less n_def nth_take zero_less_one)
    moreover have "pt_frontier p \<noteq> start"
      using pre False by (cases ?pre) (fastforce dest: contiguous_bounds)+
    ultimately show ?thesis using inv False by (simp add: n_def tracker_inv_def)
  qed
  moreover have "fst (plan ! n) \<notin> ?D" if "n < length plan"
    using that nth_length_takeWhile[of "\<lambda>r. fst r \<in> ?D" plan] by (simp add: n_def)
  moreover have "\<forall>r \<in> set (take n plan). fst r \<in> ?D"
    unfolding take_n by (auto dest: set_takeWhileD)
  moreover have "n \<le> length plan" by (simp add: n_def length_takeWhile_le)
  ultimately show ?thesis
    using prefix_best_max[of None plan ?D ?lb] inv unfolding take_n[symmetric] tracker_inv_def
    by (intro exI[of _ n]) auto
qed

definition example_plan :: "(nat \<times> nat) list" where
  "example_plan = [(1, 10), (11, 20), (21, 30)]"

definition example_commits :: "(nat \<times> nat \<times> (height \<times> hash) option) list" where
  "example_commits = [(11, 20, Some (15, [7])), (1, 10, None)]"

lemma plan_1_30: "plan_ranges 1 30 10 = Some example_plan"
  by (simp add: plan_ranges_spans spans.simps example_plan_def)

theorem prefix_tracker_gap_free_witness:
  "\<exists>n \<le> length example_plan.
      (\<forall>r \<in> set (take n example_plan). fst r \<in> fst ` set example_commits)
      \<and> (n < length example_plan \<longrightarrow>
          fst (example_plan ! n) \<notin> fst ` set example_commits)
      \<and> pt_advanced_to (prefix_run example_commits (prefix_new 1)) =
          (if n = 0 then None else Some (snd (example_plan ! (n - 1))))
      \<and> (\<forall>h x. pt_best (prefix_run example_commits (prefix_new 1)) = Some (h, x) \<longrightarrow>
            (\<exists>r \<in> set (take n example_plan). last_block_of example_commits (fst r) = Some (h, x))
            \<and> (\<forall>r \<in> set (take n example_plan). \<forall>h' x'.
                 last_block_of example_commits (fst r) = Some (h', x') \<longrightarrow> h' \<le> h))"
  by (rule prefix_tracker_gap_free[of 10 30 1, OF _ _ _ plan_1_30 _ refl])
    (simp_all add: commits_of_plan_def example_commits_def example_plan_def)

text \<open>
  Progress: once every range of a non-empty plan is committed, in whatever order, the cursor
  has reached the target.
\<close>

theorem prefix_tracker_completes:
  assumes "0 < step" and "target + step < 2 ^ 64" and "start \<le> target"
    and "plan_ranges start target step = Some plan" and "commits_of_plan plan cs"
    and "fst ` set plan \<subseteq> fst ` set cs"
  shows "pt_advanced_to (prefix_run cs (prefix_new start)) = Some target"
proof -
  have plan: "plan = spans start target step"
    using assms(1,2,4) plan_ranges_spans by simp
  have ch: "contiguous start plan (target + 1)"
    unfolding plan using assms(1,3) by (intro contiguous_spans) simp_all
  have "tracker_inv start plan (fst ` set cs) (last_block_of cs) (prefix_run cs (prefix_new start))"
    by (rule prefix_run_inv[OF ch]) (use assms(1,2,5) commits_last_block in \<open>auto simp: commits_of_plan_def\<close>)
  moreover have "prefix_end start plan (fst ` set cs) = target + 1"
    using ch assms(6) by (induction start plan "target + 1" rule: contiguous.induct) auto
  ultimately show ?thesis using assms(3) by (simp add: tracker_inv_def)
qed

theorem prefix_tracker_completes_witness:
  "pt_advanced_to (prefix_run [(21, 30, None), (11, 20, Some (15, [7])), (1, 10, None)] (prefix_new 1)) = Some 30"
  by (rule prefix_tracker_completes[of 10, OF _ _ _ plan_1_30]) (simp_all add: commits_of_plan_def example_plan_def)

text \<open>
  The size of one fetch iteration: the bound never passes the safe tip; when it fetches it
  plans at least one height of a non-empty window and at most \<open>range_concurrency\<close> ranges'
  worth of heights.
\<close>

theorem fetch_target_bounds:
  assumes "next \<le> safe" and "0 < step" and "0 < conc" and "next + step * conc < 2 ^ 64"
  shows "fetch_target safe next step conc must_fetch \<le> safe
    \<and> next \<le> fetch_target safe next step conc must_fetch
    \<and> (must_fetch \<longrightarrow> fetch_target safe next step conc must_fetch < next + step * conc)"
proof -
  have m: "u64_mul step conc = step * conc" using assms(4) by (intro u64_mul_exact) simp
  have a: "u64_add next (step * conc) = next + step * conc" using assms(4) by (rule u64_add_exact)
  obtain k where k: "step * conc = Suc k" using assms(2,3) by (cases "step * conc") auto
  then have pos: "0 < step * conc" by simp
  have t: "u64_sub (u64_add next (u64_mul step conc)) 1 = next + step * conc - 1"
    unfolding m a using assms(4) pos by (intro u64_sub_exact) (simp_all add: Suc_leI)
  show ?thesis
    unfolding fetch_target_def t using assms(1) k pos by (simp add: min_less_iff_disj)
qed

theorem fetch_target_bounds_witness:
  "fetch_target 1000 1 10 4 True \<le> 1000 \<and> 1 \<le> fetch_target 1000 1 10 4 True
   \<and> fetch_target 1000 1 10 4 True < 1 + 10 * 4"
  using fetch_target_bounds[of 1 1000 10 4 True] by simp

end
