(* ===== verification/Rpc_Client.thy ===== *)
theory Rpc_Client
  imports Retry Plan
begin

text \<open>
  \<open>crates/source/src/map.rs\<close> and the \<open>ChainSource\<close> methods of
  \<open>crates/source/src/client.rs\<close> that talk to the JSON-RPC provider: the log mapping,
  the density-seeded and halving \<open>eth_getLogs\<close> loop, \<open>head\<close>, \<open>block_hash\<close> and
  \<open>subscribe\<close>. The provider (the alloy crate and the node behind it) is the parameter
  record \<open>provider\<close>: each call reads and changes the endpoint state \<open>'n\<close> and
  returns a result or an error text.
\<close>

section \<open>The provider\<close>

record eth_log =
  lg_block_number :: "nat option"
  lg_block_hash :: "bytes option"
  lg_log_index :: "nat option"
  lg_transaction_hash :: "bytes option"
  lg_transaction_index :: "nat option"
  lg_address :: bytes
  lg_topics :: "bytes list"
  lg_data :: bytes
  lg_removed :: bool

text \<open>A log filter; an empty set matches everything.\<close>

record log_filter =
  lf_addresses :: "bytes list"
  lf_topic0 :: "bytes list"

record eth_tx =
  et_hash :: bytes
  et_from :: bytes
  et_to :: "bytes option"
  et_value :: nat
  et_input :: bytes
  et_gas_limit :: nat
  et_nonce :: nat
  et_gas_price :: "nat option"

record eth_block =
  bk_hash :: bytes
  bk_number :: nat
  bk_parent_hash :: bytes
  bk_timestamp :: nat
  bk_txns :: "eth_tx list"

record eth_receipt =
  rc_status :: bool
  rc_gas_used :: nat
  rc_effective_gas_price :: nat
  rc_contract_address :: "bytes option"

text \<open>
  The two batch calls return one result per request, in request order, once the round trip
  itself succeeded.
\<close>

record 'n provider =
  p_get_block_number :: "'n \<Rightarrow> (string + nat) \<times> 'n"
  p_get_logs :: "log_filter \<Rightarrow> nat \<Rightarrow> nat \<Rightarrow> 'n \<Rightarrow> (string + eth_log list) \<times> 'n"
  p_get_block_by_number :: "nat \<Rightarrow> 'n \<Rightarrow> (string + eth_block option) \<times> 'n"
  p_subscribe_logs :: "log_filter \<Rightarrow> 'n \<Rightarrow> (string + eth_log list) \<times> 'n"
  p_batch_blocks :: "nat list \<Rightarrow> 'n \<Rightarrow> (string + (string + eth_block option) list) \<times> 'n"
  p_batch_receipts :: "bytes list \<Rightarrow> 'n \<Rightarrow> (string + (string + eth_receipt option) list) \<times> 'n"

section \<open>Mapping\<close>

definition map_log :: "chain_id \<Rightarrow> eth_log \<Rightarrow> (source_error, raw_record) res" where
  "map_log cid log =
     (case lg_block_number log of None \<Rightarrow> Err (Malformed ''log missing block_number'')
      | Some height \<Rightarrow>
     (case lg_block_hash log of None \<Rightarrow> Err (Malformed ''log missing block_hash'')
      | Some block_hash \<Rightarrow>
     (case lg_log_index log of None \<Rightarrow> Err (Malformed ''log missing log_index'')
      | Some index \<Rightarrow>
     (case lg_transaction_hash log of None \<Rightarrow> Err (Malformed ''log missing tx_hash'')
      | Some tx_hash \<Rightarrow>
          Ok \<lparr>rr_chain_id = cid, rr_height = height, rr_block_hash = block_hash, rr_index = index,
              rr_address = lg_address log, rr_selectors = lg_topics log, rr_data = lg_data log,
              rr_tx_id = tx_hash,
              rr_tx_index = (case lg_transaction_index log of None \<Rightarrow> 0 | Some i \<Rightarrow> i),
              rr_inner_index = None\<rparr>))))"

text \<open>\<open>Address::from_slice\<close> and \<open>B256::from_slice\<close> panic on a wrong length.\<close>

definition base_filter :: "record_filter \<Rightarrow> log_filter outcome" where
  "base_filter f =
     (if (\<exists>a \<in> set (rf_addresses f). length a \<noteq> 20) \<or> (\<exists>h \<in> set (rf_selectors f). length h \<noteq> 32)
      then Panics
      else Returns \<lparr>lf_addresses = rf_addresses f, lf_topic0 = rf_selectors f\<rparr>)"

section \<open>The source\<close>

record 'n rpc_source =
  rs_chain_id :: chain_id
  rs_provider :: "'n provider"
  rs_ws :: "'n provider option"
  rs_limiter :: limiter
  rs_plan :: plan_profile
  rs_cost_model :: cost_model
  rs_aux_concurrency :: nat

text \<open>\<open>connect\<close> after its two connections succeeded.\<close>

definition rpc_source_new :: "chain_id \<Rightarrow> 'n provider \<Rightarrow> 'n provider option \<Rightarrow> plan_profile
    \<Rightarrow> cost_model \<Rightarrow> nat \<Rightarrow> 'n rpc_source" where
  "rpc_source_new cid http ws plan cm aux_concurrency =
     \<lparr>rs_chain_id = cid, rs_provider = http, rs_ws = ws, rs_limiter = limiter_from_plan plan,
      rs_plan = plan, rs_cost_model = cm, rs_aux_concurrency = max aux_concurrency 1\<rparr>"

definition cu_for :: "'n rpc_source \<Rightarrow> rpc_call \<Rightarrow> nat" where
  "cu_for src call = (let u = fst (cm_cost (rs_cost_model src) call) in if u < 2 ^ 32 then u else 2 ^ 32 - 1)"

definition enter :: "'n rpc_source \<Rightarrow> rpc_call \<Rightarrow> 'n rpc \<Rightarrow> 'n rpc" where
  "enter src call s = s\<lparr>ledger := meter (rs_cost_model src) call (ledger s)\<rparr>"

text \<open>A provider call on the endpoint state.\<close>

definition on_net :: "('n \<Rightarrow> (string + 'a) \<times> 'n) \<Rightarrow> ('n rpc, string, 'a) m" where
  "on_net call s = (case call (net s) of
     (Inl e, n) \<Rightarrow> (Err e, s\<lparr>net := n\<rparr>)
   | (Inr v, n) \<Rightarrow> (Ok v, s\<lparr>net := n\<rparr>))"

text \<open>The closure shared by the call sites: compute units, one request permit, metering,
  then the call.\<close>

definition gated :: "'n rpc_source \<Rightarrow> rpc_call \<Rightarrow> ('n \<Rightarrow> (string + 'a) \<times> 'n) \<Rightarrow> ('n rpc, string, 'a) m" where
  "gated src call io s = on_net io (enter src call (acquire (acquire_cu (rs_limiter src) (cu_for src call) s)))"

definition source_result :: "('s, source_error, 'a) m \<Rightarrow> ('s, domain_error, 'a) m" where
  "source_result f s = (let (r, s') = f s in (map_err source_error_to_domain r, s'))"

definition head :: "'n rpc_source \<Rightarrow> ('n rpc, domain_error, nat) m" where
  "head src = source_result (\<lambda>s.
     let (r, s') = gated src BlockNumber (p_get_block_number (rs_provider src)) s
     in (map_err Transport r, s'))"

definition block_hash :: "'n rpc_source \<Rightarrow> nat \<Rightarrow> ('n rpc, domain_error, hash option) m" where
  "block_hash src height = source_result (\<lambda>s.
     let (r, s') = with_retry (gated src (BlockByNumber 1 False)
                      (p_get_block_by_number (rs_provider src) height)) s
     in (map_ok (map_option bk_hash) r, s'))"

section \<open>Density\<close>

definition suggested_span :: "'n rpc_source \<Rightarrow> 'n rpc \<Rightarrow> nat" where
  "suggested_span src s =
     (let max_blocks = max (max_getlogs_blocks (rs_plan src)) 1;
          cap = max_getlogs_results (rs_plan src);
          d = density_milli s
      in if cap = 0 \<or> d = 0 then max_blocks
         else min (max (saturating_mul cap 800 div d) 1) max_blocks)"

definition record_density :: "nat \<Rightarrow> nat \<Rightarrow> 'n rpc \<Rightarrow> 'n rpc" where
  "record_density blocks logs s =
     (if blocks = 0 then s
      else let sample = saturating_mul logs 1000 div blocks; old = density_milli s
           in s\<lparr>density_milli :=
                 (if old = 0 then sample else u64_add (u64_mul old 7) sample div 8)\<rparr>)"

section \<open>Fetching records\<close>

definition get_logs :: "'n rpc_source \<Rightarrow> log_filter \<Rightarrow> nat \<Rightarrow> nat \<Rightarrow> ('n rpc, string, eth_log list) m" where
  "get_logs src base lo hi =
     gated src (GetLogs (u64_add (u64_sub hi lo) 1) 0) (p_get_logs (rs_provider src) base lo hi)"

text \<open>
  The \<open>while let Some((lo, hi)) = pending.pop()\<close> loop; the head of the list is the top of
  the stack.
\<close>

fun span_weight :: "nat \<times> nat \<Rightarrow> nat" where
  "span_weight (lo, hi) = 2 * (hi - lo) + 1"

partial_function (option) fetch_loop :: "'n rpc_source \<Rightarrow> log_filter \<Rightarrow> (nat \<times> nat) list
    \<Rightarrow> eth_log list \<Rightarrow> 'n rpc \<Rightarrow> ((source_error, eth_log list) res \<times> 'n rpc) option" where
  "fetch_loop src base pending logs s = (case pending of
     [] \<Rightarrow> Some (Ok logs, s)
   | (lo, hi) # rest \<Rightarrow>
      (case with_retry (get_logs src base lo hi) s of
        (Ok page, s') \<Rightarrow>
          if lo < hi \<and> 0 < max_getlogs_results (rs_plan src)
             \<and> max_getlogs_results (rs_plan src) \<le> length page
          then fetch_loop src base (fst (split_range lo hi) # snd (split_range lo hi) # rest) logs s'
          else fetch_loop src base rest (logs @ page)
                 (record_density (u64_add (u64_sub hi lo) 1) (length page) s')
      | (Err (Transport e), s') \<Rightarrow>
          if lo < hi \<and> is_range_cap_error e
          then fetch_loop src base (fst (split_range lo hi) # snd (split_range lo hi) # rest) logs s'
          else Some (Err (Transport e), s')
      | (Err e, s') \<Rightarrow> Some (Err e, s')
      | (Panic, s') \<Rightarrow> Some (Panic, s')))"

fun map_logs :: "chain_id \<Rightarrow> eth_log list \<Rightarrow> (source_error, raw_record list) res" where
  "map_logs cid [] = Ok []"
| "map_logs cid (l # ls) = and_then (map_log cid l) (\<lambda>r. map_ok ((#) r) (map_logs cid ls))"

text \<open>
  \<open>fetch_records\<close>; the seeding loop is the arithmetic of \<open>span_loop\<close>, and \<open>None\<close>
  means that a loop does not end.
\<close>

definition fetch_records :: "'n rpc_source \<Rightarrow> record_filter \<Rightarrow> nat \<Rightarrow> nat \<Rightarrow> 'n rpc
    \<Rightarrow> ((domain_error, raw_record list) res \<times> 'n rpc) option" where
  "fetch_records src filt from to s =
     (case base_filter filt of
       Panics \<Rightarrow> Some (Panic, s)
     | Returns base \<Rightarrow>
        (case span_loop from to (suggested_span src s) [] of
          None \<Rightarrow> None
        | Some pending \<Rightarrow>
           (case fetch_loop src base pending [] s of
             None \<Rightarrow> None
           | Some (r, s') \<Rightarrow>
               Some (map_err source_error_to_domain (and_then r (map_logs (rs_chain_id src))), s'))))"

section \<open>Subscription and capabilities\<close>

definition tip_item :: "chain_id \<Rightarrow> eth_log \<Rightarrow> (domain_error, tip_log) res" where
  "tip_item cid log =
     map_err source_error_to_domain
       (map_ok (\<lambda>r. \<lparr>tl_record = r, tl_removed = lg_removed log\<rparr>) (map_log cid log))"

definition subscribe :: "'n rpc_source \<Rightarrow> record_filter
    \<Rightarrow> ('n rpc, domain_error, (domain_error, tip_log) res list) m" where
  "subscribe src filt = source_result (\<lambda>s. case rs_ws src of
     None \<Rightarrow> (Err (Unsupported ''no ws url configured''), s)
   | Some ws \<Rightarrow>
      (case base_filter filt of
        Panics \<Rightarrow> (Panic, s)
      | Returns f \<Rightarrow>
         (let (r, s') = on_net (p_subscribe_logs ws f) (enter src LogSubscription s)
          in (map_ok (map (tip_item (rs_chain_id src)))
                (map_err (\<lambda>e. Transport (''subscribe: '' @ e)) r), s'))))"

definition caps :: "'n rpc_source \<Rightarrow> chain_caps" where
  "caps src = \<lparr>supports_reorg = True, supports_subscribe = (rs_ws src \<noteq> None)\<rparr>"

section \<open>Lemmas on the gated calls\<close>

lemma on_net_frame [simp]:
  "slept_ms (snd (on_net io s)) = slept_ms s" "rps_permits (snd (on_net io s)) = rps_permits s"
  "ledger (snd (on_net io s)) = ledger s" "density_milli (snd (on_net io s)) = density_milli s"
  "net (snd (on_net io s)) = snd (io (net s))"
  by (auto simp: on_net_def split: prod.splits sum.splits)

lemma on_net_result: "fst (on_net io s) = (case fst (io (net s)) of Inl e \<Rightarrow> Err e | Inr v \<Rightarrow> Ok v)"
  by (auto simp: on_net_def split: prod.splits sum.splits)

lemma enter_frame [simp]:
  "slept_ms (enter src c s) = slept_ms s" "rps_permits (enter src c s) = rps_permits s"
  "ledger (enter src c s) = meter (rs_cost_model src) c (ledger s)" "net (enter src c s) = net s"
  "density_milli (enter src c s) = density_milli s"
  by (simp_all add: enter_def)

lemma acquire_slept [simp]: "slept_ms (acquire s) = slept_ms s" "slept_ms (acquire_cu l u s) = slept_ms s"
  by (simp_all add: acquire_def acquire_cu_def split: option.splits)

lemma gated_frame [simp]:
  "slept_ms (snd (gated src c io s)) = slept_ms s"
  "rps_permits (snd (gated src c io s)) = Suc (rps_permits s)"
  "ledger (snd (gated src c io s)) = meter (rs_cost_model src) c (ledger s)"
  "density_milli (snd (gated src c io s)) = density_milli s"
  "net (snd (gated src c io s)) = snd (io (net s))"
  by (simp_all add: gated_def)

lemma gated_result: "fst (gated src c io s) = (case fst (io (net s)) of Inl e \<Rightarrow> Err e | Inr v \<Rightarrow> Ok v)"
  by (simp add: gated_def on_net_result)

lemma gated_no_panic [simp]: "fst (gated src c io s) \<noteq> Panic"
  by (simp add: gated_result split: sum.splits)

text \<open>Every call site fulfils the contract of \<open>with_retry\<close>, with one permit per attempt.\<close>

interpretation gated: gated_call "gated src c io" 1 for src c io
  by unfold_locales simp_all

lemma get_logs_result:
  "get_logs src base lo hi s = (r, s') \<Longrightarrow> r = (case fst (p_get_logs (rs_provider src) base lo hi (net s)) of
     Inl e \<Rightarrow> Err e | Inr v \<Rightarrow> Ok v)"
  unfolding get_logs_def using gated_result by (metis fst_conv)

lemma with_retry_get_logs_cases:
  obtains page s' where "with_retry (get_logs src base lo hi) s = (Ok page, s')"
      "\<exists>n. fst (p_get_logs (rs_provider src) base lo hi n) = Inr page"
  | e s' where "with_retry (get_logs src base lo hi) s = (Err (Transport e), s')"
      "\<exists>n. fst (p_get_logs (rs_provider src) base lo hi n) = Inl e"
proof -
  obtain r s' where r: "with_retry (get_logs src base lo hi) s = (r, s')" by fastforce
  then have "r \<noteq> Panic" using gated.with_retry_spec unfolding get_logs_def by (metis Pair_inject res.distinct(3,5))
  then show thesis
  proof (cases r)
    case (Ok page)
    with r obtain s0 where "get_logs src base lo hi s0 = (Ok page, s')" using with_retry_OkD by metis
    with get_logs_result have "\<exists>n. fst (p_get_logs (rs_provider src) base lo hi n) = Inr page"
      by (fastforce split: sum.splits)
    with r Ok that(1) show thesis by blast
  next
    case (Err x)
    with r obtain e s0 where "x = Transport e" "get_logs src base lo hi s0 = (Err e, s')"
      using with_retry_ErrD by metis
    moreover from this get_logs_result have "\<exists>n. fst (p_get_logs (rs_provider src) base lo hi n) = Inl e"
      by (fastforce split: sum.splits)
    ultimately show thesis using r Err that(2) by blast
  qed simp
qed

section \<open>Lemmas on the fetch loop\<close>

definition valid_spans :: "(nat \<times> nat) list \<Rightarrow> bool" where
  "valid_spans sp \<longleftrightarrow> (\<forall>(lo, hi) \<in> set sp. lo \<le> hi \<and> hi < 2 ^ 64)"

definition page_overflows :: "'n rpc_source \<Rightarrow> nat \<Rightarrow> nat \<Rightarrow> eth_log list \<Rightarrow> bool" where
  "page_overflows src lo hi page \<longleftrightarrow> lo < hi \<and> 0 < max_getlogs_results (rs_plan src)
     \<and> max_getlogs_results (rs_plan src) \<le> length page"

lemma valid_spans_Cons [simp]:
  "valid_spans ((lo, hi) # sp) \<longleftrightarrow> lo \<le> hi \<and> hi < 2 ^ 64 \<and> valid_spans sp"
  by (auto simp: valid_spans_def)

text \<open>
  The loop rule: an invariant of (stack, logs so far, state) that survives a clean page and
  a split. The loop always ends, because a split lowers the total weight of the stack.
\<close>

lemma fetch_loop_page:
  assumes "with_retry (get_logs src base lo hi) s = (Ok pg, s')"
  shows "fetch_loop src base ((lo, hi) # rest) logs s = (if page_overflows src lo hi pg
     then fetch_loop src base (fst (split_range lo hi) # snd (split_range lo hi) # rest) logs s'
     else fetch_loop src base rest (logs @ pg) (record_density (u64_add (u64_sub hi lo) 1) (length pg) s'))"
  by (subst fetch_loop.simps) (simp add: assms page_overflows_def)

lemma fetch_loop_error:
  assumes "with_retry (get_logs src base lo hi) s = (Err (Transport e), s')"
  shows "fetch_loop src base ((lo, hi) # rest) logs s = (if lo < hi \<and> is_range_cap_error e
     then fetch_loop src base (fst (split_range lo hi) # snd (split_range lo hi) # rest) logs s'
     else Some (Err (Transport e), s'))"
  by (subst fetch_loop.simps) (simp add: assms)

lemma fetch_loop_rule:
  fixes src :: "'n rpc_source"
  assumes "valid_spans pending" and "I pending logs s"
    and page: "\<And>lo hi rest logs s pg s'. I ((lo, hi) # rest) logs s \<Longrightarrow> lo \<le> hi \<Longrightarrow> hi < 2 ^ 64 \<Longrightarrow>
        with_retry (get_logs src base lo hi) s = (Ok pg, s') \<Longrightarrow> \<not> page_overflows src lo hi pg \<Longrightarrow>
        I rest (logs @ pg) (record_density (u64_add (u64_sub hi lo) 1) (length pg) s')"
    and split: "\<And>lo hi mid rest logs s r s'. I ((lo, hi) # rest) logs s \<Longrightarrow> lo \<le> mid \<Longrightarrow> mid < hi \<Longrightarrow>
        with_retry (get_logs src base lo hi) s = (r, s') \<Longrightarrow>
        I ((lo, mid) # (mid + 1, hi) # rest) logs s'"
    and err: "\<And>lo hi rest logs s e s'. I ((lo, hi) # rest) logs s \<Longrightarrow> lo \<le> hi \<Longrightarrow>
        with_retry (get_logs src base lo hi) s = (Err (Transport e), s') \<Longrightarrow>
        \<not> (lo < hi \<and> is_range_cap_error e) \<Longrightarrow> E e s'"
  shows "\<exists>r s'. fetch_loop src base pending logs s = Some (r, s') \<and>
     ((\<exists>logs'. r = Ok logs' \<and> I [] logs' s') \<or> (\<exists>e. r = Err (Transport e) \<and> E e s'))"
  using assms(1,2)
proof (induction "sum_list (map span_weight pending)" arbitrary: pending logs s rule: less_induct)
  case less
  show ?case
  proof (cases pending)
    case Nil
    with less.prems show ?thesis by (simp add: fetch_loop.simps)
  next
    case (Cons p rest)
    obtain lo hi where p: "p = (lo, hi)" by (cases p)
    with Cons less.prems have ok: "lo \<le> hi" "hi < 2 ^ 64" "valid_spans rest" "I ((lo, hi) # rest) logs s"
      by auto
    have again: "\<exists>r s''. fetch_loop src base (fst (split_range lo hi) # snd (split_range lo hi) # rest) logs s' = Some (r, s'') \<and>
        ((\<exists>logs'. r = Ok logs' \<and> I [] logs' s'') \<or> (\<exists>e. r = Err (Transport e) \<and> E e s''))"
      if "lo < hi" and "with_retry (get_logs src base lo hi) s = (r0, s')" for r0 s'
    proof -
      define mid where "mid = lo + (hi - lo) div 2"
      have mid: "split_range lo hi = ((lo, mid), (mid + 1, hi))" "lo \<le> mid" "mid < hi"
        using that(1) ok(2) by (auto simp: split_range_exact mid_def)
      show ?thesis
        using less.hyps[of "(lo, mid) # (mid + 1, hi) # rest" logs s'] split[OF ok(4) mid(2,3) that(2)] mid ok
        by (simp add: Cons p)
    qed
    have clean: "\<exists>r s''. fetch_loop src base rest (logs @ pg) s1 = Some (r, s'') \<and>
        ((\<exists>logs'. r = Ok logs' \<and> I [] logs' s'') \<or> (\<exists>e. r = Err (Transport e) \<and> E e s''))"
      if "I rest (logs @ pg) s1" for pg s1
      using less.hyps[of rest "logs @ pg" s1] that ok by (simp add: Cons p)
    show ?thesis
    proof (cases rule: with_retry_get_logs_cases[of src base lo hi s])
      case (1 pg s')
      note unf = fetch_loop_page[OF 1(1), of rest logs, folded Cons[unfolded p]]
      show ?thesis
      proof (cases "page_overflows src lo hi pg")
        case True
        with again[OF _ 1(1)] show ?thesis unfolding unf by (simp add: page_overflows_def)
      next
        case False
        then show ?thesis unfolding unf using clean[OF page[OF ok(4,1,2) 1(1) False]] by simp
      qed
    next
      case (2 e s')
      note unf = fetch_loop_error[OF 2(1), of rest logs, folded Cons[unfolded p]]
      show ?thesis
      proof (cases "lo < hi \<and> is_range_cap_error e")
        case True
        with again[OF _ 2(1)] show ?thesis unfolding unf by simp
      next
        case False
        with err[OF ok(4,1) 2(1) False] show ?thesis unfolding unf if_not_P[OF False] by simp
      qed
    qed
  qed
qed

lemma suggested_span_bounds:
  "0 < suggested_span src s \<and> suggested_span src s \<le> max (max_getlogs_blocks (rs_plan src)) 1"
  by (simp add: suggested_span_def Let_def less_max_iff_disj)

lemma valid_spans_spans: "t < 2 ^ 64 \<Longrightarrow> valid_spans (spans f t k)"
  unfolding valid_spans_def using spans_width by fastforce

text \<open>The logs of a block range, from the logs of each block.\<close>

definition logs_in :: "(nat \<Rightarrow> eth_log list) \<Rightarrow> nat \<Rightarrow> nat \<Rightarrow> eth_log list" where
  "logs_in at lo hi = concat (map at [lo..<Suc hi])"

definition logs_of_spans :: "(nat \<Rightarrow> eth_log list) \<Rightarrow> (nat \<times> nat) list \<Rightarrow> eth_log list" where
  "logs_of_spans at sp = concat (map (\<lambda>(lo, hi). logs_in at lo hi) sp)"

lemma logs_of_spans_Cons [simp]:
  "logs_of_spans at ((lo, hi) # sp) = logs_in at lo hi @ logs_of_spans at sp"
  by (simp add: logs_of_spans_def)

lemma logs_in_split: "lo \<le> mid \<Longrightarrow> mid < hi \<Longrightarrow> logs_in at lo hi = logs_in at lo mid @ logs_in at (mid + 1) hi"
  unfolding logs_in_def using upt_split[of lo "Suc mid" "Suc hi", symmetric] by simp

lemma logs_of_spans_blocks: "logs_of_spans at sp = concat (map at (blocks_of sp))"
  by (induction sp) (auto simp: logs_of_spans_def logs_in_def blocks_of_def)

lemma logs_of_spans_spans: "0 < k \<Longrightarrow> logs_of_spans at (spans f t k) = logs_in at f t"
  by (simp add: logs_of_spans_blocks blocks_of_spans logs_in_def)

text \<open>
  What \<open>eth_getLogs\<close> documents: a page holds every matching log of the range in block
  order, unless a range of several blocks reached the provider's result cap.
\<close>

definition complete_pages :: "'n rpc_source \<Rightarrow> log_filter \<Rightarrow> (nat \<Rightarrow> eth_log list) \<Rightarrow> bool" where
  "complete_pages src base at \<longleftrightarrow> (\<forall>lo hi n page. lo \<le> hi \<longrightarrow>
     fst (p_get_logs (rs_provider src) base lo hi n) = Inr page \<longrightarrow>
     page = logs_in at lo hi \<or> page_overflows src lo hi page)"

text \<open>A provider that answers, refusing only ranges it asks to have split.\<close>

definition serves :: "'n rpc_source \<Rightarrow> log_filter \<Rightarrow> bool" where
  "serves src base \<longleftrightarrow> (\<forall>lo hi n e. lo \<le> hi \<longrightarrow>
     fst (p_get_logs (rs_provider src) base lo hi n) = Inl e \<longrightarrow> lo < hi \<and> is_range_cap_error e)"

lemma fetch_loop_complete:
  assumes "complete_pages src base at" and "valid_spans pending"
  shows "\<exists>r s'. fetch_loop src base pending logs s = Some (r, s') \<and>
     (r = Ok (logs @ logs_of_spans at pending)
      \<or> (\<exists>e. r = Err (Transport e) \<and> \<not> serves src base))"
proof -
  define total where "total = logs @ logs_of_spans at pending"
  have "\<exists>r s'. fetch_loop src base pending logs s = Some (r, s') \<and>
     ((\<exists>logs'. r = Ok logs' \<and> logs' @ logs_of_spans at [] = total)
      \<or> (\<exists>e. r = Err (Transport e) \<and> \<not> serves src base))"
  proof (rule fetch_loop_rule[where I = "\<lambda>pending logs s. logs @ logs_of_spans at pending = total"
        and E = "\<lambda>e s. \<not> serves src base"])
    fix lo hi rest logs s pg s'
    assume a: "logs @ logs_of_spans at ((lo, hi) # rest) = total" "lo \<le> hi"
      "with_retry (get_logs src base lo hi) s = (Ok pg, s')" "\<not> page_overflows src lo hi pg"
    from a(3) obtain n where "fst (p_get_logs (rs_provider src) base lo hi n) = Inr pg"
      by (cases rule: with_retry_get_logs_cases[of src base lo hi s]) auto
    with a assms(1) have "pg = logs_in at lo hi" unfolding complete_pages_def by blast
    with a(1) show "(logs @ pg) @ logs_of_spans at rest = total" by simp
  next
    fix lo hi rest logs s e s'
    assume a: "lo \<le> hi" "with_retry (get_logs src base lo hi) s = (Err (Transport e), s')"
      "\<not> (lo < hi \<and> is_range_cap_error e)"
    from a(2) obtain n where "fst (p_get_logs (rs_provider src) base lo hi n) = Inl e"
      by (cases rule: with_retry_get_logs_cases[of src base lo hi s]) auto
    with a show "\<not> serves src base" unfolding serves_def by blast
  qed (auto simp: total_def assms logs_in_split)
  then show ?thesis by (auto simp: total_def logs_of_spans_def)
qed

lemma fetch_records_seeded:
  assumes "base_filter filt = Returns base" and "to + max (max_getlogs_blocks (rs_plan src)) 1 < 2 ^ 64"
  shows "\<exists>pending. span_loop from to (suggested_span src s) [] = Some pending
     \<and> valid_spans pending \<and> (\<forall>at. logs_of_spans at pending = logs_in at from to)
     \<and> fetch_records src filt from to s = map_option (\<lambda>(r, s').
         (map_err source_error_to_domain (and_then r (map_logs (rs_chain_id src))), s'))
         (fetch_loop src base pending [] s)"
proof -
  have "span_loop from to (suggested_span src s) [] = Some ([] @ spans from to (suggested_span src s))"
    using suggested_span_bounds[of src s] assms(2) by (intro span_loop_spans) linarith+
  moreover have "to < 2 ^ 64" using assms(2) by linarith
  ultimately show ?thesis using suggested_span_bounds[of src s] assms(1)
    by (auto simp: valid_spans_spans logs_of_spans_spans fetch_records_def split: option.splits)
qed

lemma map_logs_Ok: "(\<And>l. l \<in> set ls \<Longrightarrow> is_ok (map_log cid l)) \<Longrightarrow> \<exists>rs. map_logs cid ls = Ok rs"
proof (induction ls)
  case (Cons l ls)
  then obtain r rs where "map_log cid l = Ok r" "map_logs cid ls = Ok rs"
    by (metis is_ok_iff list.set_intros)
  then show ?case by simp
qed simp

lemma map_logs_no_panic: "map_logs cid ls \<noteq> Panic"
  by (induction ls) (auto simp: map_log_def split: option.splits res.splits elim: map_ok.elims)

text \<open>Accounting: permits, metered calls and requests seen by the endpoint advance together.\<close>

definition accounted :: "'n rpc_source \<Rightarrow> ('n \<Rightarrow> nat) \<Rightarrow> 'n rpc \<Rightarrow> 'n rpc \<Rightarrow> bool" where
  "accounted src requests s s' \<longleftrightarrow> (\<exists>calls. rps_permits s' = rps_permits s + length calls
     \<and> ledger s' = meter_all (rs_cost_model src) calls (ledger s)
     \<and> requests (net s') = requests (net s) + length calls
     \<and> (\<forall>c \<in> set calls. \<exists>blocks. c = GetLogs blocks 0))"

lemma accounted_refl [simp]: "accounted src requests s s"
  by (auto simp: accounted_def meter_all_def intro!: exI[of _ "[]"])

lemma accounted_cong:
  "rps_permits t = rps_permits s' \<Longrightarrow> ledger t = ledger s' \<Longrightarrow> net t = net s' \<Longrightarrow>
     accounted src requests s s' \<Longrightarrow> accounted src requests s t"
  by (simp add: accounted_def)

lemma accounted_get_logs:
  assumes "\<And>base lo hi n. requests (snd (p_get_logs (rs_provider src) base lo hi n)) = Suc (requests n)"
    and "accounted src requests s s'"
  shows "accounted src requests s (snd (get_logs src base lo hi s'))"
proof -
  from assms(2) obtain calls where calls: "rps_permits s' = rps_permits s + length calls"
     "ledger s' = meter_all (rs_cost_model src) calls (ledger s)"
     "requests (net s') = requests (net s) + length calls"
     "\<forall>c \<in> set calls. \<exists>blocks. c = GetLogs blocks 0"
    by (auto simp: accounted_def)
  show ?thesis unfolding accounted_def
    by (rule exI[of _ "calls @ [GetLogs (u64_add (u64_sub hi lo) 1) 0]"])
      (use calls assms(1) in \<open>auto simp: get_logs_def meter_all_def\<close>)
qed

lemma accounted_with_retry:
  assumes "\<And>base lo hi n. requests (snd (p_get_logs (rs_provider src) base lo hi n)) = Suc (requests n)"
    and "accounted src requests s s1" and "with_retry (get_logs src base lo hi) s1 = (r, s2)"
  shows "accounted src requests s s2"
proof -
  have "accounted src requests s (snd (with_retry (get_logs src base lo hi) s1))"
    by (rule with_retry_invariant[OF accounted_get_logs[OF assms(1)] accounted_cong assms(2)]) simp_all
  with assms(3) show ?thesis by simp
qed

lemma record_density_frame [simp]:
  "rps_permits (record_density b l s) = rps_permits s" "ledger (record_density b l s) = ledger s"
  "net (record_density b l s) = net s"
  by (simp_all add: record_density_def Let_def)

lemma accounted_density [simp]:
  "accounted src requests s (record_density b l s') = accounted src requests s s'"
  by (simp add: accounted_def)

section \<open>An example endpoint\<close>

text \<open>
  One log per block; a request for several blocks is cut at two logs, the result cap of the
  plan. The endpoint state counts the requests.
\<close>

definition demo_log :: "nat \<Rightarrow> eth_log" where
  "demo_log h = \<lparr>lg_block_number = Some h, lg_block_hash = Some [], lg_log_index = Some 0,
     lg_transaction_hash = Some [], lg_transaction_index = None, lg_address = [], lg_topics = [],
     lg_data = [], lg_removed = False\<rparr>"

definition demo_provider :: "nat provider" where
  "demo_provider = \<lparr>p_get_block_number = (\<lambda>n. (Inr 100, n)),
     p_get_logs = (\<lambda>f lo hi n. (Inr (take 2 (map demo_log [lo..<Suc hi])), Suc n)),
     p_get_block_by_number = (\<lambda>h n. (Inr None, n)), p_subscribe_logs = (\<lambda>f n. (Inr [], n)),
     p_batch_blocks = (\<lambda>hs n. (Inr [], n)), p_batch_receipts = (\<lambda>ts n. (Inr [], n))\<rparr>"

definition demo_source :: "nat rpc_source" where
  "demo_source = rpc_source_new 1 demo_provider None (plan_profile_default\<lparr>max_getlogs_results := 2\<rparr>) AlchemyCost 4"

definition demo_rpc :: "nat rpc" where
  "demo_rpc = \<lparr>net = 0, jitter_state = GOLDEN, slept_ms = [], rps_permits = 0, cu_bursts = [],
     ledger = ledger_new None (12, 10), density_milli = 0\<rparr>"

definition demo_filter :: record_filter where
  "demo_filter = \<lparr>rf_addresses = [], rf_selectors = []\<rparr>"

lemma demo_base_filter: "base_filter demo_filter = Returns \<lparr>lf_addresses = [], lf_topic0 = []\<rparr>"
  by (simp add: base_filter_def demo_filter_def)

lemma demo_source_fields [simp]:
  "rs_plan demo_source = plan_profile_default\<lparr>max_getlogs_results := 2\<rparr>" "rs_chain_id demo_source = 1"
  "rs_provider demo_source = demo_provider" "rs_cost_model demo_source = AlchemyCost"
  by (simp_all add: demo_source_def rpc_source_new_def)

lemma demo_fits: "10 + max (max_getlogs_blocks (rs_plan demo_source)) 1 < 2 ^ 64"
  by (simp add: plan_profile_default_def)

lemma demo_complete: "complete_pages demo_source base (\<lambda>h. [demo_log h])"
  by (auto simp: complete_pages_def demo_provider_def page_overflows_def logs_in_def le_less
      simp del: upt_Suc)

lemma demo_serves: "serves demo_source base"
  by (simp add: serves_def demo_provider_def)

definition demo_record :: "nat \<Rightarrow> raw_record" where
  "demo_record h = \<lparr>rr_chain_id = 1, rr_height = h, rr_block_hash = [], rr_index = 0, rr_address = [],
     rr_selectors = [], rr_data = [], rr_tx_id = [], rr_tx_index = 0, rr_inner_index = None\<rparr>"

lemma demo_map_log [simp]: "map_log 1 (demo_log h) = Ok (demo_record h)" "rr_height (demo_record h) = h"
  by (simp_all add: map_log_def demo_log_def demo_record_def)

lemma demo_logs: "logs_in (\<lambda>h. [demo_log h]) 7 10 = map demo_log [7, 8, 9, 10]"
  by (simp add: logs_in_def upt_rec)

lemma demo_logs_ok: "\<forall>l \<in> set (logs_in (\<lambda>h. [demo_log h]) 7 10). is_ok (map_log (rs_chain_id demo_source) l)"
  unfolding demo_logs demo_source_fields by (auto simp del: One_nat_def)

lemma demo_map_logs:
  "map_logs (rs_chain_id demo_source) (logs_in (\<lambda>h. [demo_log h]) 7 10) = Ok (map demo_record [7, 8, 9, 10])"
  unfolding demo_logs demo_source_fields by (simp del: One_nat_def)

section \<open>Properties\<close>

text \<open>
  C12. No log of a range is missed, duplicated or reordered. If the provider's pages are
  complete except for multi-block pages that reached the result cap, then \<open>fetch_records\<close>
  on \<open>[from, to]\<close> always returns, never panics, and a successful result is the mapping
  of exactly the logs of the blocks \<open>from .. to\<close> in block order, whatever density was
  observed before, however often the range had to be halved and whatever was retried.
\<close>

theorem fetch_records_complete:
  assumes "base_filter filt = Returns base" and "to + max (max_getlogs_blocks (rs_plan src)) 1 < 2 ^ 64"
    and "complete_pages src base at"
  shows "\<exists>r s'. fetch_records src filt from to s = Some (r, s') \<and> r \<noteq> Panic
     \<and> (\<forall>recs. r = Ok recs \<longrightarrow> map_logs (rs_chain_id src) (logs_in at from to) = Ok recs)"
proof -
  obtain pending where p: "valid_spans pending" "logs_of_spans at pending = logs_in at from to"
    "fetch_records src filt from to s = map_option (\<lambda>(r, s').
         (map_err source_error_to_domain (and_then r (map_logs (rs_chain_id src))), s'))
         (fetch_loop src base pending [] s)"
    using fetch_records_seeded[OF assms(1,2)] by metis
  from fetch_loop_complete[OF assms(3) p(1), of "[]" s] p map_logs_no_panic
  show ?thesis by auto
qed

theorem fetch_records_complete_witness:
  "\<exists>r s'. fetch_records demo_source demo_filter 7 10 demo_rpc = Some (r, s') \<and> r \<noteq> Panic
     \<and> (\<forall>recs. r = Ok recs \<longrightarrow> map rr_height recs = [7, 8, 9, 10])"
  using fetch_records_complete[OF demo_base_filter demo_fits demo_complete, of 7 demo_rpc]
  unfolding demo_map_logs by auto

text \<open>
  C13. The halving makes progress: if moreover the provider answers every request, refusing
  only ranges of several blocks with a range-cap error, and every log of the range carries
  its block, index and transaction, then \<open>fetch_records\<close> succeeds with all of them.
\<close>

theorem fetch_records_succeeds:
  assumes "base_filter filt = Returns base" and "to + max (max_getlogs_blocks (rs_plan src)) 1 < 2 ^ 64"
    and "complete_pages src base at" and "serves src base"
    and "\<forall>l \<in> set (logs_in at from to). is_ok (map_log (rs_chain_id src) l)"
  shows "\<exists>recs s'. fetch_records src filt from to s = Some (Ok recs, s')
     \<and> map_logs (rs_chain_id src) (logs_in at from to) = Ok recs"
proof -
  obtain pending where p: "valid_spans pending" "logs_of_spans at pending = logs_in at from to"
    "fetch_records src filt from to s = map_option (\<lambda>(r, s').
         (map_err source_error_to_domain (and_then r (map_logs (rs_chain_id src))), s'))
         (fetch_loop src base pending [] s)"
    using fetch_records_seeded[OF assms(1,2)] by metis
  from fetch_loop_complete[OF assms(3) p(1), of "[]" s] p assms(4)
    map_logs_Ok[of "logs_in at from to" "rs_chain_id src"] assms(5)
  show ?thesis by auto
qed

theorem fetch_records_succeeds_witness:
  "\<exists>recs s'. fetch_records demo_source demo_filter 7 10 demo_rpc = Some (Ok recs, s')
     \<and> map rr_height recs = [7, 8, 9, 10]"
  using fetch_records_succeeds[OF demo_base_filter demo_fits demo_complete demo_serves demo_logs_ok, where s = demo_rpc]
  unfolding demo_map_logs by auto

text \<open>
  Spend and rate accounting of \<open>fetch_records\<close>: every request that reaches the
  endpoint, retries and halved ranges included, took one request permit and was recorded in
  the ledger as one \<open>eth_getLogs\<close> call, and nothing else was.
\<close>

theorem fetch_records_metered:
  assumes "base_filter filt = Returns base" and "to + max (max_getlogs_blocks (rs_plan src)) 1 < 2 ^ 64"
    and "\<And>base lo hi n. requests (snd (p_get_logs (rs_provider src) base lo hi n)) = Suc (requests n)"
  shows "\<exists>r s' calls. fetch_records src filt from to s = Some (r, s')
     \<and> requests (net s') = requests (net s) + length calls
     \<and> rps_permits s' = rps_permits s + length calls
     \<and> ledger s' = meter_all (rs_cost_model src) calls (ledger s)
     \<and> (\<forall>c \<in> set calls. \<exists>blocks. c = GetLogs blocks 0)"
proof -
  obtain pending where p: "valid_spans pending"
    "fetch_records src filt from to s = map_option (\<lambda>(r, s').
         (map_err source_error_to_domain (and_then r (map_logs (rs_chain_id src))), s'))
         (fetch_loop src base pending [] s)"
    using fetch_records_seeded[OF assms(1,2)] by metis
  have "\<exists>r s'. fetch_loop src base pending [] s = Some (r, s') \<and>
     ((\<exists>logs'. r = Ok logs' \<and> accounted src requests s s') \<or> (\<exists>e. r = Err (Transport e) \<and> accounted src requests s s'))"
    by (rule fetch_loop_rule[where I = "\<lambda>pending logs s'. accounted src requests s s'"
        and E = "\<lambda>e s'. accounted src requests s s'"])
      (use p(1) accounted_with_retry[OF assms(3)] in auto)
  then show ?thesis using p(2) by (fastforce simp: accounted_def)
qed

theorem fetch_records_metered_witness:
  "\<exists>r s' calls. fetch_records demo_source demo_filter 7 10 demo_rpc = Some (r, s')
     \<and> net s' = length calls \<and> rps_permits s' = length calls
     \<and> ledger s' = meter_all AlchemyCost calls (ledger_new None (12, 10))
     \<and> (\<forall>c \<in> set calls. \<exists>blocks. c = GetLogs blocks 0)"
  using fetch_records_metered[OF demo_base_filter demo_fits, of "\<lambda>n. n" 7 demo_rpc]
  by (simp add: demo_provider_def demo_rpc_def)

text \<open>
  C30. Retrying is bounded and gated: a retried provider call never reaches the loop's
  \<open>unreachable!()\<close>, makes at most six attempts, takes one request permit per attempt,
  sleeps between half the backoff delay and the whole of it before each new attempt
  (250 ms doubling up to 4 s), and gives up early only on an error that is not transient.
\<close>

theorem with_retry_bounded:
  "\<exists>r s' ds. with_retry (gated src call io) s = (r, s') \<and> r \<noteq> Panic
     \<and> slept_ms s' = slept_ms s @ ds \<and> length ds \<le> 5
     \<and> (\<forall>i < length ds. min (250 * 2 ^ i) 4000 div 2 \<le> ds ! i \<and> ds ! i \<le> min (250 * 2 ^ i) 4000)
     \<and> rps_permits s' = rps_permits s + length ds + 1
     \<and> (\<forall>x. r = Err x \<longrightarrow> (\<exists>e. x = Transport e \<and> (transient e \<longrightarrow> length ds = 5)))"
  using gated.with_retry_spec[of src call io s] by (fastforce simp: sleeps_ok_def backoff_def)

theorem with_retry_bounded_witness:
  "\<exists>r s' ds. with_retry (gated demo_source BlockNumber (\<lambda>n. (Inl ''429'' :: string + nat, Suc n))) demo_rpc = (r, s')
     \<and> slept_ms s' = ds \<and> length ds \<le> 5 \<and> rps_permits s' = length ds + 1"
  using with_retry_bounded[of demo_source BlockNumber "\<lambda>n. (Inl ''429'' :: string + nat, Suc n)" demo_rpc]
  by (auto simp: demo_rpc_def)

end
