(* ===== verification/Migrator.thy ===== *)
theory Migrator
  imports Schema_IR
begin

text \<open>
  \<open>crates/migrator\<close>: the DDL of a schema and the migrator that plans, applies and checks
  it. A DDL statement is a value of \<open>ddl_stmt\<close>; \<open>render\<close> is its SQL text, as
  \<open>ddl.rs\<close> prints it, and \<open>exec_ddl\<close> its effect on the typed tables. Secondary indexes
  have no effect on the rows, so only their failures are modelled.
\<close>

section \<open>DDL\<close>

datatype ddl_stmt =
    CreateTable string bool "(string \<times> string) list" "string list"
  | AddColumn string string string
  | CreateTxIndex string
  | CreateColumnIndex string string
  | AddReceiptsForeignKey

definition nl :: string where "nl = [CHR 0x0A]"
definition apostrophe :: string where "apostrophe = [CHR 0x27]"

fun join :: "string \<Rightarrow> string list \<Rightarrow> string" where
  "join sep [] = []"
| "join sep [x] = x"
| "join sep (x # y # ys) = x @ sep @ join sep (y # ys)"

fun render :: "ddl_stmt \<Rightarrow> string" where
  "render (CreateTable t has_idx cols pk) =
     ''CREATE TABLE IF NOT EXISTS '' @ t @ '' ('' @ nl
     @ ''  chain_id   bigint NOT NULL,'' @ nl
     @ ''  height     bigint NOT NULL,'' @ nl
     @ ''  block_hash bytea  NOT NULL,'' @ nl
     @ ''  block_time timestamptz,'' @ nl
     @ ''  tx_id      bytea  NOT NULL''
     @ (if has_idx then '','' @ nl @ ''  idx        bigint NOT NULL'' else '''')
     @ concat (map (\<lambda>(name, ty). '','' @ nl @ ''  '' @ quoted name @ '' '' @ ty) cols) @ '','' @ nl
     @ ''  PRIMARY KEY ('' @ join '', '' (map quoted pk) @ '')'' @ nl @ '')''"
| "render (AddColumn t name ty) =
     ''ALTER TABLE '' @ t @ '' ADD COLUMN IF NOT EXISTS '' @ quoted name @ '' '' @ ty"
| "render (CreateTxIndex t) =
     ''CREATE INDEX IF NOT EXISTS '' @ t @ ''_tx ON '' @ t @ '' (chain_id, tx_id)''"
| "render (CreateColumnIndex t col) =
     ''CREATE INDEX IF NOT EXISTS '' @ t @ ''_'' @ col @ '' ON '' @ t @ '' (chain_id, '' @ quoted col @ '', height) INCLUDE (idx)''"
| "render AddReceiptsForeignKey =
     ''DO $$ BEGIN IF NOT EXISTS (SELECT 1 FROM pg_constraint WHERE conname = '' @ apostrophe @ ''receipts_tx_fk'' @ apostrophe
     @ '') THEN ALTER TABLE receipts ADD CONSTRAINT receipts_tx_fk FOREIGN KEY (chain_id, tx_id) ''
     @ ''REFERENCES transactions (chain_id, tx_id) ON DELETE CASCADE; END IF; END $$;''"

definition pk_of :: "event_schema \<Rightarrow> string list" where
  "pk_of schema = (if es_pk_columns schema = [] then event_pk else es_pk_columns schema)"

definition create_table :: "event_schema \<Rightarrow> ddl_stmt" where
  "create_table schema = CreateTable (es_table schema) (table_has_idx (es_table schema))
     (map (\<lambda>c. (cd_name c, pg_type (cd_ty c))) (es_columns schema)) (pk_of schema)"

definition foreign_keys :: "event_schema \<Rightarrow> ddl_stmt list" where
  "foreign_keys schema = (if es_table schema \<noteq> RECEIPTS_TABLE then [] else [AddReceiptsForeignKey])"

definition nth_opt :: "'a list \<Rightarrow> nat \<Rightarrow> 'a option" where
  "nth_opt xs i = (if i < length xs then Some (xs ! i) else None)"

definition create_indexes :: "event_schema \<Rightarrow> ddl_stmt list" where
  "create_indexes schema =
     (let t = es_table schema; pk = pk_of schema
      in (if nth_opt pk 0 \<noteq> Some ''chain_id'' \<or> nth_opt pk 1 \<noteq> Some ''tx_id'' then [CreateTxIndex t] else [])
         @ concat (map (\<lambda>pos. case nth_opt (es_columns schema) pos of
             Some c \<Rightarrow> [CreateColumnIndex t (cd_name c)] | None \<Rightarrow> []) (es_indexed_positions schema)))"

definition add_columns :: "event_schema \<Rightarrow> ddl_stmt list" where
  "add_columns schema = map (\<lambda>c. AddColumn (es_table schema) (cd_name c) (pg_type (cd_ty c))) (es_columns schema)"

definition table_statements :: "event_schema \<Rightarrow> ddl_stmt list" where
  "table_statements schema = [create_table schema] @ add_columns schema @ create_indexes schema @ foreign_keys schema"

section \<open>The effect of a statement\<close>

text \<open>The fixed tables of \<open>base_schema.rs\<close> live in the same namespace; a typed table of such a
  name is not created, and the extra columns and indexes it would get are not part of the
  modelled rows.\<close>

definition support_tables :: "string list" where
  "support_tables = [''blocks'', ''cursors'', ''raw_records'', ''work_queue'']"

definition meta_of :: "string \<Rightarrow> string list" where
  "meta_of t = [''chain_id'', ''height'', ''block_hash'', ''block_time'', ''tx_id''] @ (if table_has_idx t then [''idx''] else [])"

fun exec_ddl :: "ddl_stmt \<Rightarrow> db \<Rightarrow> string + (unit \<times> db)" where
  "exec_ddl (CreateTable t has_idx cols pk) s =
     (if t \<in> set support_tables \<or> tables s t \<noteq> None then Inr ((), s)
      else if \<not> distinct (meta_of t @ map fst cols) then Inl ''column specified more than once''
      else if \<not> set pk \<subseteq> set (meta_of t @ map fst cols) then Inl ''column named in key does not exist''
      else if \<not> list_all (\<lambda>(n, ty). sql_type_named ty \<noteq> None) cols then Inl ''type does not exist''
      else Inr ((), s\<lparr>tables := (tables s)(t \<mapsto>
        \<lparr>tb_cols = map (\<lambda>(n, ty). (n, the (sql_type_named ty))) cols, tb_pk = pk, tb_tx_fk = False, tb_rows = []\<rparr>)\<rparr>))"
| "exec_ddl (AddColumn t name ty) s =
     (if t \<in> set support_tables then Inr ((), s)
      else case tables s t of
        None \<Rightarrow> Inl (''relation does not exist: '' @ t)
      | Some u \<Rightarrow>
         (if name \<in> set (meta_of t) \<or> map_of (tb_cols u) name \<noteq> None then Inr ((), s)
          else case sql_type_named ty of
            None \<Rightarrow> Inl ''type does not exist''
          | Some sty \<Rightarrow> Inr ((), s\<lparr>tables := (tables s)(t \<mapsto> u\<lparr>tb_cols := tb_cols u @ [(name, sty)]\<rparr>)\<rparr>)))"
| "exec_ddl (CreateTxIndex t) s =
     (if t = ''raw_records'' \<or> t \<notin> set support_tables \<and> tables s t \<noteq> None then Inr ((), s)
      else Inl (''relation or column does not exist: '' @ t))"
| "exec_ddl (CreateColumnIndex t name) s =
     (if t = ''raw_records'' then Inr ((), s)
      else if t \<in> set support_tables then Inl ''column does not exist: idx''
      else case tables s t of
        None \<Rightarrow> Inl (''relation does not exist: '' @ t)
      | Some u \<Rightarrow>
          if (name \<in> set (meta_of t) \<or> map_of (tb_cols u) name \<noteq> None) \<and> table_has_idx t then Inr ((), s)
          else Inl (''column does not exist: '' @ name))"
| "exec_ddl AddReceiptsForeignKey s = (case tables s RECEIPTS_TABLE of
     None \<Rightarrow> Inl (''relation does not exist: '' @ RECEIPTS_TABLE)
   | Some r \<Rightarrow>
      (if tb_tx_fk r then Inr ((), s)
       else case tables s ''transactions'' of
         None \<Rightarrow> Inl ''relation does not exist: transactions''
       | Some t \<Rightarrow>
           if tb_pk t \<noteq> [''chain_id'', ''tx_id''] then Inl ''there is no unique constraint matching given keys''
           else if \<not> (\<forall>row \<in> set (tb_rows r). has_tx s row) then Inl ''insert or update violates foreign key constraint''
           else Inr ((), s\<lparr>tables := (tables s)(RECEIPTS_TABLE \<mapsto> r\<lparr>tb_tx_fk := True\<rparr>)\<rparr>)))"

section \<open>The migrator\<close>

definition migrate_error :: "db_error \<Rightarrow> domain_error" where
  "migrate_error e = Schema (case e of Sqlx m \<Rightarrow> ''database error: '' @ m | Encode m \<Rightarrow> m)"

definition migrate_result :: "(db, db_error, 'a) m \<Rightarrow> (db, domain_error, 'a) m" where
  "migrate_result f s = (let (r, s') = f s in (map_err migrate_error r, s'))"

definition table_exists :: "string \<Rightarrow> (db, domain_error, bool) m" where
  "table_exists table = migrate_result (select_stmt (\<lambda>s. table \<in> set support_tables \<or> tables s table \<noteq> None))"

definition migrator_plan :: "event_schema list \<Rightarrow> (db, domain_error, ddl_stmt schema_plan) m" where
  "migrator_plan desired =
     for_each (\<lambda>schema plan. bind (table_exists (es_table schema)) (\<lambda>there.
         ret (plan\<lparr>pl_summary := pl_summary plan @ (if there then [] else [''CREATE TABLE '' @ es_table schema]),
                   pl_statements := pl_statements plan @ table_statements schema\<rparr>)))
       desired \<lparr>pl_summary = [], pl_statements = [], pl_destructive = False\<rparr>"

definition migrator_apply :: "ddl_stmt schema_plan \<Rightarrow> bool \<Rightarrow> (db, domain_error, unit) m" where
  "migrator_apply plan allow_destructive =
     (if pl_destructive plan \<and> \<not> allow_destructive
      then throw (Schema ''plan contains destructive changes; rerun with --allow-destructive'')
      else for_each (\<lambda>st _. migrate_result (stmt (exec_ddl st))) (pl_statements plan) ())"

fun sync_loop :: "event_schema list \<Rightarrow> (db, domain_error, bool) m" where
  "sync_loop [] = ret True"
| "sync_loop (schema # rest) = bind (table_exists (es_table schema)) (\<lambda>there. if \<not> there then ret False else sync_loop rest)"

definition is_in_sync :: "event_schema list \<Rightarrow> (db, domain_error, bool) m" where
  "is_in_sync desired = sync_loop desired"

section \<open>Extension of the typed tables\<close>

text \<open>Nothing is lost: tables keep their rows, keys and columns; the rest of the database is
  untouched.\<close>

definition extends :: "db \<Rightarrow> db \<Rightarrow> bool" where
  "extends s s' \<longleftrightarrow> stored (s'\<lparr>tables := tables s\<rparr>) = stored s
     \<and> (\<forall>t u. tables s t = Some u \<longrightarrow> (\<exists>u'. tables s' t = Some u' \<and> tb_rows u' = tb_rows u \<and> tb_pk u' = tb_pk u
          \<and> map_of (tb_cols u) \<subseteq>\<^sub>m map_of (tb_cols u') \<and> (tb_tx_fk u \<longrightarrow> tb_tx_fk u')))"

lemma extends_refl [simp]: "extends s s"
  by (simp add: extends_def)

lemma extends_faults [simp]: "extends s (s\<lparr>faults := fs\<rparr>)"
  by (simp add: extends_def stored_def)

lemma extends_trans: "extends a b \<Longrightarrow> extends b c \<Longrightarrow> extends a c"
proof -
  assume ab: "extends a b" and bc: "extends b c"
  have "stored (c\<lparr>tables := tables a\<rparr>) = (stored (c\<lparr>tables := tables b\<rparr>))\<lparr>tables := tables a\<rparr>" by (simp add: stored_def)
  also have "\<dots> = stored (b\<lparr>tables := tables a\<rparr>)" using bc by (simp add: extends_def stored_def)
  also have "\<dots> = stored a" using ab by (simp add: extends_def)
  finally have st: "stored (c\<lparr>tables := tables a\<rparr>) = stored a" .
  have "\<exists>u'. tables c t = Some u' \<and> tb_rows u' = tb_rows u \<and> tb_pk u' = tb_pk u
          \<and> map_of (tb_cols u) \<subseteq>\<^sub>m map_of (tb_cols u') \<and> (tb_tx_fk u \<longrightarrow> tb_tx_fk u')" if t: "tables a t = Some u" for t u
  proof -
    from ab t obtain v where v: "tables b t = Some v" "tb_rows v = tb_rows u" "tb_pk v = tb_pk u"
      "map_of (tb_cols u) \<subseteq>\<^sub>m map_of (tb_cols v)" "tb_tx_fk u \<longrightarrow> tb_tx_fk v" unfolding extends_def by metis
    from bc v(1) obtain w where "tables c t = Some w" "tb_rows w = tb_rows v" "tb_pk w = tb_pk v"
      "map_of (tb_cols v) \<subseteq>\<^sub>m map_of (tb_cols w)" "tb_tx_fk v \<longrightarrow> tb_tx_fk w" unfolding extends_def by metis
    with v show ?thesis by (metis map_le_trans)
  qed
  with st show ?thesis unfolding extends_def by blast
qed

lemma extends_new: "tables s t = None \<Longrightarrow> extends s (s\<lparr>tables := (tables s)(t \<mapsto> v)\<rparr>)"
  unfolding extends_def by (auto simp: stored_def)

lemma extends_update:
  assumes "tables s t = Some u" and "tb_rows v = tb_rows u" and "tb_pk v = tb_pk u"
    and "map_of (tb_cols u) \<subseteq>\<^sub>m map_of (tb_cols v)" and "tb_tx_fk u \<longrightarrow> tb_tx_fk v"
  shows "extends s (s\<lparr>tables := (tables s)(t \<mapsto> v)\<rparr>)"
  using assms unfolding extends_def by (auto simp: stored_def)

lemma map_of_snoc_le: "map_of xs \<subseteq>\<^sub>m map_of (xs @ ys)"
  by (auto simp: map_le_def map_add_def)

lemma exec_ddl_extends: "exec_ddl st s = Inr ((), s') \<Longrightarrow> extends s s'"
proof (induction st s rule: exec_ddl.induct)
  case (1 t has_idx cols pk s)
  then show ?case by (auto split: if_splits intro!: extends_new)
next
  case (2 t name ty s)
  then show ?case
    by (auto split: if_splits option.splits intro!: extends_update map_of_snoc_le simp del: map_of_append)
qed (auto split: if_splits option.splits intro!: extends_update)

lemma extends_cols:
  assumes "extends s s'" and "tables s t = Some u" and "map_of (tb_cols u) n \<noteq> None"
  shows "\<exists>u'. tables s' t = Some u' \<and> map_of (tb_cols u') n = map_of (tb_cols u) n"
proof -
  from assms(1,2) obtain u' where "tables s' t = Some u'" "map_of (tb_cols u) \<subseteq>\<^sub>m map_of (tb_cols u')"
    unfolding extends_def by blast
  with assms(3) show ?thesis by (auto simp: map_le_def dom_def)
qed

text \<open>A statement that has run is a no-op in every later state.\<close>

lemma exec_ddl_again:
  assumes "exec_ddl st s = Inr ((), s1)" and "extends s1 s2"
  shows "exec_ddl st s2 = Inr ((), s2)"
proof -
  have there: "\<exists>u'. tables s2 t = Some u'" if "tables s1 t = Some u" for t u
    using assms(2) that unfolding extends_def by metis
  show ?thesis
  proof (cases st)
    case (CreateTable t has_idx cols pk)
    with assms(1) have "t \<in> set support_tables \<or> (\<exists>u. tables s1 t = Some u)" by (auto split: if_splits)
    with there CreateTable show ?thesis by fastforce
  next
    case (AddColumn t name ty)
    show ?thesis
    proof (cases "t \<in> set support_tables")
      case False
      with assms(1) AddColumn obtain u where u: "tables s1 t = Some u" "name \<in> set (meta_of t) \<or> map_of (tb_cols u) name \<noteq> None"
        by (auto split: if_splits option.splits simp: map_add_def)
      with there obtain v where v: "tables s2 t = Some v" by blast
      with u extends_cols[OF assms(2) u(1)] have "name \<in> set (meta_of t) \<or> map_of (tb_cols v) name \<noteq> None" by fastforce
      with v AddColumn False show ?thesis by simp
    qed (simp add: AddColumn)
  next
    case (CreateTxIndex t)
    with assms(1) there show ?thesis by (fastforce split: if_splits)
  next
    case (CreateColumnIndex t name)
    show ?thesis
    proof (cases "t = ''raw_records''")
      case False
      with assms(1) CreateColumnIndex obtain u where u: "t \<notin> set support_tables" "tables s1 t = Some u"
        "name \<in> set (meta_of t) \<or> map_of (tb_cols u) name \<noteq> None" "table_has_idx t"
        by (auto split: if_splits option.splits)
      with there obtain v where v: "tables s2 t = Some v" by blast
      with u extends_cols[OF assms(2) u(2)] have "name \<in> set (meta_of t) \<or> map_of (tb_cols v) name \<noteq> None" by fastforce
      with u v CreateColumnIndex show ?thesis by simp
    qed (simp add: CreateColumnIndex)
  next
    case AddReceiptsForeignKey
    with assms(1) obtain r where "tables s1 RECEIPTS_TABLE = Some r" "tb_tx_fk r"
      by (auto split: if_splits option.splits)
    with assms(2) obtain v where "tables s2 RECEIPTS_TABLE = Some v" "tb_tx_fk v" unfolding extends_def by metis
    with AddReceiptsForeignKey show ?thesis by simp
  qed
qed

section \<open>Running a plan\<close>

abbreviation run_ddl :: "ddl_stmt list \<Rightarrow> (db, domain_error, unit) m" where
  "run_ddl sts \<equiv> for_each (\<lambda>st _. migrate_result (stmt (exec_ddl st))) sts ()"

lemma migrate_stmt_cases:
  assumes "migrate_result (stmt (exec_ddl st)) s = (r, s')"
  obtains "r = Ok ()" "exec_ddl st (s\<lparr>faults := tl (faults s)\<rparr>) = Inr ((), s')"
  | e where "r = Err e" "s' = s\<lparr>faults := tl (faults s)\<rparr>"
proof (cases "stmt (exec_ddl st) s")
  case (Pair r0 s0)
  show thesis
  proof (cases r0)
    case (Ok x)
    with Pair assms stmt_OkD[of "exec_ddl st" s x s0] that(1) show thesis by (auto simp: migrate_result_def)
  next
    case (Err e)
    with Pair assms stmt_ErrD[OF Pair] that(2) show thesis by (auto simp: migrate_result_def)
  next
    case Panic
    with stmt_ErrD[OF Pair] show thesis by simp
  qed
qed

lemma migrate_stmt_extends: "migrate_result (stmt (exec_ddl st)) s = (r, s') \<Longrightarrow> extends s s'"
  by (erule migrate_stmt_cases) (auto dest!: exec_ddl_extends intro: extends_trans[OF extends_faults])

lemma run_ddl_extends: "run_ddl sts s = (r, s') \<Longrightarrow> extends s s'"
  by (rule for_each_invariant[where P = "extends s" and f = "\<lambda>st _. migrate_result (stmt (exec_ddl st))" and xs = sts])
    (auto intro: extends_trans migrate_stmt_extends)

lemma run_ddl_Ok:
  "run_ddl sts s = (Ok (), s') \<Longrightarrow> st \<in> set sts \<Longrightarrow> \<exists>s0 s1. exec_ddl st s0 = Inr ((), s1) \<and> extends s1 s'"
proof (induction sts arbitrary: s)
  case (Cons x sts)
  from Cons.prems(1) obtain s1 where step: "migrate_result (stmt (exec_ddl x)) s = (Ok (), s1)"
    and rest: "run_ddl sts s1 = (Ok (), s')" by (auto elim!: bind_OkE)
  show ?case
  proof (cases "st = x")
    case True
    with step rest show ?thesis by (auto elim!: migrate_stmt_cases dest: run_ddl_extends)
  qed (use Cons rest in auto)
qed simp

lemma run_ddl_noop:
  assumes "faults s = []" and "\<forall>st \<in> set sts. exec_ddl st s = Inr ((), s)"
  shows "run_ddl sts s = (Ok (), s)"
  using assms by (induction sts) (auto simp: ret_def bind_def migrate_result_def stmt_no_faults)

lemma table_exists_OkD:
  assumes "table_exists t s = (Ok b, s')"
  shows "b = (t \<in> set support_tables \<or> tables s t \<noteq> None) \<and> s' = s\<lparr>faults := tl (faults s)\<rparr>"
proof -
  have "select_stmt (\<lambda>s. t \<in> set support_tables \<or> tables s t \<noteq> None) s = (Ok b, s')"
    using assms by (auto simp: table_exists_def migrate_result_def split: prod.splits)
  from select_stmt_OkD[OF this] show ?thesis by auto
qed

lemma table_exists_no_faults:
  "faults s = [] \<Longrightarrow> table_exists t s = (Ok (t \<in> set support_tables \<or> tables s t \<noteq> None), s)"
  by (simp add: table_exists_def migrate_result_def select_no_faults)

lemma migrator_plan_Ok:
  assumes "migrator_plan desired s = (Ok plan, s')"
  shows "pl_statements plan = concat (map table_statements desired) \<and> \<not> pl_destructive plan \<and> (\<exists>fs. s' = s\<lparr>faults := fs\<rparr>)"
proof -
  have "pl_statements plan = pl_statements p @ concat (map table_statements desired) \<and> pl_destructive plan = pl_destructive p
      \<and> (\<exists>fs. s' = s\<lparr>faults := fs\<rparr>)"
    if "for_each (\<lambda>schema plan. bind (table_exists (es_table schema)) (\<lambda>there.
         ret (plan\<lparr>pl_summary := pl_summary plan @ (if there then [] else [''CREATE TABLE '' @ es_table schema]),
                   pl_statements := pl_statements plan @ table_statements schema\<rparr>))) desired p s = (Ok plan, s')" for p s
    using that
  proof (induction desired arbitrary: p s)
    case Nil
    then show ?case by (cases s) (auto simp: ret_def)
  next
    case (Cons schema desired)
    then obtain there s1 where "table_exists (es_table schema) s = (Ok there, s1)"
      and rest: "for_each (\<lambda>schema plan. bind (table_exists (es_table schema)) (\<lambda>there.
         ret (plan\<lparr>pl_summary := pl_summary plan @ (if there then [] else [''CREATE TABLE '' @ es_table schema]),
                   pl_statements := pl_statements plan @ table_statements schema\<rparr>))) desired
          (p\<lparr>pl_summary := pl_summary p @ (if there then [] else [''CREATE TABLE '' @ es_table schema]),
             pl_statements := pl_statements p @ table_statements schema\<rparr>) s1 = (Ok plan, s')"
      by (auto elim!: bind_OkE dest!: ret_OkD)
    from Cons.IH[OF rest] table_exists_OkD[OF this(1)] show ?case by auto
  qed
  from this[OF assms[unfolded migrator_plan_def]] show ?thesis by simp
qed

lemma sync_loop_all:
  assumes "faults s = []" and "\<forall>schema \<in> set desired. es_table schema \<in> set support_tables \<or> tables s (es_table schema) \<noteq> None"
  shows "sync_loop desired s = (Ok True, s)"
  using assms by (induction desired) (auto simp: ret_def bind_def table_exists_no_faults)

section \<open>A fresh table\<close>

definition table_of :: "event_schema \<Rightarrow> typed_table" where
  "table_of schema = \<lparr>tb_cols = map (\<lambda>c. (cd_name c, column_sql_type (cd_ty c))) (es_columns schema),
     tb_pk = pk_of schema, tb_tx_fk = (es_table schema = RECEIPTS_TABLE), tb_rows = []\<rparr>"

text \<open>A schema Postgres accepts: a table name of its own, distinct columns, a key over its
  columns, and indexed parameters only where there is an \<open>idx\<close> column.\<close>

definition schema_ok :: "event_schema \<Rightarrow> bool" where
  "schema_ok schema \<longleftrightarrow> es_table schema \<notin> set support_tables
     \<and> distinct (meta_of (es_table schema) @ map cd_name (es_columns schema))
     \<and> set (pk_of schema) \<subseteq> set (meta_of (es_table schema) @ map cd_name (es_columns schema))
     \<and> (es_table schema = RECEIPTS_TABLE \<longrightarrow> es_indexed_positions schema = [])"

lemma exec_create_fresh:
  assumes "schema_ok schema" and "tables s (es_table schema) = None"
  shows "exec_ddl (create_table schema) s = Inr ((), s\<lparr>tables := (tables s)(es_table schema \<mapsto> (table_of schema)\<lparr>tb_tx_fk := False\<rparr>)\<rparr>)"
  using assms
  by (simp add: create_table_def schema_ok_def comp_def table_of_def list_all_iff case_prod_beta)

lemma create_indexes_cases:
  assumes "st \<in> set (create_indexes schema)"
  shows "st = CreateTxIndex (es_table schema)
    \<or> (\<exists>c \<in> set (es_columns schema). st = CreateColumnIndex (es_table schema) (cd_name c) \<and> es_indexed_positions schema \<noteq> [])"
proof (cases "st = CreateTxIndex (es_table schema)")
  case False
  with assms obtain pos where "pos \<in> set (es_indexed_positions schema)"
    "st \<in> set (case nth_opt (es_columns schema) pos of Some c \<Rightarrow> [CreateColumnIndex (es_table schema) (cd_name c)] | None \<Rightarrow> [])"
    by (auto simp: create_indexes_def Let_def simp del: One_nat_def split: if_splits)
  then show ?thesis by (auto simp: nth_opt_def split: if_splits)
qed simp

lemma exec_columns_noop:
  assumes "schema_ok schema" and "tables s (es_table schema) = Some u" and "tb_cols u = tb_cols (table_of schema)"
    and "st \<in> set (add_columns schema @ create_indexes schema)"
  shows "exec_ddl st s = Inr ((), s)"
proof -
  have col: "map_of (tb_cols u) (cd_name c) \<noteq> None" if "c \<in> set (es_columns schema)" for c
    using that by (auto simp: assms(3) table_of_def map_of_eq_None_iff image_iff)
  from assms(4) consider c where "c \<in> set (es_columns schema)" "st = AddColumn (es_table schema) (cd_name c) (pg_type (cd_ty c))"
    | "st = CreateTxIndex (es_table schema)"
    | c where "c \<in> set (es_columns schema)" "st = CreateColumnIndex (es_table schema) (cd_name c)" "es_indexed_positions schema \<noteq> []"
    using create_indexes_cases[of st schema] by (auto simp: add_columns_def)
  then show ?thesis
    using assms(1,2) col by cases (auto simp: schema_ok_def table_has_idx_def)
qed

lemma run_ddl_Cons: "faults s = [] \<Longrightarrow> exec_ddl st s = Inr ((), s1) \<Longrightarrow> run_ddl (st # sts) s = run_ddl sts s1"
  by (simp add: bind_def migrate_result_def stmt_no_faults)

lemma run_ddl_append: "run_ddl xs s = (Ok (), s1) \<Longrightarrow> run_ddl (xs @ ys) s = run_ddl ys s1"
  by (simp add: for_each_append bind_def)

lemma run_table_fresh:
  assumes "schema_ok schema" and "tables s (es_table schema) = None" and f: "faults s = []"
    and tx: "es_table schema = RECEIPTS_TABLE \<Longrightarrow> \<exists>t. tables s ''transactions'' = Some t \<and> tb_pk t = [''chain_id'', ''tx_id'']"
  shows "run_ddl (table_statements schema) s = (Ok (), s\<lparr>tables := (tables s)(es_table schema \<mapsto> table_of schema)\<rparr>)"
proof -
  let ?t = "es_table schema"
  let ?s1 = "s\<lparr>tables := (tables s)(?t \<mapsto> (table_of schema)\<lparr>tb_tx_fk := False\<rparr>)\<rparr>"
  have noop: "run_ddl (add_columns schema @ create_indexes schema) ?s1 = (Ok (), ?s1)"
    using exec_columns_noop[OF assms(1), of ?s1 "(table_of schema)\<lparr>tb_tx_fk := False\<rparr>"] f by (intro run_ddl_noop) auto
  have fk: "run_ddl (foreign_keys schema) ?s1 = (Ok (), s\<lparr>tables := (tables s)(?t \<mapsto> table_of schema)\<rparr>)"
  proof (cases "?t = RECEIPTS_TABLE")
    case True
    with tx obtain t where t: "tables s ''transactions'' = Some t" "tb_pk t = [''chain_id'', ''tx_id'']" by blast
    have "(table_of schema)\<lparr>tb_tx_fk := True\<rparr> = table_of schema" using True by (simp add: table_of_def)
    with True t f show ?thesis
      by (simp add: foreign_keys_def bind_def migrate_result_def stmt_no_faults ret_def) (simp add: table_of_def)
  next
    case False
    then have "(table_of schema)\<lparr>tb_tx_fk := False\<rparr> = table_of schema" by (simp add: table_of_def)
    with False show ?thesis by (simp add: foreign_keys_def ret_def)
  qed
  have "run_ddl (table_statements schema) s = run_ddl (add_columns schema @ create_indexes schema @ foreign_keys schema) ?s1"
    unfolding table_statements_def append_Cons append_Nil by (rule run_ddl_Cons[OF f exec_create_fresh[OF assms(1,2)]])
  also have "\<dots> = run_ddl (foreign_keys schema) ?s1"
    using run_ddl_append[OF noop] by simp
  finally show ?thesis using fk by simp
qed

text \<open>A list of schemas that can be created in order: distinct tables, receipts after the
  transactions they refer to.\<close>

fun creatable :: "event_schema list \<Rightarrow> string set \<Rightarrow> bool" where
  "creatable [] done \<longleftrightarrow> True"
| "creatable (schema # rest) done \<longleftrightarrow> schema_ok schema \<and> es_table schema \<notin> done
     \<and> (es_table schema = RECEIPTS_TABLE \<longrightarrow> ''transactions'' \<in> done)
     \<and> (es_table schema = ''transactions'' \<longrightarrow> pk_of schema = [''chain_id'', ''tx_id''])
     \<and> creatable rest (insert (es_table schema) done)"

definition schema_tables :: "event_schema list \<Rightarrow> string \<Rightarrow> typed_table option" where
  "schema_tables desired = map_of (map (\<lambda>schema. (es_table schema, table_of schema)) desired)"

lemma run_schemas_fresh:
  assumes "creatable desired done" and "dom (tables s) = done" and "faults s = []"
    and "\<And>t. tables s ''transactions'' = Some t \<Longrightarrow> tb_pk t = [''chain_id'', ''tx_id'']"
  shows "\<exists>s'. run_ddl (concat (map table_statements desired)) s = (Ok (), s')
     \<and> s' = s\<lparr>tables := tables s'\<rparr> \<and> (\<forall>schema \<in> set desired. tables s' (es_table schema) = Some (table_of schema))
     \<and> (\<forall>t \<in> done. tables s' t = tables s t)"
  using assms
proof (induction desired arbitrary: s "done")
  case Nil
  then show ?case by (auto simp: ret_def)
next
  case (Cons schema desired)
  let ?s1 = "s\<lparr>tables := (tables s)(es_table schema \<mapsto> table_of schema)\<rparr>"
  have one: "run_ddl (table_statements schema) s = (Ok (), ?s1)"
    using Cons.prems by (intro run_table_fresh) auto
  have pk: "tb_pk t = [''chain_id'', ''tx_id'']" if "tables ?s1 ''transactions'' = Some t" for t
    using that Cons.prems by (auto simp: table_of_def split: if_splits)
  have "creatable desired (insert (es_table schema) done)" "dom (tables ?s1) = insert (es_table schema) done" "faults ?s1 = []"
    using Cons.prems by auto
  from Cons.IH[OF this pk] obtain s' where s': "run_ddl (concat (map table_statements desired)) ?s1 = (Ok (), s')"
    "s' = ?s1\<lparr>tables := tables s'\<rparr>" "\<forall>schema \<in> set desired. tables s' (es_table schema) = Some (table_of schema)"
    "\<forall>t \<in> insert (es_table schema) done. tables s' t = tables ?s1 t" by blast
  have "run_ddl (concat (map table_statements (schema # desired))) s = (Ok (), s')"
    using run_ddl_append[OF one] s'(1) by simp
  moreover have "\<forall>t \<in> done. tables s' t = tables s t" using s'(4) Cons.prems(1) by auto
  moreover have "s' = s\<lparr>tables := tables s'\<rparr>" using s'(2) by simp
  ultimately show ?case using s'(3,4) by auto
qed

text \<open>After a successful run every statement of the plan is satisfied and every table exists.\<close>

lemma applied_statements:
  assumes "run_ddl (concat (map table_statements desired)) s1 = (Ok (), s2)" "schema \<in> set desired" "st \<in> set (table_statements schema)"
  shows "exec_ddl st s2 = Inr ((), s2)"
proof -
  have "st \<in> set (concat (map table_statements desired))" using assms(2,3) by auto
  from run_ddl_Ok[OF assms(1) this] show ?thesis using exec_ddl_again by blast
qed

lemma applied_tables:
  assumes "run_ddl (concat (map table_statements desired)) s1 = (Ok (), s2)" "schema \<in> set desired"
  shows "es_table schema \<in> set support_tables \<or> tables s2 (es_table schema) \<noteq> None"
proof -
  have "create_table schema \<in> set (table_statements schema)" by (simp add: table_statements_def)
  from applied_statements[OF assms this] show ?thesis
    by (auto simp: create_table_def split: if_splits dest!: arg_cong[where f = "\<lambda>d. tables d (es_table schema)"])
qed

lemma migrator_effect:
  assumes "migrator_plan desired s = (Ok plan, s1)" and "migrator_apply plan allow s1 = (r, s2)"
  shows "extends s s2
     \<and> (r = Ok () \<longrightarrow>
          (\<forall>schema \<in> set desired. es_table schema \<notin> set support_tables \<longrightarrow>
             (\<exists>u. tables s2 (es_table schema) = Some u \<and> (\<forall>c \<in> set (es_columns schema).
                cd_name c \<in> set (meta_of (es_table schema)) \<or> map_of (tb_cols u) (cd_name c) \<noteq> None)))
        \<and> (faults s2 = [] \<longrightarrow> is_in_sync desired s2 = (Ok True, s2) \<and> migrator_apply plan allow s2 = (Ok (), s2)))"
proof -
  obtain fs where p: "pl_statements plan = concat (map table_statements desired)" "\<not> pl_destructive plan" "s1 = s\<lparr>faults := fs\<rparr>"
    using migrator_plan_Ok[OF assms(1)] by blast
  have run: "run_ddl (concat (map table_statements desired)) s1 = (r, s2)"
    using assms(2) p by (simp add: migrator_apply_def)
  have ext: "extends s s2" using run_ddl_extends[OF run] p(3) extends_trans[OF extends_faults] by blast
  show ?thesis
  proof (cases "r = Ok ()")
    case True
    note again = applied_statements[OF run[unfolded True]] and here = applied_tables[OF run[unfolded True]]
    have cols: "\<exists>u. tables s2 (es_table schema) = Some u \<and> (\<forall>c \<in> set (es_columns schema).
          cd_name c \<in> set (meta_of (es_table schema)) \<or> map_of (tb_cols u) (cd_name c) \<noteq> None)"
      if schema: "schema \<in> set desired" and own: "es_table schema \<notin> set support_tables" for schema
    proof -
      from here[OF schema] own obtain u where u: "tables s2 (es_table schema) = Some u" by blast
      have "cd_name c \<in> set (meta_of (es_table schema)) \<or> map_of (tb_cols u) (cd_name c) \<noteq> None"
        if c: "c \<in> set (es_columns schema)" for c
      proof (rule ccontr)
        assume no: "\<not> ?thesis"
        have "AddColumn (es_table schema) (cd_name c) (pg_type (cd_ty c)) \<in> set (table_statements schema)"
          using c by (simp add: table_statements_def add_columns_def)
        from again[OF schema this] u own no
        have "tables s2 (es_table schema) = Some (u\<lparr>tb_cols := tb_cols u @ [(cd_name c, column_sql_type (cd_ty c))]\<rparr>)"
          by (auto dest!: arg_cong[where f = "\<lambda>d. tables d (es_table schema)"])
        with u have "tb_cols u = tb_cols u @ [(cd_name c, column_sql_type (cd_ty c))]" by (metis option.inject typed_table.simps(1) typed_table.update_convs(1) typed_table.select_convs(1) typed_table.surjective)
        then show False by simp
      qed
      with u show ?thesis by blast
    qed
    have "is_in_sync desired s2 = (Ok True, s2) \<and> migrator_apply plan allow s2 = (Ok (), s2)" if "faults s2 = []"
      using sync_loop_all[OF that] here run_ddl_noop[OF that, of "pl_statements plan"] again p
      by (auto simp: is_in_sync_def migrator_apply_def)
    with ext cols show ?thesis by blast
  qed (use ext in simp)
qed

section \<open>Properties\<close>


text \<open>
  A fresh database can be migrated: for schemas that Postgres accepts, with distinct tables
  and receipts listed after transactions, planning and applying succeed when no statement fails
  from outside, nothing is refused as destructive, and each table then has exactly the columns,
  Postgres types and key of its schema, with the foreign key on receipts.
\<close>

theorem migration_of_fresh_database:
  assumes "creatable desired {}" and "tables s = (\<lambda>_. None)" and "faults s = []"
  shows "\<exists>plan s'. migrator_plan desired s = (Ok plan, s) \<and> migrator_apply plan False s = (Ok (), s')
     \<and> (\<forall>schema \<in> set desired. tables s' (es_table schema) = Some (table_of schema))
     \<and> s' = s\<lparr>tables := tables s'\<rparr>"
proof -
  have "\<exists>plan. for_each (\<lambda>schema plan. bind (table_exists (es_table schema)) (\<lambda>there.
         ret (plan\<lparr>pl_summary := pl_summary plan @ (if there then [] else [''CREATE TABLE '' @ es_table schema]),
                   pl_statements := pl_statements plan @ table_statements schema\<rparr>))) desired p s = (Ok plan, s)" for p
    using assms(3) by (induction desired arbitrary: p) (auto simp: ret_def bind_def table_exists_no_faults)
  then obtain plan where plan: "migrator_plan desired s = (Ok plan, s)" unfolding migrator_plan_def by blast
  have "dom (tables s) = {}" by (simp add: assms(2))
  from run_schemas_fresh[OF assms(1) this assms(3)] obtain s' where
    s': "run_ddl (concat (map table_statements desired)) s = (Ok (), s')" "s' = s\<lparr>tables := tables s'\<rparr>"
    "\<forall>schema \<in> set desired. tables s' (es_table schema) = Some (table_of schema)" by (auto simp: assms(2))
  with migrator_plan_Ok[OF plan] have "migrator_apply plan False s = (Ok (), s')" by (simp add: migrator_apply_def)
  with plan s' show ?thesis by blast
qed

section \<open>Witnesses\<close>

definition demo_schema :: event_schema where
  "demo_schema = \<lparr>es_table = ''evt_erc20_transfer'', es_event = ''Transfer'', es_topic0 = None,
     es_columns = [\<lparr>cd_name = ''from'', cd_ty = CAddress, cd_indexed_hash = False\<rparr>,
       \<lparr>cd_name = ''value'', cd_ty = CUInt 256, cd_indexed_hash = False\<rparr>],
     es_indexed_positions = [0], es_pk_columns = event_pk\<rparr>"

lemma demo_creatable: "creatable [demo_schema] {}"
  by (simp add: schema_ok_def demo_schema_def support_tables_def meta_of_def table_has_idx_def RECEIPTS_TABLE_def
      pk_of_def event_pk_def)

theorem migration_of_fresh_database_witness:
  "\<exists>plan s'. migrator_plan [demo_schema] db_empty = (Ok plan, db_empty) \<and> migrator_apply plan False db_empty = (Ok (), s')
     \<and> tables s' ''evt_erc20_transfer'' = Some (table_of demo_schema)"
proof -
  have "tables db_empty = (\<lambda>_. None)" "faults db_empty = []" by (simp_all add: db_empty_def)
  from migration_of_fresh_database[OF demo_creatable this] show ?thesis by (auto simp: demo_schema_def)
qed


end
