(* ===== verification/Enrichment.thy ===== *)
theory Enrichment
  imports Rpc_Client Migrator
begin

text \<open>
  The auxiliary data of fetched records: the schemas and row builders of
  \<open>crates/source/src/enrichment.rs\<close>, the JSON-RPC batches of
  \<open>crates/source/src/batch.rs\<close> and \<open>fetch_aux\<close> of \<open>crates/source/src/client.rs\<close>.
  Batches in flight complete in any order, which is a parameter; the requests of two batches
  are not interleaved in the model.
\<close>

section \<open>Schemas and rows\<close>

definition col :: "string \<Rightarrow> column_type \<Rightarrow> column_def" where
  "col name ty = \<lparr>cd_name = name, cd_ty = ty, cd_indexed_hash = False\<rparr>"

definition aux_pk :: "string list" where
  "aux_pk = [''chain_id'', ''tx_id'']"

definition transactions_schema :: event_schema where
  "transactions_schema =
     \<lparr>es_table = ''transactions'', es_event = ''Transaction'', es_topic0 = None,
      es_columns = [col ''from_addr'' CAddress, col ''to_addr'' CAddress, col ''value'' (CUInt 256),
        col ''input'' CBytes, col ''gas'' (CUInt 256), col ''gas_price'' (CUInt 256), col ''nonce'' (CUInt 256)],
      es_indexed_positions = [], es_pk_columns = aux_pk\<rparr>"

definition receipts_schema :: event_schema where
  "receipts_schema =
     \<lparr>es_table = ''receipts'', es_event = ''Receipt'', es_topic0 = None,
      es_columns = [col ''status'' CBool, col ''gas_used'' (CUInt 256), col ''effective_gas_price'' (CUInt 256),
        col ''contract_address'' CAddress],
      es_indexed_positions = [], es_pk_columns = aux_pk\<rparr>"

definition aux_schemas :: "event_schema list" where
  "aux_schemas = [transactions_schema, receipts_schema]"

definition aux_row :: "chain_id \<Rightarrow> string \<Rightarrow> height \<Rightarrow> hash \<Rightarrow> hash \<Rightarrow> nat \<Rightarrow> (string \<times> event_value) list \<Rightarrow> event_row" where
  "aux_row cid table height bhash tx_id idx fs =
     \<lparr>er_chain_id = cid, er_height = height, er_block_hash = bhash, er_block_time = None, er_tx_id = tx_id,
      er_index = idx, er_event = \<lparr>de_table = table, de_fields = fs\<rparr>\<rparr>"

record tx_fields =
  tf_from :: bytes
  tf_tx_index :: nat
  tf_value :: string
  tf_input :: bytes
  tf_gas :: string
  tf_nonce :: string
  tf_to :: "bytes option"
  tf_gas_price :: "string option"

definition opt_field :: "string \<Rightarrow> ('a \<Rightarrow> event_value) \<Rightarrow> 'a option \<Rightarrow> (string \<times> event_value) list" where
  "opt_field name f v = (case v of None \<Rightarrow> [] | Some x \<Rightarrow> [(name, f x)])"

definition transaction_row :: "chain_id \<Rightarrow> height \<Rightarrow> hash \<Rightarrow> hash \<Rightarrow> tx_fields \<Rightarrow> event_row" where
  "transaction_row cid height bhash tx_id f =
     aux_row cid ''transactions'' height bhash tx_id (tf_tx_index f)
       ([(''from_addr'', EvAddress (tf_from f)), (''value'', EvUint (tf_value f)), (''input'', EvBytes (tf_input f)),
         (''gas'', EvUint (tf_gas f)), (''nonce'', EvUint (tf_nonce f))]
        @ opt_field ''to_addr'' EvAddress (tf_to f) @ opt_field ''gas_price'' EvUint (tf_gas_price f))"

record receipt_fields =
  rf_status :: bool
  rf_gas_used :: string
  rf_effective_gas_price :: string
  rf_contract_address :: "bytes option"

definition receipt_row :: "chain_id \<Rightarrow> height \<Rightarrow> hash \<Rightarrow> hash \<Rightarrow> receipt_fields \<Rightarrow> event_row" where
  "receipt_row cid height bhash tx_id f =
     aux_row cid ''receipts'' height bhash tx_id 0
       ([(''status'', EvBool (rf_status f)), (''gas_used'', EvUint (rf_gas_used f)),
         (''effective_gas_price'', EvUint (rf_effective_gas_price f))]
        @ opt_field ''contract_address'' EvAddress (rf_contract_address f))"

section \<open>Assembling\<close>

definition block_meta_of :: "chain_id \<Rightarrow> eth_block \<Rightarrow> block_meta" where
  "block_meta_of cid b = \<lparr>bm_chain_id = cid, bm_height = bk_number b, bm_hash = bk_hash b,
     bm_parent_hash = bk_parent_hash b, bm_time = as_i64 (bk_timestamp b)\<rparr>"

definition tx_fields_of :: "nat \<Rightarrow> eth_tx \<Rightarrow> tx_fields" where
  "tx_fields_of i tx = \<lparr>tf_from = et_from tx, tf_tx_index = i, tf_value = show_nat (et_value tx), tf_input = et_input tx,
     tf_gas = show_nat (et_gas_limit tx), tf_nonce = show_nat (et_nonce tx), tf_to = et_to tx,
     tf_gas_price = map_option show_nat (et_gas_price tx)\<rparr>"

text \<open>The inner loop over \<open>txns().enumerate()\<close>: only matched transactions.\<close>

fun matched_txs :: "chain_id \<Rightarrow> bytes list \<Rightarrow> eth_block \<Rightarrow> nat \<Rightarrow> eth_tx list \<Rightarrow> event_row list" where
  "matched_txs cid tx_ids b i [] = []"
| "matched_txs cid tx_ids b i (tx # txs) =
     (if et_hash tx \<notin> set tx_ids then []
      else [transaction_row cid (bk_number b) (bk_hash b) (et_hash tx) (tx_fields_of i tx)])
     @ matched_txs cid tx_ids b (Suc i) txs"

fun block_aux :: "chain_id \<Rightarrow> (nat \<times> eth_block option) list \<Rightarrow> bytes list \<Rightarrow> aux_data \<Rightarrow> (source_error, aux_data) res" where
  "block_aux cid [] tx_ids aux = Ok aux"
| "block_aux cid ((h, None) # rest) tx_ids aux = Err (Malformed (''block '' @ show_nat h @ '' not found''))"
| "block_aux cid ((h, Some b) # rest) tx_ids aux = block_aux cid rest tx_ids
     (aux\<lparr>ax_block_metas := ax_block_metas aux @ [block_meta_of cid b],
          ax_enrichment := ax_enrichment aux @ matched_txs cid tx_ids b 0 (bk_txns b)\<rparr>)"

definition receipt_fields_of :: "eth_receipt \<Rightarrow> receipt_fields" where
  "receipt_fields_of r = \<lparr>rf_status = rc_status r, rf_gas_used = show_nat (rc_gas_used r),
     rf_effective_gas_price = show_nat (rc_effective_gas_price r), rf_contract_address = rc_contract_address r\<rparr>"

fun receipt_aux :: "chain_id \<Rightarrow> (bytes \<times> eth_receipt option) list \<Rightarrow> (bytes \<Rightarrow> (height \<times> hash) option) \<Rightarrow> aux_data \<Rightarrow> aux_data" where
  "receipt_aux cid [] tx_loc aux = aux"
| "receipt_aux cid ((txid, None) # rest) tx_loc aux = receipt_aux cid rest tx_loc aux"
| "receipt_aux cid ((txid, Some r) # rest) tx_loc aux =
     (let (height, bhash) = (case tx_loc txid of Some l \<Rightarrow> l | None \<Rightarrow> (0, []))
      in receipt_aux cid rest tx_loc
           (aux\<lparr>ax_enrichment := ax_enrichment aux @ [receipt_row cid height bhash txid (receipt_fields_of r)]\<rparr>))"

section \<open>Batches\<close>

definition max_batch_of :: "'n rpc_source \<Rightarrow> nat" where
  "max_batch_of src = max (max_batch (rs_plan src)) 1"

text \<open>The results of a batch paired with their requests; the first failed one fails it.\<close>

fun pair_results :: "'i list \<Rightarrow> (string + 'r) list \<Rightarrow> (string, ('i \<times> 'r) list) res" where
  "pair_results (i # is) (Inr r # rs) = map_ok ((#) (i, r)) (pair_results is rs)"
| "pair_results (i # is) (Inl e # rs) = Err e"
| "pair_results _ _ = Ok []"

text \<open>The closure of \<open>batch_chunk\<close>: compute units for the whole batch, one permit per request,
  metering, the parameters (which may panic), the round trip, the results.\<close>

definition batch_call :: "'n rpc_source \<Rightarrow> rpc_call \<Rightarrow> 'i list \<Rightarrow> bool
    \<Rightarrow> ('i list \<Rightarrow> 'n \<Rightarrow> (string + (string + 'r) list) \<times> 'n) \<Rightarrow> ('n rpc, string, ('i \<times> 'r) list) m" where
  "batch_call src call chunk params_ok io s =
     (let s1 = enter src call ((acquire ^^ length chunk) (acquire_cu (rs_limiter src) (cu_for src call) s))
      in if \<not> params_ok then (Panic, s1)
         else bind (on_net (io chunk)) (\<lambda>rs s. (pair_results chunk rs, s)) s1)"

definition batch_chunk :: "'n rpc_source \<Rightarrow> (nat \<Rightarrow> rpc_call) \<Rightarrow> ('i \<Rightarrow> bool)
    \<Rightarrow> ('i list \<Rightarrow> 'n \<Rightarrow> (string + (string + 'r) list) \<times> 'n) \<Rightarrow> 'i list
    \<Rightarrow> ('n rpc, source_error, ('i \<times> 'r) list) m" where
  "batch_chunk src call params_ok io chunk =
     with_retry (batch_call src (call (length chunk)) chunk (list_all params_ok chunk) io)"

text \<open>\<open>buffer_unordered\<close> and \<open>try_collect\<close>: the batches complete in the order
  \<open>sched\<close>.\<close>

definition batched :: "'n rpc_source \<Rightarrow> ('i list list \<Rightarrow> 'i list list) \<Rightarrow> (nat \<Rightarrow> rpc_call) \<Rightarrow> ('i \<Rightarrow> bool)
    \<Rightarrow> ('i list \<Rightarrow> 'n \<Rightarrow> (string + (string + 'r) list) \<times> 'n) \<Rightarrow> 'i list
    \<Rightarrow> ('n rpc, source_error, ('i \<times> 'r) list) m" where
  "batched src sched call params_ok io items =
     for_each (\<lambda>chunk out. bind (batch_chunk src call params_ok io chunk) (\<lambda>rs. ret (out @ rs)))
       (sched (chunks (max_batch_of src) items)) []"

section \<open>Fetching auxiliary data\<close>

record aux_sched =
  sc_blocks :: "nat list list \<Rightarrow> nat list list"
  sc_receipts :: "bytes list list \<Rightarrow> bytes list list"
  sc_blocks_first :: bool

definition heights_of :: "raw_record list \<Rightarrow> nat list" where
  "heights_of records = sort (remdups (map rr_height records))"

definition tx_ids_of :: "raw_record list \<Rightarrow> bytes list" where
  "tx_ids_of records = sort (remdups (map rr_tx_id records))"

definition tx_loc_of :: "raw_record list \<Rightarrow> bytes \<Rightarrow> (height \<times> hash) option" where
  "tx_loc_of records = map_of (map (\<lambda>r. (rr_tx_id r, (rr_height r, rr_block_hash r))) records)"

definition fetch_blocks :: "aux_sched \<Rightarrow> 'n rpc_source \<Rightarrow> raw_record list \<Rightarrow> ('n rpc, source_error, (nat \<times> eth_block option) list) m" where
  "fetch_blocks sched src records = batched src (sc_blocks sched) (\<lambda>n. BlockByNumber n True) (\<lambda>_. True)
     (p_batch_blocks (rs_provider src)) (heights_of records)"

definition fetch_receipts :: "aux_sched \<Rightarrow> 'n rpc_source \<Rightarrow> raw_record list
    \<Rightarrow> ('n rpc, source_error, (bytes \<times> eth_receipt option) list) m" where
  "fetch_receipts sched src records = batched src (sc_receipts sched) Receipt (\<lambda>id. length id = 32)
     (p_batch_receipts (rs_provider src)) (tx_ids_of records)"

definition fetch_aux :: "aux_sched \<Rightarrow> 'n rpc_source \<Rightarrow> raw_record list \<Rightarrow> ('n rpc, domain_error, aux_data) m" where
  "fetch_aux sched src records = source_result
     (bind (if sc_blocks_first sched
            then bind (fetch_blocks sched src records) (\<lambda>bs. bind (fetch_receipts sched src records) (\<lambda>rs. ret (bs, rs)))
            else bind (fetch_receipts sched src records) (\<lambda>rs. bind (fetch_blocks sched src records) (\<lambda>bs. ret (bs, rs))))
       (\<lambda>(bs, rs). bind (\<lambda>s. (block_aux (rs_chain_id src) bs (tx_ids_of records) aux_data_default, s))
         (\<lambda>aux. ret (receipt_aux (rs_chain_id src) rs (tx_loc_of records) aux))))"

section \<open>Lemmas\<close>

lemma batch_call_frame:
  "slept_ms (snd (batch_call src c chunk ok io s)) = slept_ms s"
  "rps_permits (snd (batch_call src c chunk ok io s)) = rps_permits s + length chunk"
proof -
  have a: "slept_ms ((acquire ^^ n) t) = slept_ms t" "rps_permits ((acquire ^^ n) t) = rps_permits t + n" for n and t :: "'a rpc"
    by (induction n) (auto simp: acquire_def)
  define s1 where "s1 = enter src c ((acquire ^^ length chunk) (acquire_cu (rs_limiter src) (cu_for src c) s))"
  have s1: "slept_ms s1 = slept_ms s" "rps_permits s1 = rps_permits s + length chunk"
    by (simp_all add: s1_def enter_def a acquire_cu_def split: option.split)
  have "slept_ms (snd (bind (on_net (io chunk)) (\<lambda>rs s. (pair_results chunk rs, s)) s1)) = slept_ms s1"
    "rps_permits (snd (bind (on_net (io chunk)) (\<lambda>rs s. (pair_results chunk rs, s)) s1)) = rps_permits s1"
    by (auto simp: bind_def on_net_def split: prod.splits sum.splits)
  with s1 show "slept_ms (snd (batch_call src c chunk ok io s)) = slept_ms s"
    "rps_permits (snd (batch_call src c chunk ok io s)) = rps_permits s + length chunk"
    by (simp_all add: batch_call_def Let_def s1_def[symmetric])
qed

lemma pair_results_no_panic: "pair_results is rs \<noteq> Panic"
proof (induction "is" rs rule: pair_results.induct)
  case (1 i "is" r rs)
  then show ?case by (cases "pair_results is rs") auto
qed auto

lemma batch_call_no_panic: "fst (batch_call src c chunk True io s) \<noteq> Panic"
  using pair_results_no_panic[of chunk]
  by (auto simp: batch_call_def Let_def bind_def on_net_def split: prod.splits sum.splits)

text \<open>A batch obeys the closure contract of the retry loop with one permit per request.\<close>

interpretation batch: gated_call "batch_call src c chunk True io" "length chunk" for src c chunk io
  by unfold_locales (simp_all add: batch_call_frame batch_call_no_panic)

lemma batch_call_OkD:
  assumes "batch_call src c chunk ok io s = (Ok out, s')"
  shows "\<exists>n rs. fst (io chunk n) = Inr rs \<and> pair_results chunk rs = Ok out"
  using assms by (auto simp: batch_call_def Let_def on_net_def elim!: bind_OkE split: if_splits prod.splits sum.splits)
    (metis fst_conv)

lemma pair_results_OkD:
  "pair_results is rs = Ok out \<Longrightarrow> length rs = length is \<Longrightarrow> map fst out = is \<and> rs = map (\<lambda>p. Inr (snd p)) out"
  by (induction "is" rs arbitrary: out rule: pair_results.induct) (auto split: res.splits elim!: map_ok.elims)

text \<open>What the endpoint promises: one answer per request, and a block answers its number.\<close>

definition answers :: "('i list \<Rightarrow> 'n \<Rightarrow> (string + (string + 'r) list) \<times> 'n) \<Rightarrow> ('i \<Rightarrow> 'r \<Rightarrow> bool) \<Rightarrow> bool" where
  "answers io ok \<longleftrightarrow> (\<forall>chunk n rs. fst (io chunk n) = Inr rs \<longrightarrow>
     list_all2 (\<lambda>i r. case r of Inr x \<Rightarrow> ok i x | Inl _ \<Rightarrow> True) chunk rs)"

lemma batch_chunk_OkD:
  assumes "batch_chunk src c params_ok io chunk s = (Ok out, s')" and "answers io ok"
  shows "map fst out = chunk \<and> (\<forall>(i, r) \<in> set out. ok i r)"
proof -
  obtain n rs where rs: "fst (io chunk n) = Inr rs" "pair_results chunk rs = Ok out"
    using assms(1) batch_call_OkD unfolding batch_chunk_def by (metis with_retry_OkD)
  have l: "list_all2 (\<lambda>i r. case r of Inr x \<Rightarrow> ok i x | Inl _ \<Rightarrow> True) chunk rs"
    using assms(2) rs(1) unfolding answers_def by blast
  from pair_results_OkD[OF rs(2)] list_all2_lengthD[OF l] have o: "map fst out = chunk" "rs = map (\<lambda>p. Inr (snd p)) out" by auto
  have "ok i r" if "(i, r) \<in> set out" for i r
    using l that unfolding o(1)[symmetric] o(2) by (auto simp: list_all2_conv_all_nth in_set_conv_nth)
  with o(1) show ?thesis by blast
qed

lemma mset_concat_cong: "mset xs = mset ys \<Longrightarrow> mset (concat xs) = mset (concat ys)"
proof -
  have "mset (concat zs) = \<Sum>\<^sub># (image_mset mset (mset zs))" for zs :: "'a list list" by (induction zs) auto
  then show "mset xs = mset ys \<Longrightarrow> mset (concat xs) = mset (concat ys)" by simp
qed

lemma batched_OkD:
  assumes "batched src sched c params_ok io items s = (Ok out, s')" and "answers io ok"
    and "\<And>cs. mset (sched cs) = mset cs"
  shows "mset (map fst out) = mset items \<and> (\<forall>(i, r) \<in> set out. ok i r)"
proof -
  let ?f = "\<lambda>chunk out. bind (batch_chunk src c params_ok io chunk) (\<lambda>rs. ret (out @ rs))"
  have "map fst out = map fst acc @ concat cs \<and> ((\<forall>(i, r) \<in> set acc. ok i r) \<longrightarrow> (\<forall>(i, r) \<in> set out. ok i r))"
    if "for_each ?f cs acc t = (Ok out, s')" for cs acc t
    using that
  proof (induction cs arbitrary: acc t)
    case Nil
    then show ?case by (simp add: ret_def)
  next
    case (Cons chunk cs)
    then obtain rs t' where b: "batch_chunk src c params_ok io chunk t = (Ok rs, t')"
      and rest: "for_each ?f cs (acc @ rs) t' = (Ok out, s')" by (auto elim!: bind_OkE dest!: ret_OkD)
    from batch_chunk_OkD[OF b assms(2)] Cons.IH[OF rest] show ?case by auto
  qed
  from this[OF assms(1)[unfolded batched_def]] have o: "map fst out = concat (sched (chunks (max_batch_of src) items))"
    "\<forall>(i, r) \<in> set out. ok i r" by auto
  have "mset (concat (sched (chunks (max_batch_of src) items))) = mset (concat (chunks (max_batch_of src) items))"
    by (rule mset_concat_cong) (rule assms(3))
  also have "concat (chunks (max_batch_of src) items) = items" by (rule concat_chunks) (simp add: max_batch_of_def)
  finally show ?thesis using o by metis
qed

lemma block_aux_OkD:
  "block_aux cid bs tx_ids aux = Ok aux' \<Longrightarrow>
     ax_block_metas aux' = ax_block_metas aux @ map (block_meta_of cid \<circ> the \<circ> snd) bs
   \<and> ax_enrichment aux' = ax_enrichment aux @ concat (map (\<lambda>p. matched_txs cid tx_ids (the (snd p)) 0 (bk_txns (the (snd p)))) bs)"
proof (induction bs arbitrary: aux)
  case (Cons p bs)
  obtain h b where p: "p = (h, Some b)" using Cons.prems by (cases p; cases "snd p") auto
  with Cons.prems have "block_aux cid bs tx_ids
     (aux\<lparr>ax_block_metas := ax_block_metas aux @ [block_meta_of cid b],
          ax_enrichment := ax_enrichment aux @ matched_txs cid tx_ids b 0 (bk_txns b)\<rparr>) = Ok aux'" by simp
  from Cons.IH[OF this] show ?case by (simp add: p)
qed simp

lemma block_aux_found: "block_aux cid bs tx_ids aux = Ok aux' \<Longrightarrow> p \<in> set bs \<Longrightarrow> \<exists>h b. p = (h, Some b)"
proof (induction bs arbitrary: aux)
  case (Cons q bs)
  obtain h b where q: "q = (h, Some b)" using Cons.prems by (cases q; cases "snd q") auto
  show ?case
  proof (cases "p = q")
    case False
    with Cons.prems Cons.IH q show ?thesis by auto
  qed (simp add: q)
qed simp

definition located :: "(bytes \<Rightarrow> (height \<times> hash) option) \<Rightarrow> bytes \<Rightarrow> height \<times> hash" where
  "located tx_loc txid = (case tx_loc txid of Some l \<Rightarrow> l | None \<Rightarrow> (0, []))"

definition receipt_rows :: "chain_id \<Rightarrow> (bytes \<Rightarrow> (height \<times> hash) option) \<Rightarrow> bytes \<times> eth_receipt option \<Rightarrow> event_row list" where
  "receipt_rows cid tx_loc p = (case snd p of None \<Rightarrow> []
     | Some r \<Rightarrow> [receipt_row cid (fst (located tx_loc (fst p))) (snd (located tx_loc (fst p))) (fst p) (receipt_fields_of r)])"

lemma receipt_aux_eq:
  "receipt_aux cid rs tx_loc aux = aux\<lparr>ax_enrichment := ax_enrichment aux @ concat (map (receipt_rows cid tx_loc) rs)\<rparr>"
  by (induction cid rs tx_loc aux rule: receipt_aux.induct)
    (auto simp: Let_def case_prod_beta receipt_rows_def located_def)

lemma matched_txs_rows:
  assumes "row \<in> set (matched_txs cid tx_ids b i txs)"
  obtains tx j where "tx \<in> set txs" "et_hash tx \<in> set tx_ids"
     "row = transaction_row cid (bk_number b) (bk_hash b) (et_hash tx) (tx_fields_of j tx)"
  using assms by (induction txs arbitrary: i) (auto split: if_splits)

lemma fetch_aux_OkE:
  assumes "fetch_aux sched src records s = (Ok aux, s')"
  obtains bs rs aux1 t1 t1' t2 t2' where "fetch_blocks sched src records t1 = (Ok bs, t1')"
    "fetch_receipts sched src records t2 = (Ok rs, t2')"
    "block_aux (rs_chain_id src) bs (tx_ids_of records) aux_data_default = Ok aux1"
    "aux = receipt_aux (rs_chain_id src) rs (tx_loc_of records) aux1"
  using assms unfolding fetch_aux_def source_result_def Let_def
  by (auto split: prod.splits if_splits elim!: bind_OkE dest!: ret_OkD)

section \<open>Properties\<close>

definition schedules :: "aux_sched \<Rightarrow> bool" where
  "schedules sched \<longleftrightarrow> (\<forall>cs. mset (sc_blocks sched cs) = mset cs) \<and> (\<forall>cs. mset (sc_receipts sched cs) = mset cs)"

definition answers_blocks :: "'n provider \<Rightarrow> bool" where
  "answers_blocks p \<longleftrightarrow> answers (p_batch_blocks p) (\<lambda>h b. case b of Some x \<Rightarrow> bk_number x = h | None \<Rightarrow> True)"

definition answers_receipts :: "'n provider \<Rightarrow> bool" where
  "answers_receipts p \<longleftrightarrow> answers (p_batch_receipts p) (\<lambda>_ _. True)"

lemma receipt_row_located:
  assumes "fst p \<in> rr_tx_id ` set records" and "row \<in> set (receipt_rows cid (tx_loc_of records) p)"
  shows "er_chain_id row = cid \<and> (\<exists>r \<in> set records. rr_tx_id r = er_tx_id row
     \<and> rr_height r = er_height row \<and> rr_block_hash r = er_block_hash row)"
proof -
  have "tx_loc_of records (fst p) \<noteq> None" using assms(1) unfolding tx_loc_of_def map_of_eq_None_iff by force
  then obtain l where l: "tx_loc_of records (fst p) = Some l" by blast
  from map_of_SomeD[OF this[unfolded tx_loc_of_def]] obtain r where
    r: "r \<in> set records" "rr_tx_id r = fst p" "l = (rr_height r, rr_block_hash r)" by auto
  from assms(2) have "er_tx_id row = fst p \<and> er_chain_id row = cid \<and> er_height row = fst l \<and> er_block_hash row = snd l"
    by (auto simp: receipt_rows_def located_def l receipt_row_def aux_row_def split: option.splits)
  with r show ?thesis by auto
qed


text \<open>
  The auxiliary rows cannot drift from their schemas: the two auxiliary schemas can be
  migrated in order, with the receipts' foreign key, and every transaction row and every
  receipt row, whatever optional values are absent, names only existing columns with
  assignable values.
\<close>

theorem aux_rows_fit_tables:
  "creatable aux_schemas {}
   \<and> columns_ok (table_of transactions_schema) [typed_row_of (table_has_idx ''transactions'') (transaction_row cid h bh tx f)]
   \<and> columns_ok (table_of receipts_schema) [typed_row_of (table_has_idx ''receipts'') (receipt_row cid h bh tx g)]"
  by (simp add: aux_schemas_def schema_ok_def transactions_schema_def receipts_schema_def support_tables_def meta_of_def
      table_has_idx_def RECEIPTS_TABLE_def pk_of_def aux_pk_def col_def columns_ok_def table_of_def typed_row_of_def
      transaction_row_def receipt_row_def aux_row_def opt_field_def meta_columns_def assignable_def split: option.split)

text \<open>
  A batch is rate limited per request and retried within bounds: a batch of well-formed
  requests never panics, makes at most six attempts, takes one request permit per request of
  the batch in each attempt, and ends with the results or with the transport error of its last
  attempt, which is then not transient or the sixth.
\<close>

theorem batch_chunk_bounded:
  assumes "list_all params_ok chunk"
  shows "\<exists>r s' ds. batch_chunk src call params_ok io chunk s = (r, s') \<and> length ds \<le> 5
     \<and> slept_ms s' = slept_ms s @ ds \<and> rps_permits s' = rps_permits s + length chunk * (length ds + 1)
     \<and> ((\<exists>v. r = Ok v) \<or> (\<exists>e. r = Err (Transport e) \<and> (\<not> transient e \<or> length ds = 5)))"
  using batch.with_retry_spec[of src "call (length chunk)" chunk io s] assms unfolding batch_chunk_def by fastforce

section \<open>Witnesses\<close>

definition demo_aux_provider :: "unit provider" where
  "demo_aux_provider = \<lparr>p_get_block_number = (\<lambda>n. (Inr 100, n)), p_get_logs = (\<lambda>f lo hi n. (Inr [], n)),
     p_get_block_by_number = (\<lambda>h n. (Inr None, n)), p_subscribe_logs = (\<lambda>f n. (Inr [], n)),
     p_batch_blocks = (\<lambda>hs n. (Inr (map (\<lambda>h. Inr (Some \<lparr>bk_hash = [1], bk_number = h, bk_parent_hash = [], bk_timestamp = 5,
        bk_txns = []\<rparr>)) hs), n)),
     p_batch_receipts = (\<lambda>ids n. (Inr (map (\<lambda>_. Inr (Some \<lparr>rc_status = True, rc_gas_used = 21000, rc_effective_gas_price = 1,
        rc_contract_address = None\<rparr>)) ids), n))\<rparr>"

definition demo_aux_source :: "unit rpc_source" where
  "demo_aux_source = rpc_source_new 1 demo_aux_provider None plan_profile_default AlchemyCost 4"

definition demo_aux_rpc :: "unit rpc" where
  "demo_aux_rpc = \<lparr>net = (), jitter_state = 0, slept_ms = [], rps_permits = 0, cu_bursts = [],
     ledger = ledger_new None (1, 1), density_milli = 0\<rparr>"

definition demo_sched :: aux_sched where
  "demo_sched = \<lparr>sc_blocks = rev, sc_receipts = (\<lambda>c. c), sc_blocks_first = True\<rparr>"

definition demo_aux_records :: "raw_record list" where
  "demo_aux_records = [\<lparr>rr_chain_id = 1, rr_height = 9, rr_block_hash = [7], rr_index = 0, rr_address = [], rr_selectors = [],
     rr_data = [], rr_tx_id = replicate 32 0, rr_tx_index = 0, rr_inner_index = None\<rparr>]"

lemma demo_answers: "answers_blocks demo_aux_provider" "answers_receipts demo_aux_provider"
  by (auto simp: answers_blocks_def answers_receipts_def answers_def demo_aux_provider_def list_all2_conv_all_nth)

lemma pair_results_all: "length rs = length is \<Longrightarrow> pair_results is (map Inr rs) = Ok (zip is rs)"
  by (induction rs "is" rule: list_induct2) auto

lemma batch_succeeds:
  assumes "\<And>n. fst (io chunk n) = Inr (map Inr rs)" and "length rs = length chunk"
  shows "\<exists>s'. batch_call src c chunk True io s = (Ok (zip chunk rs), s')"
proof -
  show ?thesis
    using assms(1)[of "net (enter src c ((acquire ^^ length chunk) (acquire_cu (rs_limiter src) (cu_for src c) s)))"]
    by (auto simp: batch_call_def Let_def bind_def on_net_def pair_results_all[OF assms(2)] split: prod.splits sum.splits)
qed

lemma retry_first_try: "call s = (Ok v, s') \<Longrightarrow> with_retry call s = (Ok v, s')"
  by (simp add: with_retry_def retry_loop.simps)

lemma batch_chunk_succeeds:
  assumes "\<And>n. fst (io chunk n) = Inr (map Inr rs)" and "length rs = length chunk" and "list_all params_ok chunk"
  shows "\<exists>s'. batch_chunk src c params_ok io chunk s = (Ok (zip chunk rs), s')"
proof -
  obtain s' where "batch_call src (c (length chunk)) chunk True io s = (Ok (zip chunk rs), s')"
    using batch_succeeds[of io chunk rs] assms by blast
  then have "with_retry (batch_call src (c (length chunk)) chunk True io) s = (Ok (zip chunk rs), s')" by (rule retry_first_try)
  then show ?thesis using assms(3) unfolding batch_chunk_def by auto
qed

lemma demo_fetch_aux: "\<exists>aux s'. fetch_aux demo_sched demo_aux_source demo_aux_records demo_aux_rpc = (Ok aux, s')"
proof -
  have mb: "max_batch_of demo_aux_source \<noteq> 0" by (simp add: max_batch_of_def)
  have one: "chunks (max_batch_of demo_aux_source) [x] = [[x]]" for x :: 'a
    using mb by (simp add: chunks.simps take_Cons' drop_Cons')
  have h: "heights_of demo_aux_records = [9]" "tx_ids_of demo_aux_records = [replicate 32 0]"
    by (simp_all add: heights_of_def tx_ids_of_def demo_aux_records_def)
  let ?b = "\<lparr>bk_hash = [1], bk_number = 9, bk_parent_hash = [], bk_timestamp = 5, bk_txns = []\<rparr>"
  let ?r = "\<lparr>rc_status = True, rc_gas_used = 21000, rc_effective_gas_price = 1, rc_contract_address = None\<rparr>"
  have prov: "rs_provider demo_aux_source = demo_aux_provider" by (simp add: demo_aux_source_def rpc_source_new_def)
  have b: "\<exists>s'. fetch_blocks demo_sched demo_aux_source demo_aux_records s = (Ok [(9, Some ?b)], s')" for s
  proof -
    have "\<exists>s'. batch_chunk demo_aux_source (\<lambda>n. BlockByNumber n True) (\<lambda>_. True) (p_batch_blocks demo_aux_provider) [9] s
        = (Ok (zip [9] [Some ?b]), s')"
      by (rule batch_chunk_succeeds[where rs = "[Some ?b]"]) (simp_all add: demo_aux_provider_def)
    then show ?thesis unfolding fetch_blocks_def batched_def h one prov by (auto simp: demo_sched_def bind_def ret_def)
  qed
  have r: "\<exists>s'. fetch_receipts demo_sched demo_aux_source demo_aux_records s = (Ok [(replicate 32 0, Some ?r)], s')" for s
  proof -
    have "\<exists>s'. batch_chunk demo_aux_source Receipt (\<lambda>id. length id = 32) (p_batch_receipts demo_aux_provider) [replicate 32 0] s
        = (Ok (zip [replicate 32 0] [Some ?r]), s')"
      by (rule batch_chunk_succeeds[where rs = "[Some ?r]"]) (simp_all add: demo_aux_provider_def)
    then show ?thesis unfolding fetch_receipts_def batched_def h one prov by (auto simp: demo_sched_def bind_def ret_def)
  qed
  obtain s1 where s1: "fetch_blocks demo_sched demo_aux_source demo_aux_records demo_aux_rpc = (Ok [(9, Some ?b)], s1)" using b by blast
  obtain s2 where s2: "fetch_receipts demo_sched demo_aux_source demo_aux_records s1 = (Ok [(replicate 32 0, Some ?r)], s2)" using r by blast
  have f: "sc_blocks_first demo_sched" by (simp add: demo_sched_def)
  show ?thesis
    unfolding fetch_aux_def source_result_def bind_def Let_def by (simp add: f s1 s2 ret_def)
qed


theorem batch_chunk_bounded_witness:
  "\<exists>r s'. batch_chunk demo_aux_source Receipt (\<lambda>id. length id = 32) (p_batch_receipts demo_aux_provider) [replicate 32 0] demo_aux_rpc = (r, s')
     \<and> r \<noteq> Panic"
  using batch_chunk_bounded[of "\<lambda>id. length id = 32" "[replicate 32 (0 :: byte)]" demo_aux_source Receipt
      "p_batch_receipts demo_aux_provider" demo_aux_rpc] by auto

end
