(* ===== verification/Work_Queue.thy ===== *)
theory Work_Queue
  imports Repositories
begin

text \<open>
  \<open>crates/db/src/repositories/queue_repo.rs\<close>: the durable work queue with leases, and
  the competing consumers that use it as a transition system. Every operation is one
  statement (or one transaction) and is modelled as one atomic step.
\<close>

section \<open>Operations\<close>

fun kind_str :: "work_kind \<Rightarrow> string" where
  "kind_str Backfill = ''backfill''"
| "kind_str Tip = ''tip''"
| "kind_str Reorg = ''reorg''"

definition parse_kind :: "string \<Rightarrow> work_kind" where
  "parse_kind s = (if s = ''tip'' then Tip else if s = ''reorg'' then Reorg else Backfill)"

text \<open>The id default of a \<open>bigserial\<close> column is drawn even when the row conflicts.\<close>

definition queue_row_of :: "int \<Rightarrow> work_item \<Rightarrow> queue_row" where
  "queue_row_of i it = \<lparr>wq_id = i, wq_chain_id = as_i64 (wi_chain_id it), wq_from = as_i64 (wi_from it),
     wq_to = as_i64 (wi_to it), wq_kind = kind_str (wi_kind it), wq_epoch = as_i64 (wi_epoch it),
     wq_locked_at = None, wq_lease_seq = 0\<rparr>"

definition push_in_tx :: "work_item \<Rightarrow> (db, db_error, unit) m" where
  "push_in_tx it = stmt (\<lambda>s. Inr ((), s\<lparr>
     work_queue := snd (insert_nothing queue_key [queue_row_of (queue_next_id s) it] (work_queue s)),
     queue_next_id := queue_next_id s + 1\<rparr>))"

definition queue_push :: "work_item \<Rightarrow> (db, domain_error, unit) m" where
  "queue_push it = transaction (push_in_tx it)"

definition in_flight :: "queue_row \<Rightarrow> bool" where
  "in_flight q \<longleftrightarrow> wq_locked_at q \<noteq> None"

definition ready_row :: "db \<Rightarrow> queue_row option" where
  "ready_row s = find (\<lambda>q. \<not> in_flight q \<and> wq_chain_id q \<notin> wq_chain_id ` set (filter in_flight (work_queue s)))
     (sort_key wq_id (work_queue s))"

definition lease_of :: "queue_row \<Rightarrow> work_item lease" where
  "lease_of q = \<lparr>le_id = wq_id q, le_seq = wq_lease_seq q,
     le_item = \<lparr>wi_chain_id = as_u64 (wq_chain_id q), wi_from = as_u64 (wq_from q), wi_to = as_u64 (wq_to q),
       wi_kind = parse_kind (wq_kind q), wi_epoch = as_u64 (wq_epoch q)\<rparr>\<rparr>"

definition leased :: "nat \<Rightarrow> queue_row \<Rightarrow> queue_row" where
  "leased now q = q\<lparr>wq_locked_at := Some now, wq_lease_seq := wq_lease_seq q + 1\<rparr>"

definition pull_any :: "(db, domain_error, work_item lease option) m" where
  "pull_any = db_result (stmt (\<lambda>s. Inr (case ready_row s of
       None \<Rightarrow> (None, s)
     | Some q \<Rightarrow> (Some (lease_of (leased (clock s) q)),
         s\<lparr>work_queue := map (\<lambda>x. if wq_id x = wq_id q then leased (clock s) x else x) (work_queue s)\<rparr>))))"

definition depth :: "(db, domain_error, nat) m" where
  "depth = db_result (select_stmt (\<lambda>s. length (work_queue s)))"

definition ack :: "int \<Rightarrow> int \<Rightarrow> (db, domain_error, unit) m" where
  "ack lease_id lease_seq = db_result (stmt (\<lambda>s. Inr ((), s\<lparr>
     work_queue := filter (\<lambda>q. \<not> (wq_id q = lease_id \<and> wq_lease_seq q = lease_seq)) (work_queue s)\<rparr>)))"

definition expired :: "nat \<Rightarrow> nat \<Rightarrow> queue_row \<Rightarrow> bool" where
  "expired now secs q = (case wq_locked_at q of None \<Rightarrow> False | Some t \<Rightarrow> t + secs < now)"

definition unlocked :: "queue_row \<Rightarrow> queue_row" where
  "unlocked q = q\<lparr>wq_locked_at := None, wq_lease_seq := wq_lease_seq q + 1\<rparr>"

definition reclaim_expired :: "nat \<Rightarrow> (db, domain_error, nat) m" where
  "reclaim_expired older_than_secs = db_result (stmt (\<lambda>s. Inr
     (length (filter (expired (clock s) older_than_secs) (work_queue s)),
      s\<lparr>work_queue := map (\<lambda>q. if expired (clock s) older_than_secs q
          then unlocked q else q) (work_queue s)\<rparr>)))"

section \<open>Consumers\<close>

text \<open>
  The state of the running system: the database, the leases that some worker believes to
  hold, the items that were enqueued and the leases that were acked. A worker may lose a
  lease at any time (a crash), time passes, and any statement may fail.
\<close>

record queue_sys =
  q_db :: db
  q_held :: "work_item lease list"
  q_pushed :: "work_item list"
  q_acked :: "work_item lease list"

inductive qstep :: "queue_sys \<Rightarrow> queue_sys \<Rightarrow> bool" where
  push: "queue_push it (q_db s) = (r, d) \<Longrightarrow>
     qstep s (s\<lparr>q_db := d, q_pushed := (if is_ok r then it # q_pushed s else q_pushed s)\<rparr>)"
| pull: "pull_any (q_db s) = (r, d) \<Longrightarrow>
     qstep s (s\<lparr>q_db := d, q_held := (case r of Ok (Some l) \<Rightarrow> l # q_held s | _ \<Rightarrow> q_held s)\<rparr>)"
| ack: "l \<in> set (q_held s) \<Longrightarrow> ack (le_id l) (le_seq l) (q_db s) = (r, d) \<Longrightarrow>
     qstep s (s\<lparr>q_db := d, q_held := remove1 l (q_held s),
        q_acked := (if is_ok r then l # q_acked s else q_acked s)\<rparr>)"
| lose: "qstep s (s\<lparr>q_held := remove1 l (q_held s)\<rparr>)"
| reclaim: "reclaim_expired secs (q_db s) = (r, d) \<Longrightarrow> qstep s (s\<lparr>q_db := d\<rparr>)"
| tick: "clock (q_db s) \<le> now \<Longrightarrow> qstep s (s\<lparr>q_db := (q_db s)\<lparr>clock := now\<rparr>\<rparr>)"

inductive reachable :: "queue_sys \<Rightarrow> bool" where
  init: "work_queue d = [] \<Longrightarrow> reachable \<lparr>q_db = d, q_held = [], q_pushed = [], q_acked = []\<rparr>"
| step: "reachable s \<Longrightarrow> qstep s s' \<Longrightarrow> reachable s'"

text \<open>A lease is current while its row still carries its sequence number.\<close>

definition current :: "db \<Rightarrow> work_item lease \<Rightarrow> bool" where
  "current d l \<longleftrightarrow> (\<exists>q \<in> set (work_queue d). wq_id q = le_id l \<and> wq_lease_seq q = le_seq l)"

definition item_key :: "work_item \<Rightarrow> int \<times> int \<times> int \<times> string" where
  "item_key it = (as_i64 (wi_chain_id it), as_i64 (wi_from it), as_i64 (wi_to it), kind_str (wi_kind it))"

section \<open>Effects of the operations\<close>

lemma parse_kind_str [simp]: "parse_kind (kind_str k) = k"
  by (cases k) (simp_all add: parse_kind_def)

lemma db_result_stmt_cases:
  assumes "db_result (stmt (\<lambda>s. Inr (f s, g s))) s = (r, s')"
    and "\<And>fs. g (s\<lparr>faults := fs\<rparr>) = (g s)\<lparr>faults := fs\<rparr>" and "\<And>fs. f (s\<lparr>faults := fs\<rparr>) = f s"
  obtains "r = Ok (f s)" "s' = (g s)\<lparr>faults := tl (faults s)\<rparr>"
  | e where "r = Err e" "s' = s\<lparr>faults := tl (faults s)\<rparr>"
proof (cases "stmt (\<lambda>s. Inr (f s, g s)) s")
  case (Pair r0 s0)
  show thesis
  proof (cases "is_ok r0")
    case True
    then obtain x where "r0 = Ok x" by (auto simp: is_ok_iff)
    with Pair assms that(1) show thesis by (auto simp: db_result_def dest!: stmt_OkD)
  next
    case False
    with stmt_ErrD[OF Pair False] Pair assms(1) that(2) show thesis by (auto simp: db_result_def)
  qed
qed

lemma ready_row_faults [simp]: "ready_row (s\<lparr>faults := fs\<rparr>) = ready_row s"
  by (simp add: ready_row_def)

definition pulled :: "db \<Rightarrow> db" where
  "pulled s = (case ready_row s of None \<Rightarrow> s
     | Some q \<Rightarrow> s\<lparr>work_queue := map (\<lambda>x. if wq_id x = wq_id q then leased (clock s) x else x) (work_queue s)\<rparr>)"

lemma pull_any_cases:
  assumes "pull_any s = (r, s')"
  obtains "r = Ok (map_option (lease_of \<circ> leased (clock s)) (ready_row s))" "s' = (pulled s)\<lparr>faults := tl (faults s)\<rparr>"
  | e where "r = Err e" "s' = s\<lparr>faults := tl (faults s)\<rparr>"
proof -
  have eq: "pull_any = db_result (stmt (\<lambda>s. Inr (map_option (lease_of \<circ> leased (clock s)) (ready_row s), pulled s)))"
    unfolding pull_any_def pulled_def by (intro arg_cong[of _ _ db_result] arg_cong[of _ _ stmt] ext) (simp split: option.splits)
  show thesis
    by (rule db_result_stmt_cases[OF assms[unfolded eq]])
      (use that in \<open>auto simp: pulled_def split: option.splits\<close>)
qed

lemma ack_cases:
  assumes "ack i n s = (r, s')"
  obtains "r = Ok ()" "s' = s\<lparr>work_queue := filter (\<lambda>q. \<not> (wq_id q = i \<and> wq_lease_seq q = n)) (work_queue s),
      faults := tl (faults s)\<rparr>"
  | e where "r = Err e" "s' = s\<lparr>faults := tl (faults s)\<rparr>"
  by (rule db_result_stmt_cases[OF assms[unfolded ack_def]]) (use that in auto)

lemma reclaim_cases:
  assumes "reclaim_expired secs s = (r, s')"
  obtains "r = Ok (length (filter (expired (clock s) secs) (work_queue s)))"
      "s' = s\<lparr>work_queue := map (\<lambda>q. if expired (clock s) secs q
          then unlocked q else q) (work_queue s), faults := tl (faults s)\<rparr>"
  | e where "r = Err e" "s' = s\<lparr>faults := tl (faults s)\<rparr>"
  by (rule db_result_stmt_cases[OF assms[unfolded reclaim_expired_def]]) (use that in auto)

definition pushed :: "work_item \<Rightarrow> db \<Rightarrow> db" where
  "pushed it s = s\<lparr>work_queue := snd (insert_nothing queue_key [queue_row_of (queue_next_id s) it] (work_queue s)),
     queue_next_id := queue_next_id s + 1\<rparr>"

lemma push_in_tx_cases:
  assumes "push_in_tx it s = (r, s')"
  obtains "r = Ok ()" "s' = (pushed it s)\<lparr>faults := tl (faults s)\<rparr>"
  | e where "r = Err (Sqlx e)" "s' = s\<lparr>faults := tl (faults s)\<rparr>"
proof (cases "is_ok r")
  case True
  then have "r = Ok ()" by (auto simp: is_ok_iff)
  with assms that(1) show thesis by (auto simp: push_in_tx_def pushed_def dest!: stmt_OkD)
next
  case False
  with assms that(2) show thesis unfolding push_in_tx_def using stmt_ErrD by blast
qed

lemma keeps_push [intro]: "keeps (\<lambda>_. True) (push_in_tx it)"
  unfolding push_in_tx_def by (intro keeps_stmt) (auto simp: db_invariant_def)

lemma queue_push_cases:
  assumes "queue_push it s = (r, s')"
  obtains fs where "r = Ok ()" "s' = (pushed it s)\<lparr>faults := fs\<rparr>"
  | "\<not> is_ok r" "stored s' = stored s" "queue_next_id s \<le> queue_next_id s'"
proof -
  have "keeps (\<lambda>_. True) (queue_push it)"
    unfolding queue_push_def by (intro keeps_transaction keeps_push) (simp add: db_invariant_def)
  with assms have "queue_next_id s \<le> queue_next_id s'" unfolding keeps_def by blast
  with assms show thesis
    unfolding queue_push_def
  proof (cases rule: transaction_cases)
    case (1 x s1)
    then obtain "s1 = (pushed it (s\<lparr>faults := tl (faults s)\<rparr>))\<lparr>faults := tl (tl (faults s))\<rparr>"
      by (cases rule: push_in_tx_cases[OF 1(2)]) auto
    with 1 that(1) show thesis by (simp add: pushed_def)
  next
    case 2
    with \<open>queue_next_id s \<le> queue_next_id s'\<close> that(2) show thesis by blast
  qed
qed

section \<open>The queue invariant\<close>

definition rows_inv :: "queue_row list \<Rightarrow> int \<Rightarrow> bool" where
  "rows_inv rows n \<longleftrightarrow> distinct (map wq_id rows) \<and> distinct (map queue_key rows)
     \<and> (\<forall>q \<in> set rows. wq_id q < n \<and> item_key (le_item (lease_of q)) = queue_key q)
     \<and> (\<forall>p \<in> set rows. \<forall>q \<in> set rows. in_flight p \<longrightarrow> in_flight q \<longrightarrow> wq_chain_id p = wq_chain_id q \<longrightarrow> p = q)"

definition held_inv :: "queue_row list \<Rightarrow> int \<Rightarrow> work_item lease list \<Rightarrow> bool" where
  "held_inv rows n held \<longleftrightarrow> distinct (map (\<lambda>l. (le_id l, le_seq l)) held)
     \<and> (\<forall>l \<in> set held. le_id l < n \<and> (\<forall>q \<in> set rows. wq_id q = le_id l \<longrightarrow>
          le_seq l \<le> wq_lease_seq q \<and> (le_seq l = wq_lease_seq q \<longrightarrow> in_flight q \<and> lease_of q = l)))"

definition pushed_inv :: "queue_row list \<Rightarrow> work_item list \<Rightarrow> work_item lease list \<Rightarrow> bool" where
  "pushed_inv rows its acked \<longleftrightarrow> (\<forall>it \<in> set its. item_key it \<in> queue_key ` set rows
     \<or> (\<exists>l \<in> set acked. item_key (le_item l) = item_key it))"

definition qinv :: "queue_sys \<Rightarrow> bool" where
  "qinv s \<longleftrightarrow> rows_inv (work_queue (q_db s)) (queue_next_id (q_db s))
     \<and> held_inv (work_queue (q_db s)) (queue_next_id (q_db s)) (q_held s)
     \<and> pushed_inv (work_queue (q_db s)) (q_pushed s) (q_acked s)"

lemma ready_rowD:
  assumes "ready_row s = Some q"
  shows "q \<in> set (work_queue s) \<and> \<not> in_flight q
     \<and> (\<forall>p \<in> set (work_queue s). in_flight p \<longrightarrow> wq_chain_id p \<noteq> wq_chain_id q)"
proof -
  from assms obtain i where "i < length (sort_key wq_id (work_queue s))" "q = sort_key wq_id (work_queue s) ! i"
    and f: "\<not> in_flight q" "wq_chain_id q \<notin> wq_chain_id ` set (filter in_flight (work_queue s))"
    unfolding ready_row_def find_Some_iff by blast
  then have "q \<in> set (sort_key wq_id (work_queue s))" using nth_mem by blast
  then have "q \<in> set (work_queue s)" unfolding set_sort .
  with f show ?thesis by (auto simp: image_iff)
qed

lemma lease_of_leased [simp]: "le_id (lease_of q) = wq_id q" "le_seq (lease_of q) = wq_lease_seq q"
  "wq_id (leased t q) = wq_id q" "wq_chain_id (leased t q) = wq_chain_id q"
  "wq_lease_seq (leased t q) = wq_lease_seq q + 1" "in_flight (leased t q)" "queue_key (leased t q) = queue_key q"
  "le_item (lease_of (leased t q)) = le_item (lease_of q)"
  by (simp_all add: lease_of_def leased_def in_flight_def queue_key_def)

lemma pull_rows_inv:
  assumes inv: "rows_inv rows n" and q: "q \<in> set rows" "\<not> in_flight q"
    and free: "\<forall>p \<in> set rows. in_flight p \<longrightarrow> wq_chain_id p \<noteq> wq_chain_id q"
  shows "rows_inv (map (\<lambda>x. if wq_id x = wq_id q then leased t x else x) rows) n"
proof -
  let ?f = "\<lambda>x. if wq_id x = wq_id q then leased t x else x"
  have only: "x = q" if "x \<in> set rows" "wq_id x = wq_id q" for x
    using inv q(1) that by (auto simp: rows_inv_def distinct_map inj_on_def)
  have m: "map wq_id (map ?f rows) = map wq_id rows" "map queue_key (map ?f rows) = map queue_key rows"
    by simp_all
  have "\<forall>x \<in> set (map ?f rows). wq_id x < n \<and> item_key (le_item (lease_of x)) = queue_key x"
    using inv by (auto simp: rows_inv_def)
  moreover have "\<forall>x \<in> set (map ?f rows). \<forall>y \<in> set (map ?f rows).
      in_flight x \<longrightarrow> in_flight y \<longrightarrow> wq_chain_id x = wq_chain_id y \<longrightarrow> x = y"
  proof (intro ballI impI)
    fix x y assume "x \<in> set (map ?f rows)" "y \<in> set (map ?f rows)" and fl: "in_flight x" "in_flight y"
      and c: "wq_chain_id x = wq_chain_id y"
    then obtain a b where ab: "a \<in> set rows" "x = ?f a" "b \<in> set rows" "y = ?f b" by auto
    consider "a = q" "b = q" | "a = q" "wq_id b \<noteq> wq_id q" | "wq_id a \<noteq> wq_id q" "b = q"
      | "wq_id a \<noteq> wq_id q" "wq_id b \<noteq> wq_id q" using only ab by metis
    then show "x = y"
    proof cases
      case 4
      then have "x = a" "y = b" using ab by auto
      with fl c ab inv show ?thesis unfolding rows_inv_def by metis
    qed (use ab fl c free in fastforce)+
  qed
  ultimately show ?thesis using inv unfolding rows_inv_def m by blast
qed

lemma held_inv_Cons:
  "held_inv rows n (l # held) \<longleftrightarrow> (le_id l, le_seq l) \<notin> (\<lambda>l. (le_id l, le_seq l)) ` set held \<and> le_id l < n
     \<and> (\<forall>q \<in> set rows. wq_id q = le_id l \<longrightarrow>
          le_seq l \<le> wq_lease_seq q \<and> (le_seq l = wq_lease_seq q \<longrightarrow> in_flight q \<and> lease_of q = l))
     \<and> held_inv rows n held"
  by (auto simp: held_inv_def)

lemma pull_held_inv:
  assumes inv: "rows_inv rows n" and held: "held_inv rows n held" and q: "q \<in> set rows" "\<not> in_flight q"
  shows "held_inv (map (\<lambda>x. if wq_id x = wq_id q then leased t x else x) rows) n (lease_of (leased t q) # held)"
proof -
  let ?f = "\<lambda>x. if wq_id x = wq_id q then leased t x else x"
  have only: "x = q" if "x \<in> set rows" "wq_id x = wq_id q" for x
    using inv q(1) that by (auto simp: rows_inv_def distinct_map inj_on_def)
  have old: "le_seq l < wq_lease_seq q" if "l \<in> set held" "le_id l = wq_id q" for l
    using held q that unfolding held_inv_def by (metis order_le_less)
  have fresh: "(le_id (lease_of (leased t q)), le_seq (lease_of (leased t q))) \<notin> (\<lambda>l. (le_id l, le_seq l)) ` set held"
    using old by fastforce
  have keep: "le_seq l \<le> wq_lease_seq x \<and> (le_seq l = wq_lease_seq x \<longrightarrow> in_flight x \<and> lease_of x = l)"
    if l: "l \<in> set held" and x: "x \<in> set (map ?f rows)" "wq_id x = le_id l" for l x
  proof -
    obtain a where a: "a \<in> set rows" "x = ?f a" using x(1) by auto
    show ?thesis
    proof (cases "wq_id a = wq_id q")
      case True
      with a x only[OF a(1)] old[OF l] show ?thesis by auto
    next
      case False
      with a x l held show ?thesis by (auto simp: held_inv_def)
    qed
  qed
  have new: "x = leased t q" if "x \<in> set (map ?f rows)" "wq_id x = wq_id q" for x
    using that only by (auto split: if_splits)
  have "wq_id q < n" using inv q(1) by (auto simp: rows_inv_def)
  moreover have "held_inv (map ?f rows) n held" using held keep unfolding held_inv_def by blast
  moreover have "\<forall>x \<in> set (map ?f rows). wq_id x = le_id (lease_of (leased t q)) \<longrightarrow>
      le_seq (lease_of (leased t q)) \<le> wq_lease_seq x
      \<and> (le_seq (lease_of (leased t q)) = wq_lease_seq x \<longrightarrow> in_flight x \<and> lease_of x = lease_of (leased t q))"
  proof (intro ballI impI)
    fix x assume x: "x \<in> set (map ?f rows)" "wq_id x = le_id (lease_of (leased t q))"
    from x(2) have "wq_id x = wq_id q" by (simp only: lease_of_leased)
    with x(1) have "x = leased t q" by (rule new)
    then show "le_seq (lease_of (leased t q)) \<le> wq_lease_seq x
      \<and> (le_seq (lease_of (leased t q)) = wq_lease_seq x \<longrightarrow> in_flight x \<and> lease_of x = lease_of (leased t q))" by simp
  qed
  ultimately show ?thesis unfolding held_inv_Cons using fresh by simp
qed

lemma as_i64_as_u64 [simp]: "as_i64 (as_u64 (as_i64 n)) = as_i64 n"
proof -
  have "as_i64 n = as_i64 (n mod 2 ^ 64)" by (simp add: as_i64_def)
  then have "as_u64 (as_i64 n) = n mod 2 ^ 64" using as_u64_as_i64[of "n mod 2 ^ 64"] by simp
  then show ?thesis by (simp add: as_i64_def)
qed

lemma queue_row_of_simps [simp]:
  "queue_key (queue_row_of i it) = item_key it" "wq_id (queue_row_of i it) = i" "\<not> in_flight (queue_row_of i it)"
  "item_key (le_item (lease_of (queue_row_of i it))) = item_key it" "wq_lease_seq (queue_row_of i it) = 0"
  by (simp_all add: queue_key_def queue_row_of_def item_key_def in_flight_def lease_of_def)

lemma pushed_queue:
  "work_queue (pushed it s) = (if item_key it \<in> queue_key ` set (work_queue s) then work_queue s
     else work_queue s @ [queue_row_of (queue_next_id s) it])"
  by (simp add: pushed_def insert_nothing_snd_Cons del: insert_nothing.simps(2))

lemma rows_inv_mono: "rows_inv rows n \<Longrightarrow> n \<le> m \<Longrightarrow> rows_inv rows m"
  unfolding rows_inv_def by (meson order_less_le_trans)

lemma held_inv_mono: "held_inv rows n held \<Longrightarrow> n \<le> m \<Longrightarrow> held_inv rows m held"
  unfolding held_inv_def by (meson order_less_le_trans)

lemma rows_inv_snoc:
  assumes "rows_inv rows n" and "item_key it \<notin> queue_key ` set rows"
  shows "rows_inv (rows @ [queue_row_of n it]) (n + 1)"
proof -
  have "n \<notin> wq_id ` set rows" using assms(1) by (auto simp: rows_inv_def)
  moreover have "\<forall>q \<in> set rows. wq_id q < n + 1" using assms(1) by (auto simp: rows_inv_def)
  ultimately show ?thesis using assms unfolding rows_inv_def by simp
qed

lemma held_inv_snoc:
  assumes "held_inv rows n held"
  shows "held_inv (rows @ [queue_row_of n it]) (n + 1) held"
proof -
  have "\<forall>l \<in> set held. le_id l < n" using assms by (auto simp: held_inv_def)
  then have "\<forall>l \<in> set held. le_id l < n + 1 \<and> n \<noteq> le_id l" by auto
  then show ?thesis using assms unfolding held_inv_def by simp
qed

lemma push_rows_inv:
  assumes "rows_inv (work_queue s) (queue_next_id s)"
  shows "rows_inv (work_queue (pushed it s)) (queue_next_id (pushed it s))"
  using rows_inv_snoc[OF assms, of it] rows_inv_mono[OF assms, of "queue_next_id s + 1"]
  unfolding pushed_queue by (simp add: pushed_def)

lemma push_held_inv:
  assumes "held_inv (work_queue s) (queue_next_id s) held"
  shows "held_inv (work_queue (pushed it s)) (queue_next_id (pushed it s)) held"
  using held_inv_snoc[OF assms, of it] held_inv_mono[OF assms, of "queue_next_id s + 1"]
  unfolding pushed_queue by (simp add: pushed_def)

lemma rows_inv_filter: "rows_inv rows n \<Longrightarrow> rows_inv (filter P rows) n"
  by (auto simp: rows_inv_def distinct_map_filter)

lemma held_inv_filter: "held_inv rows n held \<Longrightarrow> held_inv (filter P rows) n held"
  by (auto simp: held_inv_def)

lemma held_inv_remove1: "held_inv rows n held \<Longrightarrow> held_inv rows n (remove1 l held)"
  by (auto simp: held_inv_def distinct_map intro: distinct_remove1 inj_on_subset dest: notin_set_remove1)

lemma unlocked_simps [simp]: "wq_id (unlocked q) = wq_id q" "queue_key (unlocked q) = queue_key q"
  "\<not> in_flight (unlocked q)" "wq_lease_seq (unlocked q) = wq_lease_seq q + 1" "wq_chain_id (unlocked q) = wq_chain_id q"
  "le_item (lease_of (unlocked q)) = le_item (lease_of q)"
  by (simp_all add: unlocked_def queue_key_def in_flight_def lease_of_def)

lemma reclaim_rows_inv:
  assumes "rows_inv rows n"
  shows "rows_inv (map (\<lambda>q. if P q then unlocked q else q) rows) n"
proof -
  have m: "map wq_id (map (\<lambda>q. if P q then unlocked q else q) rows) = map wq_id rows"
    "map queue_key (map (\<lambda>q. if P q then unlocked q else q) rows) = map queue_key rows" by simp_all
  have "p = q" if "p \<in> set (map (\<lambda>q. if P q then unlocked q else q) rows)" "q \<in> set (map (\<lambda>q. if P q then unlocked q else q) rows)"
    "in_flight p" "in_flight q" "wq_chain_id p = wq_chain_id q" for p q
    using that assms by (auto simp: rows_inv_def split: if_splits)
  then show ?thesis using assms unfolding rows_inv_def m by auto
qed

lemma reclaim_held_inv:
  assumes "held_inv rows n held"
  shows "held_inv (map (\<lambda>q. if P q then unlocked q else q) rows) n held"
proof -
  have "le_seq l \<le> wq_lease_seq q \<and> (le_seq l = wq_lease_seq q \<longrightarrow> in_flight q \<and> lease_of q = l)"
    if l: "l \<in> set held" and q: "q \<in> set (map (\<lambda>q. if P q then unlocked q else q) rows)" "wq_id q = le_id l" for l q
  proof -
    obtain a where a: "a \<in> set rows" "q = (if P a then unlocked a else a)" using q(1) by auto
    with l q(2) assms have "le_seq l \<le> wq_lease_seq a" "le_seq l = wq_lease_seq a \<longrightarrow> in_flight a \<and> lease_of a = l"
      by (auto simp: held_inv_def split: if_splits)
    with a show ?thesis by auto
  qed
  then show ?thesis using assms unfolding held_inv_def by blast
qed

lemma image_key_map: "(\<And>x. key (f x) = key x) \<Longrightarrow> key ` set (map f xs) = key ` set xs"
  by (simp add: image_image)

lemma qinv_push:
  assumes "queue_push it (q_db s) = (r, d)" and inv: "qinv s"
  shows "qinv (s\<lparr>q_db := d, q_pushed := (if is_ok r then it # q_pushed s else q_pushed s)\<rparr>)"
  using assms(1)
proof (cases rule: queue_push_cases)
  case (1 fs)
  have "item_key it \<in> queue_key ` set (work_queue (pushed it (q_db s)))"
    "queue_key ` set (work_queue (q_db s)) \<subseteq> queue_key ` set (work_queue (pushed it (q_db s)))"
    by (auto simp: pushed_queue)
  then show ?thesis using inv 1 push_rows_inv push_held_inv by (auto simp: qinv_def pushed_inv_def)
next
  case 2
  then show ?thesis using inv stored_fields(4)[OF 2(2)]
    by (auto simp: qinv_def intro: rows_inv_mono held_inv_mono)
qed

lemma qinv_pull:
  assumes "pull_any (q_db s) = (r, d)" and inv: "qinv s"
  shows "qinv (s\<lparr>q_db := d, q_held := (case r of Ok (Some l) \<Rightarrow> l # q_held s | _ \<Rightarrow> q_held s)\<rparr>)"
  using assms(1)
proof (cases rule: pull_any_cases)
  case 1
  show ?thesis
  proof (cases "ready_row (q_db s)")
    case None
    with 1 inv show ?thesis by (simp add: pulled_def qinv_def)
  next
    case (Some q)
    let ?f = "\<lambda>x. if wq_id x = wq_id q then leased (clock (q_db s)) x else x"
    have "queue_key ` set (map ?f (work_queue (q_db s))) = queue_key ` set (work_queue (q_db s))"
      by (rule image_key_map) simp
    with Some 1 inv ready_rowD[OF Some] show ?thesis
      by (auto simp: pulled_def qinv_def pushed_inv_def intro: pull_rows_inv pull_held_inv simp del: set_map)
  qed
qed (use inv in \<open>simp add: qinv_def\<close>)

lemma qinv_ack:
  assumes held: "l \<in> set (q_held s)" and "ack (le_id l) (le_seq l) (q_db s) = (r, d)" and inv: "qinv s"
  shows "qinv (s\<lparr>q_db := d, q_held := remove1 l (q_held s), q_acked := (if is_ok r then l # q_acked s else q_acked s)\<rparr>)"
  using assms(2)
proof (cases rule: ack_cases)
  case 1
  have "item_key (le_item l) = queue_key q"
    if "q \<in> set (work_queue (q_db s))" "wq_id q = le_id l" "wq_lease_seq q = le_seq l" for q
  proof -
    have "lease_of q = l" using held inv that unfolding qinv_def held_inv_def by metis
    then show ?thesis using inv that(1) unfolding qinv_def rows_inv_def by metis
  qed
  then have "pushed_inv (filter (\<lambda>q. \<not> (wq_id q = le_id l \<and> wq_lease_seq q = le_seq l)) (work_queue (q_db s)))
      (q_pushed s) (l # q_acked s)"
    using inv unfolding qinv_def pushed_inv_def by (auto simp: image_iff) metis
  with 1 inv show ?thesis by (simp add: qinv_def rows_inv_filter held_inv_filter held_inv_remove1)
qed (use inv in \<open>simp add: qinv_def held_inv_remove1\<close>)

lemma qinv_reclaim:
  assumes "reclaim_expired secs (q_db s) = (r, d)" and inv: "qinv s"
  shows "qinv (s\<lparr>q_db := d\<rparr>)"
  using assms(1)
proof (cases rule: reclaim_cases)
  case 1
  have "queue_key ` set (map (\<lambda>q. if expired (clock (q_db s)) secs q then unlocked q else q) (work_queue (q_db s)))
      = queue_key ` set (work_queue (q_db s))"
    by (rule image_key_map) simp
  with 1 inv show ?thesis by (simp add: qinv_def pushed_inv_def reclaim_rows_inv reclaim_held_inv del: set_map)
qed (use inv in \<open>simp add: qinv_def\<close>)

lemma qinv_step: "qstep s s' \<Longrightarrow> qinv s \<Longrightarrow> qinv s'"
proof (induction rule: qstep.induct)
  case (push it s r d)
  then show ?case by (rule qinv_push)
next
  case (pull s r d)
  then show ?case by (rule qinv_pull)
next
  case (ack l s r d)
  then show ?case by (rule qinv_ack)
next
  case (reclaim secs s r d)
  then show ?case by (rule qinv_reclaim)
qed (simp_all add: qinv_def held_inv_remove1)

lemma reachable_qinv: "reachable s \<Longrightarrow> qinv s"
proof (induction rule: reachable.induct)
  case (init d)
  then show ?case by (simp add: qinv_def rows_inv_def held_inv_def pushed_inv_def)
next
  case (step s s')
  then show ?case by (blast intro: qinv_step)
qed

section \<open>Properties\<close>


text \<open>
  No work is lost: in every reachable state each item that was enqueued is still in the
  queue, unless a lease on an item with the same chain, range and kind was acked; failed
  statements, crashed workers and reclaims never drop one.
\<close>

theorem enqueued_until_acked:
  assumes "reachable s" and "it \<in> set (q_pushed s)"
  shows "item_key it \<in> queue_key ` set (work_queue (q_db s))
     \<or> (\<exists>l \<in> set (q_acked s). item_key (le_item l) = item_key it)"
  using reachable_qinv[OF assms(1)] assms(2) by (auto simp: qinv_def pushed_inv_def)

text \<open>
  C22. Fencing: an ack never touches another lease's row. Acking a lease whose row was
  reclaimed, re-leased or deleted since leaves the queue as it is; acking a current lease
  removes exactly its own row.
\<close>

theorem ack_is_fenced:
  assumes "reachable s" and "l \<in> set (q_held s)" and "ack (le_id l) (le_seq l) (q_db s) = (Ok (), d)"
  shows "(\<not> current (q_db s) l \<longrightarrow> work_queue d = work_queue (q_db s))
     \<and> (current (q_db s) l \<longrightarrow> (\<exists>q \<in> set (work_queue (q_db s)). lease_of q = l \<and> in_flight q
          \<and> set (work_queue d) = set (work_queue (q_db s)) - {q}))"
proof -
  have d: "work_queue d = filter (\<lambda>q. \<not> (wq_id q = le_id l \<and> wq_lease_seq q = le_seq l)) (work_queue (q_db s))"
    using assms(3) by (cases rule: ack_cases) auto
  have inv: "qinv s" using assms(1) by (rule reachable_qinv)
  have uniq: "p = q" if "p \<in> set (work_queue (q_db s))" "q \<in> set (work_queue (q_db s))" "wq_id p = wq_id q" for p q
    using inv that unfolding qinv_def rows_inv_def distinct_map inj_on_def by blast
  have "\<not> current (q_db s) l \<Longrightarrow> work_queue d = work_queue (q_db s)"
    unfolding d by (rule filter_True) (auto simp: current_def)
  moreover have "\<exists>q \<in> set (work_queue (q_db s)). lease_of q = l \<and> in_flight q
      \<and> set (work_queue d) = set (work_queue (q_db s)) - {q}" if cur: "current (q_db s) l"
  proof -
    obtain q where q: "q \<in> set (work_queue (q_db s))" "wq_id q = le_id l" "wq_lease_seq q = le_seq l"
      using cur by (auto simp: current_def)
    have "lease_of q = l \<and> in_flight q" using inv assms(2) q unfolding qinv_def held_inv_def by metis
    moreover have "set (work_queue d) = set (work_queue (q_db s)) - {q}"
      unfolding d using q uniq by auto
    ultimately show ?thesis using q(1) by blast
  qed
  ultimately show ?thesis by blast
qed

text \<open>
  Pulling is oldest-first among the idle chains: a successful pull returns nothing exactly
  when every queued item belongs to a chain with an item in flight, and otherwise leases the
  item with the smallest id among those of idle chains, bumping its sequence number; in
  particular the items of one chain are leased in the order they were enqueued.
\<close>

theorem pull_is_fifo:
  assumes "pull_any s = (Ok r, s')"
  shows "case r of
      None \<Rightarrow> (\<forall>q \<in> set (work_queue s). \<exists>p \<in> set (work_queue s). in_flight p \<and> wq_chain_id p = wq_chain_id q)
    | Some l \<Rightarrow> (\<exists>q \<in> set (work_queue s). l = lease_of (leased (clock s) q) \<and> \<not> in_flight q
        \<and> (\<forall>p \<in> set (work_queue s). in_flight p \<longrightarrow> wq_chain_id p \<noteq> wq_chain_id q)
        \<and> (\<forall>p \<in> set (work_queue s). wq_id p < wq_id q \<longrightarrow>
             (\<exists>f \<in> set (work_queue s). in_flight f \<and> wq_chain_id f = wq_chain_id p)))"
proof -
  let ?ready = "\<lambda>q. \<not> in_flight q \<and> wq_chain_id q \<notin> wq_chain_id ` set (filter in_flight (work_queue s))"
  let ?sorted = "sort_key wq_id (work_queue s)"
  have r: "r = map_option (lease_of \<circ> leased (clock s)) (find ?ready ?sorted)"
    using assms by (cases rule: pull_any_cases) (auto simp: ready_row_def)
  have busy: "\<exists>f \<in> set (work_queue s). in_flight f \<and> wq_chain_id f = wq_chain_id q"
    if "q \<in> set (work_queue s)" "\<not> ?ready q" for q
    using that by auto
  show ?thesis
  proof (cases "find ?ready ?sorted")
    case None
    then have "\<forall>q \<in> set (work_queue s). \<not> ?ready q" unfolding find_None_iff set_sort by blast
    with None r busy show ?thesis by simp
  next
    case (Some q)
    then obtain i where i: "i < length ?sorted" "q = ?sorted ! i" "?ready q"
      and before: "\<forall>j < i. \<not> ?ready (?sorted ! j)" unfolding find_Some_iff by blast
    have q: "q \<in> set (work_queue s)" using i nth_mem[of i ?sorted] by (simp only: set_sort)
    have older: "\<exists>f \<in> set (work_queue s). in_flight f \<and> wq_chain_id f = wq_chain_id p"
      if p: "p \<in> set (work_queue s)" "wq_id p < wq_id q" for p
    proof -
      obtain j where j: "j < length ?sorted" "p = ?sorted ! j" using p(1) by (metis in_set_conv_nth set_sort)
      have "j < i"
      proof (rule ccontr)
        assume "\<not> j < i"
        then have "wq_id (?sorted ! i) \<le> wq_id (?sorted ! j)"
          using sorted_nth_mono[OF sorted_sort_key[of wq_id "work_queue s"], of i j] j i by simp
        with p(2) i j show False by simp
      qed
      with before have "\<not> ?ready (?sorted ! j)" by blast
      then have "\<not> ?ready p" unfolding j(2)[symmetric] .
      with p(1) show ?thesis by (rule busy)
    qed
    have idle: "\<forall>p \<in> set (work_queue s). in_flight p \<longrightarrow> wq_chain_id p \<noteq> wq_chain_id q"
      using i(3) by (auto simp: image_iff)
    have r': "r = Some (lease_of (leased (clock s) q))" using r Some by simp
    have nf: "\<not> in_flight q" using i(3) by blast
    have "\<forall>p \<in> set (work_queue s). wq_id p < wq_id q \<longrightarrow>
             (\<exists>f \<in> set (work_queue s). in_flight f \<and> wq_chain_id f = wq_chain_id p)"
      using older by blast
    with nf idle have "lease_of (leased (clock s) q) = lease_of (leased (clock s) q) \<and> \<not> in_flight q
        \<and> (\<forall>p \<in> set (work_queue s). in_flight p \<longrightarrow> wq_chain_id p \<noteq> wq_chain_id q)
        \<and> (\<forall>p \<in> set (work_queue s). wq_id p < wq_id q \<longrightarrow>
             (\<exists>f \<in> set (work_queue s). in_flight f \<and> wq_chain_id f = wq_chain_id p))" by blast
    then show ?thesis unfolding r' option.case using q by (rule bexI)
  qed
qed

section \<open>Witnesses\<close>

definition demo_item :: "nat \<Rightarrow> nat \<Rightarrow> work_item" where
  "demo_item c h = \<lparr>wi_chain_id = c, wi_from = h, wi_to = h + 9, wi_kind = Backfill, wi_epoch = 0\<rparr>"

lemma queue_push_no_faults: "faults s = [] \<Longrightarrow> queue_push it s = (Ok (), pushed it s)"
  unfolding queue_push_def
  by (rule transaction_no_faults) (simp_all add: push_in_tx_def stmt_no_faults pushed_def)

lemma pull_any_no_faults:
  "faults s = [] \<Longrightarrow> pull_any s = (Ok (map_option (lease_of \<circ> leased (clock s)) (ready_row s)), pulled s)"
  by (simp add: pull_any_def db_result_def stmt_no_faults pulled_def split: option.splits)

definition demo_db :: db where
  "demo_db = pushed (demo_item 6 50) (pushed (demo_item 5 10) db_empty)"

definition demo_lease :: "work_item lease" where
  "demo_lease = \<lparr>le_id = 1, le_seq = 1, le_item = demo_item 5 10\<rparr>"

definition demo_sys :: queue_sys where
  "demo_sys = \<lparr>q_db = pulled demo_db, q_held = [demo_lease], q_pushed = [demo_item 6 50, demo_item 5 10], q_acked = []\<rparr>"

lemma demo_db_queue:
  "work_queue demo_db = [queue_row_of 1 (demo_item 5 10), queue_row_of 2 (demo_item 6 50)]"
  "faults demo_db = []" "clock demo_db = 0"
  by (simp_all add: demo_db_def pushed_def db_empty_def queue_key_def queue_row_of_def demo_item_def as_i64_small)

lemma demo_ready: "ready_row demo_db = Some (queue_row_of 1 (demo_item 5 10))"
  by (simp add: ready_row_def demo_db_queue)

lemma demo_lease_of: "lease_of (leased 0 (queue_row_of 1 (demo_item 5 10))) = demo_lease"
  by (simp add: lease_of_def leased_def queue_row_of_def demo_item_def demo_lease_def as_i64_small as_u64_def parse_kind_def)

lemma demo_reachable: "reachable demo_sys"
proof -
  let ?s0 = "\<lparr>q_db = db_empty, q_held = [], q_pushed = [], q_acked = []\<rparr>"
  let ?s1 = "\<lparr>q_db = pushed (demo_item 5 10) db_empty, q_held = [], q_pushed = [demo_item 5 10], q_acked = []\<rparr>"
  let ?s2 = "\<lparr>q_db = demo_db, q_held = [], q_pushed = [demo_item 6 50, demo_item 5 10], q_acked = []\<rparr>"
  have "reachable ?s0" by (rule reachable.init) (simp add: db_empty_def)
  moreover have "qstep ?s0 ?s1"
    using qstep.push[of "demo_item 5 10" ?s0] queue_push_no_faults[of db_empty] by (simp add: db_empty_def)
  moreover have "qstep ?s1 ?s2"
    using qstep.push[of "demo_item 6 50" ?s1] queue_push_no_faults[of "pushed (demo_item 5 10) db_empty"]
    by (simp add: demo_db_def pushed_def db_empty_def)
  moreover have "qstep ?s2 demo_sys"
    using qstep.pull[of ?s2] pull_any_no_faults[OF demo_db_queue(2)]
    by (simp add: demo_ready demo_db_queue demo_lease_of demo_sys_def)
  ultimately show ?thesis by (blast intro: reachable.step)
qed

lemma demo_current: "current (q_db demo_sys) demo_lease"
  by (simp add: current_def demo_sys_def pulled_def demo_ready demo_db_queue demo_lease_def)


theorem enqueued_until_acked_witness:
  "item_key (demo_item 6 50) \<in> queue_key ` set (work_queue (q_db demo_sys))
     \<or> (\<exists>l \<in> set (q_acked demo_sys). item_key (le_item l) = item_key (demo_item 6 50))"
  by (rule enqueued_until_acked[OF demo_reachable]) (simp add: demo_sys_def)

theorem ack_is_fenced_witness:
  "\<exists>d. ack 1 1 (q_db demo_sys) = (Ok (), d)
     \<and> (\<exists>q \<in> set (work_queue (q_db demo_sys)). set (work_queue d) = set (work_queue (q_db demo_sys)) - {q})"
proof -
  have "faults (q_db demo_sys) = []" by (simp add: demo_sys_def pulled_def demo_ready demo_db_queue)
  then obtain d where d: "ack (le_id demo_lease) (le_seq demo_lease) (q_db demo_sys) = (Ok (), d)"
    by (simp add: ack_def db_result_def stmt_no_faults)
  have "demo_lease \<in> set (q_held demo_sys)" by (simp add: demo_sys_def)
  from ack_is_fenced[OF demo_reachable this d] demo_current d show ?thesis
    by (auto simp: demo_lease_def)
qed

theorem pull_is_fifo_witness:
  "\<exists>s'. pull_any demo_db = (Ok (Some demo_lease), s')
     \<and> (\<exists>q \<in> set (work_queue demo_db). demo_lease = lease_of (leased 0 q) \<and> \<not> in_flight q)"
proof -
  have "pull_any demo_db = (Ok (Some demo_lease), pulled demo_db)"
    using pull_any_no_faults[OF demo_db_queue(2)] by (simp add: demo_ready demo_db_queue(3) demo_lease_of)
  from this pull_is_fifo[OF this] show ?thesis by (auto simp: demo_db_queue(3))
qed

end
