(* ===== verification/Unit_Of_Work.thy ===== *)
theory Unit_Of_Work
  imports Work_Queue
begin

text \<open>
  \<open>crates/db/src/unit_of_work.rs\<close>: the two atomic write boundaries of the indexer, the
  commit of an ingested range and the rollback of a reorganisation.
\<close>

section \<open>Operations\<close>

text \<open>The \<open>BTreeMap\<close> of aux rows, with the receipts moved last by the stable sort.\<close>

definition enrichment_tables :: "event_row list \<Rightarrow> (string \<times> event_row list) list" where
  "enrichment_tables rows =
     (let by_table = sort_key fst (group_by (\<lambda>row. de_table (er_event row)) rows)
      in filter (\<lambda>(t, _). t \<noteq> RECEIPTS_TABLE) by_table @ filter (\<lambda>(t, _). t = RECEIPTS_TABLE) by_table)"

definition write_enrichment :: "event_row list \<Rightarrow> (db, db_error, unit) m" where
  "write_enrichment rows =
     for_each (\<lambda>(table, trows) _. bind (event_upsert_batch_tx table trows) (\<lambda>_. ret ()))
       (enrichment_tables rows) ()"

definition commit_ingest :: "ingest_batch \<Rightarrow> (db, domain_error, unit) m" where
  "commit_ingest batch = transaction
     (bind (raw_insert_batch_tx (ib_raw_records batch)) (\<lambda>_.
      bind (block_upsert_batch_tx (ib_block_metas batch)) (\<lambda>_.
      bind (write_enrichment (ib_enrichment batch)) (\<lambda>_.
      bind (case ib_enqueue batch of None \<Rightarrow> ret () | Some item \<Rightarrow> push_in_tx item) (\<lambda>_.
      (case ib_advance_cursor batch of
         None \<Rightarrow> ret ()
       | Some (chain, last_h, last_hash) \<Rightarrow> cursor_advance_in_tx chain last_h last_hash))))))"

definition rollback_to :: "chain_id \<Rightarrow> height \<Rightarrow> string list \<Rightarrow> (db, domain_error, unit) m" where
  "rollback_to chain from tbls = transaction
     (bind (for_each (\<lambda>table _. bind (event_delete_from_height_tx table chain from) (\<lambda>_. ret ())) tbls ()) (\<lambda>_.
      bind (raw_delete_from_height_tx chain from) (\<lambda>_.
      bind (block_delete_from_height_tx chain from) (\<lambda>_.
      cursor_rewind_in_tx chain (saturating_sub from 1)))))"

section \<open>Invariant\<close>

lemma keeps_push_wf [intro]: "keeps db_wf (push_in_tx it)"
  unfolding push_in_tx_def
proof (rule keeps_stmt, simp)
  fix s x s' assume wf: "db_wf s"
    and "Inr ((), s\<lparr>work_queue := snd (insert_nothing queue_key [queue_row_of (queue_next_id s) it] (work_queue s)),
        queue_next_id := queue_next_id s + 1\<rparr>) = (Inr (x, s') :: string + unit \<times> db)"
  then have s': "s' = pushed it s" by (simp add: pushed_def)
  have t: "tables s' = tables s" by (simp add: s' pushed_def)
  have "wf_fixed s'"
    using wf by (auto simp: db_wf_def wf_fixed_def s' pushed_queue) (auto simp: pushed_def)
  with wf wf_tables_cong[OF t] show "db_wf s' \<and> queue_next_id s \<le> queue_next_id s'"
    by (simp add: db_wf_def s' pushed_def)
qed

lemma keeps_write_enrichment [intro]: "keeps db_wf (write_enrichment rows)"
  unfolding write_enrichment_def by (intro keeps_for_each) (auto intro: keeps_bind keeps_event_upsert)

lemma keeps_commit_ingest [intro]: "keeps db_wf (commit_ingest batch)"
  unfolding commit_ingest_def
  by (intro keeps_transaction keeps_bind keeps_raw_insert keeps_block_upsert keeps_write_enrichment)
    (auto split: option.split prod.split)

lemma keeps_rollback [intro]: "keeps db_wf (rollback_to chain from tbls)"
  unfolding rollback_to_def
  by (intro keeps_transaction keeps_bind keeps_for_each keeps_event_delete keeps_raw_delete keeps_block_delete keeps_cursor)
    auto

lemma runs_stmt_Inr [simp, intro]:
  "(\<And>s. faults s = [] \<Longrightarrow> faults (snd (f s)) = []) \<Longrightarrow> runs (stmt (\<lambda>s. Inr (f s)))"
  by (auto simp: runs_def stmt_no_faults split: prod.splits) (metis prod.collapse snd_conv)

lemma runs_push [simp, intro]: "runs (push_in_tx it)"
  unfolding push_in_tx_def by (rule runs_stmt_Inr) simp

lemma runs_cursor_advance [simp, intro]: "runs (cursor_advance_in_tx c h hs)"
  unfolding cursor_advance_in_tx_def by (rule runs_stmt_Inr) simp

section \<open>Effect of a commit\<close>

definition enrichment_put :: "event_row list \<Rightarrow> db \<Rightarrow> db" where
  "enrichment_put rows s = fold (\<lambda>(t, trows). event_put t (by_signature trows)) (enrichment_tables rows) s"

definition cursor_put :: "(chain_id \<times> height \<times> hash) option \<Rightarrow> db \<Rightarrow> db" where
  "cursor_put c s = (case c of None \<Rightarrow> s | Some (chain, h, hs) \<Rightarrow>
     s\<lparr>cursors := put_row cu_chain_id \<lparr>cu_chain_id = as_i64 chain, cu_last_height = as_i64 h, cu_last_hash = hs\<rparr> (cursors s)\<rparr>)"

definition queue_put :: "work_item option \<Rightarrow> db \<Rightarrow> db" where
  "queue_put it s = (case it of None \<Rightarrow> s | Some i \<Rightarrow> pushed i s)"

definition commit_effect :: "ingest_batch \<Rightarrow> db \<Rightarrow> db" where
  "commit_effect b s = cursor_put (ib_advance_cursor b) (queue_put (ib_enqueue b)
     (enrichment_put (ib_enrichment b) (block_put (ib_block_metas b) (raw_put (ib_raw_records b) s))))"

lemma enrichment_put_faults: "enrichment_put rows (s\<lparr>faults := fs\<rparr>) = (enrichment_put rows s)\<lparr>faults := fs\<rparr>"
proof -
  have "fold (\<lambda>(t, trows). event_put t (by_signature trows)) g (s\<lparr>faults := fs\<rparr>) =
      (fold (\<lambda>(t, trows). event_put t (by_signature trows)) g s)\<lparr>faults := fs\<rparr>" for g :: "(string \<times> event_row list) list"
    by (induction g arbitrary: s) (auto simp: event_put_faults)
  then show ?thesis by (simp add: enrichment_put_def)
qed

lemma write_enrichment_Ok:
  assumes "write_enrichment rows s = (Ok (), s')"
  shows "\<exists>fs. s' = (enrichment_put rows s)\<lparr>faults := fs\<rparr>"
  unfolding enrichment_put_def
  by (rule for_each_effect[OF assms[unfolded write_enrichment_def]])
    (auto elim!: bind_OkE dest!: event_upsert_batch_tx_Ok simp: ret_def event_put_faults)

lemma commit_body_Ok:
  assumes "(bind (raw_insert_batch_tx (ib_raw_records batch)) (\<lambda>_.
      bind (block_upsert_batch_tx (ib_block_metas batch)) (\<lambda>_.
      bind (write_enrichment (ib_enrichment batch)) (\<lambda>_.
      bind (case ib_enqueue batch of None \<Rightarrow> ret () | Some item \<Rightarrow> push_in_tx item) (\<lambda>_.
      (case ib_advance_cursor batch of
         None \<Rightarrow> ret ()
       | Some (chain, last_h, last_hash) \<Rightarrow> cursor_advance_in_tx chain last_h last_hash)))))) s = (Ok (), s')"
  shows "\<exists>fs. s' = (commit_effect batch s)\<lparr>faults := fs\<rparr>"
proof -
  from assms obtain n s1 m s2 s3 s4 where
    1: "raw_insert_batch_tx (ib_raw_records batch) s = (Ok n, s1)"
    and 2: "block_upsert_batch_tx (ib_block_metas batch) s1 = (Ok m, s2)"
    and 3: "write_enrichment (ib_enrichment batch) s2 = (Ok (), s3)"
    and 4: "(case ib_enqueue batch of None \<Rightarrow> ret () | Some item \<Rightarrow> push_in_tx item) s3 = (Ok (), s4)"
    and 5: "(case ib_advance_cursor batch of None \<Rightarrow> ret ()
       | Some (chain, last_h, last_hash) \<Rightarrow> cursor_advance_in_tx chain last_h last_hash) s4 = (Ok (), s')"
    by (elim bind_OkE) auto
  obtain f1 where s1: "s1 = (raw_put (ib_raw_records batch) s)\<lparr>faults := f1\<rparr>" using raw_insert_batch_tx_Ok[OF 1] by blast
  obtain f2 where s2: "s2 = (block_put (ib_block_metas batch) s1)\<lparr>faults := f2\<rparr>" using block_upsert_batch_tx_Ok[OF 2] by blast
  obtain f3 where s3: "s3 = (enrichment_put (ib_enrichment batch) s2)\<lparr>faults := f3\<rparr>" using write_enrichment_Ok[OF 3] by blast
  have s4: "\<exists>f. s4 = (queue_put (ib_enqueue batch) s3)\<lparr>faults := f\<rparr>"
  proof (cases "ib_enqueue batch")
    case None
    with 4 have "s4 = s3" by (simp add: ret_def)
    with None show ?thesis by (intro exI[of _ "faults s3"]) (simp add: queue_put_def)
  next
    case (Some item)
    with 4 have "push_in_tx item s3 = (Ok (), s4)" by simp
    then show ?thesis by (cases rule: push_in_tx_cases) (auto simp: queue_put_def Some)
  qed
  then obtain f4 where s4: "s4 = (queue_put (ib_enqueue batch) s3)\<lparr>faults := f4\<rparr>" by blast
  have "\<exists>f. s' = (cursor_put (ib_advance_cursor batch) s4)\<lparr>faults := f\<rparr>"
  proof (cases "ib_advance_cursor batch")
    case None
    with 5 have "s' = s4" by (simp add: ret_def)
    with None show ?thesis by (intro exI[of _ "faults s4"]) (simp add: cursor_put_def)
  next
    case (Some c)
    with 5 show ?thesis
      by (intro exI[of _ "tl (faults s4)"])
        (auto simp: cursor_advance_in_tx_def cursor_put_def dest!: stmt_OkD split: prod.splits)
  qed
  then obtain f5 where s': "s' = (cursor_put (ib_advance_cursor batch) s4)\<lparr>faults := f5\<rparr>" by blast
  have q: "queue_put it (t\<lparr>faults := f\<rparr>) = (queue_put it t)\<lparr>faults := f\<rparr>" for it t f
    by (simp add: queue_put_def pushed_def split: option.splits)
  have c: "cursor_put c (t\<lparr>faults := f\<rparr>) = (cursor_put c t)\<lparr>faults := f\<rparr>" for c t f
    by (auto simp: cursor_put_def split: option.splits)
  show ?thesis
    unfolding s' s4 s3 s2 s1 commit_effect_def q c enrichment_put_faults block_put_faults by auto
qed

lemma commit_ingest_cases:
  assumes "commit_ingest batch s = (r, s')"
  obtains fs where "r = Ok ()" "s' = (commit_effect batch s)\<lparr>faults := fs\<rparr>"
  | "\<not> is_ok r" "stored s' = stored s"
  using assms unfolding commit_ingest_def
proof (cases rule: transaction_cases)
  case (1 x s1)
  have x: "x = ()" by simp
  from commit_body_Ok[OF 1(2)[unfolded x]] obtain fs where
    "s1 = (commit_effect batch (s\<lparr>faults := tl (faults s)\<rparr>))\<lparr>faults := fs\<rparr>" by blast
  moreover have "commit_effect batch (s\<lparr>faults := tl (faults s)\<rparr>) = (commit_effect batch s)\<lparr>faults := tl (faults s)\<rparr>"
    by (auto simp: commit_effect_def cursor_put_def queue_put_def pushed_def raw_put_faults block_put_faults
        enrichment_put_faults split: option.splits)
  ultimately show thesis using 1 that(1) by simp
next
  case 2
  then show thesis using that(2) by blast
qed

section \<open>What a successful commit stored\<close>

lemma event_put_dom [simp]: "dom (tables (event_put t rows s)) = dom (tables s)"
  by (auto simp: event_put_def split: option.splits if_splits)

lemma event_upsert_needs_table:
  assumes "event_upsert_batch_tx table rows s = (Ok n, s')" and "rows \<noteq> []"
  shows "table \<in> dom (tables s)"
proof -
  let ?groups = "sort_key fst (group_by column_signature rows)"
  let ?chunks = "\<lambda>sig group. chunks (chunk_rows ((if table_has_idx table then 6 else 5) + length sig)) group"
  let ?part = "\<lambda>sig part n. bind (for_each (\<lambda>name _. bind (lift (safe_ident name)) (\<lambda>_. ret ())) sig ())
                 (\<lambda>_. bind (event_insert_stmt table part) (\<lambda>k. ret (u64_add n k)))"
  from assms(1) have loop: "for_each (\<lambda>(sig, group) n. for_each (?part sig) (?chunks sig group) n) ?groups 0 s = (Ok n, s')"
    unfolding event_upsert_batch_tx_def by (auto elim!: bind_OkE dest!: lift_OkD)
  have part: "dom (tables t') = dom (tables t) \<and> table \<in> dom (tables t)" if pt: "?part sig p a t = (Ok b, t')" for sig p a t b t'
  proof -
    obtain k where "event_insert_stmt table p t = (Ok k, t')"
      using pt by (auto elim!: bind_OkE dest!: sig_check_frame simp: ret_def)
    from event_insert_stmt_OkD[OF this] show ?thesis by (simp add: domIff)
  qed
  have "\<forall>g \<in> set ?groups. snd g \<noteq> [] \<longrightarrow> table \<in> dom (tables s)"
  proof (rule for_each_all[OF loop, where D = "\<lambda>s. dom (tables s)" and Q = "\<lambda>g d. snd g \<noteq> [] \<longrightarrow> table \<in> d", THEN conjunct2])
    fix g a t b t' assume "(case g of (sig, grp) \<Rightarrow> \<lambda>n. for_each (?part sig) (?chunks sig grp) n) a t = (Ok b, t')"
    then obtain sig grp where g: "g = (sig, grp)" and inner: "for_each (?part sig) (?chunks sig grp) a t = (Ok b, t')"
      by (cases g) auto
    have all: "dom (tables t') = dom (tables t) \<and> (\<forall>p \<in> set (?chunks sig grp). table \<in> dom (tables t))"
      by (rule for_each_all[OF inner, where D = "\<lambda>s. dom (tables s)" and Q = "\<lambda>p d. table \<in> d"]) (rule part)
    have "grp \<noteq> [] \<Longrightarrow> ?chunks sig grp \<noteq> []" by (subst chunks.simps) simp
    with all g show "dom (tables t') = dom (tables t) \<and> (snd g \<noteq> [] \<longrightarrow> table \<in> dom (tables t))"
      by (metis list.set_intros(1) neq_Nil_conv snd_conv)
  qed
  moreover have "\<exists>g \<in> set ?groups. snd g \<noteq> []"
  proof (rule ccontr)
    assume "\<not> ?thesis"
    then have "set (concat (map snd ?groups)) = {}" by auto
    with by_signature_set[of rows] assms(2) show False by (simp add: by_signature_def)
  qed
  ultimately show ?thesis by blast
qed

lemma enrichment_tables_set: "set (enrichment_tables rows) = set (group_by (\<lambda>row. de_table (er_event row)) rows)"
  by (auto simp: enrichment_tables_def Let_def)

lemma enrichment_tables_distinct: "distinct (map fst (enrichment_tables rows))"
proof -
  let ?g = "sort_key fst (group_by (\<lambda>row. de_table (er_event row)) rows)"
  have "distinct (map fst ?g)"
    using group_by_distinct[of "\<lambda>row. de_table (er_event row)" rows] unfolding distinct_map by simp
  then show ?thesis
    unfolding enrichment_tables_def Let_def by (auto simp: distinct_map_filter split: prod.splits)
qed

lemma enrichment_tables_group:
  "(t, trows) \<in> set (enrichment_tables rows) \<Longrightarrow>
     trows = filter (\<lambda>row. de_table (er_event row) = t) rows \<and> trows \<noteq> []"
proof -
  assume "(t, trows) \<in> set (enrichment_tables rows)"
  then have "(t, trows) \<in> set (group_by (\<lambda>row. de_table (er_event row)) rows)" by (simp add: enrichment_tables_set)
  then have "map_of (group_by (\<lambda>row. de_table (er_event row)) rows) t = Some trows"
    by (rule map_of_is_SomeI[rotated]) simp
  then show ?thesis by (auto simp: map_of_group_by filter_empty_conv split: if_splits)
qed

lemma enrichment_tables_row: "row \<in> set rows \<Longrightarrow>
   (de_table (er_event row), filter (\<lambda>r. de_table (er_event r) = de_table (er_event row)) rows) \<in> set (enrichment_tables rows)"
proof -
  assume "row \<in> set rows"
  then have "map_of (group_by (\<lambda>row. de_table (er_event row)) rows) (de_table (er_event row))
     = Some (filter (\<lambda>r. de_table (er_event r) = de_table (er_event row)) rows)" by (simp add: map_of_group_by)
  then show ?thesis unfolding enrichment_tables_set by (rule map_of_SomeD)
qed

lemma event_put_other: "t \<noteq> u \<Longrightarrow> tables (event_put t rows s) u = tables s u"
  by (simp add: event_put_def split: option.splits)

lemma fold_event_put_other:
  "t \<notin> fst ` set g \<Longrightarrow> tables (fold (\<lambda>(t, trows). event_put t (by_signature trows)) g s) t = tables s t"
proof (induction g arbitrary: s)
  case (Cons a g)
  then show ?case by (cases a) (auto simp: event_put_other)
qed simp

lemma fold_event_put_table:
  assumes "distinct (map fst g)" and "(t, trows) \<in> set g"
  shows "tables (fold (\<lambda>(t, trows). event_put t (by_signature trows)) g s) t = tables (event_put t (by_signature trows) s) t"
  using assms
proof (induction g arbitrary: s)
  case (Cons a g)
  obtain u urows where a: "a = (u, urows)" by (cases a)
  show ?case
  proof (cases "a = (t, trows)")
    case True
    then have "t \<notin> fst ` set g" using Cons.prems(1) by auto
    then show ?thesis using True by (simp add: fold_event_put_other)
  next
    case False
    with Cons.prems have m: "(t, trows) \<in> set g" "u \<noteq> t" "distinct (map fst g)" using a by (auto intro: rev_image_eqI)
    have "tables (event_put u (by_signature urows) s) t = tables s t" by (rule event_put_other[OF m(2)])
    then have "tables (event_put t x (event_put u (by_signature urows) s)) t = tables (event_put t x s) t" for x
      by (simp add: event_put_def split: option.splits)
    with Cons.IH[OF m(3,1)] show ?thesis by (simp add: a)
  qed
qed simp

lemma write_enrichment_tables:
  assumes "write_enrichment rows s = (Ok (), s')" and "row \<in> set rows"
  shows "de_table (er_event row) \<in> dom (tables s)"
proof -
  have "\<forall>g \<in> set (enrichment_tables rows). fst g \<in> dom (tables s)"
  proof (rule for_each_all[OF assms(1)[unfolded write_enrichment_def], where D = "\<lambda>s. dom (tables s)"
        and Q = "\<lambda>g d. fst g \<in> d", THEN conjunct2])
    fix g a t b t' assume g: "g \<in> set (enrichment_tables rows)"
      and f: "(case g of (table, trows) \<Rightarrow> \<lambda>_. bind (event_upsert_batch_tx table trows) (\<lambda>_. ret ())) a t = (Ok b, t')"
    obtain table trows where tt: "g = (table, trows)" by (cases g)
    with f obtain n where up: "event_upsert_batch_tx table trows t = (Ok n, t')"
      by (auto elim!: bind_OkE simp: ret_def)
    moreover have "trows \<noteq> []" using enrichment_tables_group g tt by blast
    ultimately have "table \<in> dom (tables t)" by (rule event_upsert_needs_table)
    moreover have "dom (tables t') = dom (tables t)"
    proof -
      obtain fs where "t' = (event_put table (by_signature trows) t)\<lparr>faults := fs\<rparr>"
        using event_upsert_batch_tx_Ok[OF up] by blast
      then show ?thesis by simp
    qed
    ultimately show "dom (tables t') = dom (tables t) \<and> fst g \<in> dom (tables t)" using tt by simp
  qed
  with enrichment_tables_row[OF assms(2)] show ?thesis by fastforce
qed

lemma commit_ingest_tables:
  assumes "commit_ingest batch s = (Ok (), s')" and "row \<in> set (ib_enrichment batch)"
  shows "de_table (er_event row) \<in> dom (tables s)"
  using assms(1) unfolding commit_ingest_def
proof (cases rule: transaction_cases)
  case (1 x s1)
  then obtain n s2 m s3 s4 where
    "raw_insert_batch_tx (ib_raw_records batch) (s\<lparr>faults := tl (faults s)\<rparr>) = (Ok n, s2)"
    "block_upsert_batch_tx (ib_block_metas batch) s2 = (Ok m, s3)"
    and w: "write_enrichment (ib_enrichment batch) s3 = (Ok (), s4)"
    by (elim bind_OkE) auto
  then have "tables s3 = tables s"
    by (auto dest!: raw_insert_batch_tx_Ok block_upsert_batch_tx_Ok simp: raw_put_def block_put_def)
  with write_enrichment_tables[OF w assms(2)] show ?thesis by simp
qed simp

lemma put_frames [simp]:
  "tables (cursor_put c t) = tables t" "tables (queue_put q t) = tables t"
  "blocks (cursor_put c t) = blocks t" "blocks (queue_put q t) = blocks t"
  "raw_records (cursor_put c t) = raw_records t" "raw_records (queue_put q t) = raw_records t"
  "work_queue (cursor_put c t) = work_queue t"
  by (auto simp: cursor_put_def queue_put_def pushed_def split: option.splits)

lemma event_put_frames [simp]:
  "blocks (event_put t rows s) = blocks s" "raw_records (event_put t rows s) = raw_records s"
  "work_queue (event_put t rows s) = work_queue s" "cursors (event_put t rows s) = cursors s"
  by (simp_all add: event_put_def split: option.splits)

lemma enrichment_put_frames [simp]:
  "blocks (enrichment_put rows s) = blocks s" "raw_records (enrichment_put rows s) = raw_records s"
proof -
  have "blocks (fold (\<lambda>(t, trows). event_put t (by_signature trows)) g s) = blocks s"
    "raw_records (fold (\<lambda>(t, trows). event_put t (by_signature trows)) g s) = raw_records s" for g :: "(string \<times> event_row list) list"
    by (induction g arbitrary: s) auto
  then show "blocks (enrichment_put rows s) = blocks s" "raw_records (enrichment_put rows s) = raw_records s"
    by (simp_all add: enrichment_put_def)
qed

lemma enrichment_put_table:
  assumes "row \<in> set rows" and "de_table (er_event row) \<in> dom (tables s)"
  shows "\<exists>t. tables (enrichment_put rows s) (de_table (er_event row)) = Some t
     \<and> typed_key t (typed_row_of (table_has_idx (de_table (er_event row))) row) \<in> typed_key t ` set (tb_rows t)"
proof -
  let ?T = "de_table (er_event row)"
  let ?rows = "filter (\<lambda>r. de_table (er_event r) = ?T) rows"
  obtain t where t: "tables s ?T = Some t" using assms(2) by blast
  have "tables (enrichment_put rows s) ?T = tables (event_put ?T (by_signature ?rows) s) ?T"
    unfolding enrichment_put_def
    by (rule fold_event_put_table[OF enrichment_tables_distinct enrichment_tables_row[OF assms(1)]])
  moreover have "row \<in> set (by_signature ?rows)" using assms(1) by simp
  ultimately show ?thesis
    using t by (simp add: event_put_def insert_nothing_snd_keys)
qed

section \<open>Effect of a rollback\<close>

lemma runs_rollback: "runs (rollback_to chain from [])"
  unfolding rollback_to_def
  by (intro runs_transaction runs_bind)
    (auto simp: raw_delete_from_height_tx_def block_delete_from_height_tx_def cursor_rewind_in_tx_def dml_def delete_where_def)

definition rollback_effect :: "chain_id \<Rightarrow> height \<Rightarrow> string list \<Rightarrow> db \<Rightarrow> db" where
  "rollback_effect chain from tbls s = (fold (\<lambda>t. event_cut t chain from) tbls s)\<lparr>
     raw_records := filter (\<lambda>r. \<not> (rw_chain_id r = as_i64 chain \<and> as_i64 from \<le> rw_height r)) (raw_records s),
     blocks := filter (\<lambda>r. \<not> (bl_chain_id r = as_i64 chain \<and> as_i64 from \<le> bl_height r)) (blocks s),
     cursors := map (\<lambda>r. if cu_chain_id r = as_i64 chain
        then r\<lparr>cu_last_height := as_i64 (from - 1), cu_last_hash := []\<rparr> else r) (cursors s)\<rparr>"

lemma event_cut_frames [simp]:
  "raw_records (event_cut t chain from s) = raw_records s" "blocks (event_cut t chain from s) = blocks s"
  "cursors (event_cut t chain from s) = cursors s" "work_queue (event_cut t chain from s) = work_queue s"
  by (auto simp: event_cut_def cascade_receipts_def Let_def split: option.splits)

lemma fold_event_cut_frames [simp]:
  "raw_records (fold (\<lambda>t. event_cut t chain from) tbls s) = raw_records s"
  "blocks (fold (\<lambda>t. event_cut t chain from) tbls s) = blocks s"
  "cursors (fold (\<lambda>t. event_cut t chain from) tbls s) = cursors s"
  "work_queue (fold (\<lambda>t. event_cut t chain from) tbls s) = work_queue s"
  "faults (fold (\<lambda>t. event_cut t chain from) tbls (s\<lparr>faults := fs\<rparr>)) = fs"
  "fold (\<lambda>t. event_cut t chain from) tbls (s\<lparr>faults := fs\<rparr>) = (fold (\<lambda>t. event_cut t chain from) tbls s)\<lparr>faults := fs\<rparr>"
  by (induction tbls arbitrary: s) (simp_all add: event_cut_faults)

lemma rollback_to_cases:
  assumes "rollback_to chain from tbls s = (r, s')"
  obtains fs where "r = Ok ()" "s' = (rollback_effect chain from tbls s)\<lparr>faults := fs\<rparr>"
  | "\<not> is_ok r" "stored s' = stored s"
  using assms unfolding rollback_to_def
proof (cases rule: transaction_cases)
  case (1 x s1)
  then obtain s2 n s3 m s4 where
    a: "for_each (\<lambda>table _. bind (event_delete_from_height_tx table chain from) (\<lambda>_. ret ())) tbls () (s\<lparr>faults := tl (faults s)\<rparr>) = (Ok (), s2)"
    and b: "raw_delete_from_height_tx chain from s2 = (Ok n, s3)"
    and c: "block_delete_from_height_tx chain from s3 = (Ok m, s4)"
    and d: "cursor_rewind_in_tx chain (from - 1) s4 = (Ok x, s1)"
    by (auto elim!: bind_OkE)
  have "\<exists>fs. s2 = (fold (\<lambda>t. event_cut t chain from) tbls (s\<lparr>faults := tl (faults s)\<rparr>))\<lparr>faults := fs\<rparr>"
    by (rule for_each_effect[OF a])
      (auto elim!: bind_OkE dest!: event_delete_stmt_OkD lift_OkD simp: ret_def event_delete_from_height_tx_def event_cut_faults)
  then obtain fs where s2: "s2 = (fold (\<lambda>t. event_cut t chain from) tbls s)\<lparr>faults := fs\<rparr>" by auto
  have "s1 = (rollback_effect chain from tbls s)\<lparr>faults := tl (tl (tl fs))\<rparr>"
    using b c d by (auto simp: s2 raw_delete_from_height_tx_def block_delete_from_height_tx_def cursor_rewind_in_tx_def
        dml_def delete_where_def rollback_effect_def dest!: stmt_OkD)
  with 1 that(1) show thesis by simp
next
  case 2
  then show thesis using that(2) by blast
qed

lemma fold_event_cut_table:
  assumes "tables (fold (\<lambda>t. event_cut t chain from) tbls s) n = Some u"
  shows "\<exists>v. tables s n = Some v \<and> set (tb_rows u) \<subseteq> set (tb_rows v)
     \<and> (n \<in> set tbls \<longrightarrow> (\<forall>r \<in> set (tb_rows u). \<not> at_or_above chain from r))
     \<and> (n \<noteq> RECEIPTS_TABLE \<longrightarrow> (\<forall>r \<in> set (tb_rows v). \<not> at_or_above chain from r \<longrightarrow> r \<in> set (tb_rows u)))"
  using assms
proof (induction tbls arbitrary: s)
  case (Cons t tbls)
  then obtain w where w: "tables (event_cut t chain from s) n = Some w" "set (tb_rows u) \<subseteq> set (tb_rows w)"
     "n \<in> set tbls \<longrightarrow> (\<forall>r \<in> set (tb_rows u). \<not> at_or_above chain from r)"
     "n \<noteq> RECEIPTS_TABLE \<longrightarrow> (\<forall>r \<in> set (tb_rows w). \<not> at_or_above chain from r \<longrightarrow> r \<in> set (tb_rows u))"
    unfolding fold_simps by blast
  from w(1) obtain v P where v: "tables s n = Some v" "w = v\<lparr>tb_rows := filter P (tb_rows v)\<rparr>"
    "\<And>r. n = t \<Longrightarrow> P r \<Longrightarrow> \<not> at_or_above chain from r"
    "\<And>r. n \<noteq> RECEIPTS_TABLE \<Longrightarrow> \<not> at_or_above chain from r \<Longrightarrow> P r"
    by (rule event_cut_tables) blast
  have rows: "set (tb_rows w) = {r \<in> set (tb_rows v). P r}" by (simp add: v(2))
  have sub: "set (tb_rows u) \<subseteq> set (tb_rows v)" using w(2) rows by blast
  have gone: "\<forall>r \<in> set (tb_rows u). \<not> at_or_above chain from r" if "n \<in> set (t # tbls)"
    using that w(2,3) rows v(3) by (cases "n = t") auto
  have kept: "\<forall>r \<in> set (tb_rows v). \<not> at_or_above chain from r \<longrightarrow> r \<in> set (tb_rows u)" if "n \<noteq> RECEIPTS_TABLE"
    using that w(4) rows v(4) by blast
  show ?case using v(1) sub gone kept by blast
qed simp

section \<open>Properties\<close>

text \<open>
  C14. The commit of an ingested range is atomic and complete. Whatever statement fails, a
  commit that does not succeed leaves every table as it was. A commit that succeeds has
  stored every raw record and block meta of the batch, a row for every enrichment row (or
  found one with its primary key), the work item, and the cursor checkpoint. In both cases
  the database stays well-formed: unique keys, and no receipt without its transaction.
\<close>

theorem commit_ingest_atomic:
  assumes "commit_ingest batch s = (r, s')" and "db_wf s"
  shows "db_wf s' \<and> (\<not> is_ok r \<longrightarrow> stored s' = stored s)
     \<and> (is_ok r \<longrightarrow>
          (\<forall>rec \<in> set (ib_raw_records batch). raw_key (raw_row_of rec) \<in> raw_key ` set (raw_records s'))
        \<and> (distinct (map (block_key \<circ> block_row_of) (ib_block_metas batch)) \<longrightarrow>
             block_row_of ` set (ib_block_metas batch) \<subseteq> set (blocks s'))
        \<and> (\<forall>row \<in> set (ib_enrichment batch). \<exists>t. tables s' (de_table (er_event row)) = Some t
             \<and> typed_key t (typed_row_of (table_has_idx (de_table (er_event row))) row) \<in> typed_key t ` set (tb_rows t))
        \<and> (\<forall>it. ib_enqueue batch = Some it \<longrightarrow> item_key it \<in> queue_key ` set (work_queue s'))
        \<and> (\<forall>c h hs. ib_advance_cursor batch = Some (c, h, hs) \<longrightarrow>
             \<lparr>cu_chain_id = as_i64 c, cu_last_height = as_i64 h, cu_last_hash = hs\<rparr> \<in> set (cursors s')))"
proof -
  have wf: "db_wf s'" using keepsD[OF keeps_commit_ingest assms(2,1)] .
  show ?thesis
  proof (cases rule: commit_ingest_cases[OF assms(1)])
    case (1 fs)
    have tab: "tables s' = tables (enrichment_put (ib_enrichment batch) (block_put (ib_block_metas batch) (raw_put (ib_raw_records batch) s)))"
      by (simp add: 1 commit_effect_def)
    have "\<exists>t. tables s' (de_table (er_event row)) = Some t
             \<and> typed_key t (typed_row_of (table_has_idx (de_table (er_event row))) row) \<in> typed_key t ` set (tb_rows t)"
      if "row \<in> set (ib_enrichment batch)" for row
    proof -
      have "de_table (er_event row) \<in> dom (tables (block_put (ib_block_metas batch) (raw_put (ib_raw_records batch) s)))"
        using commit_ingest_tables[of batch s s' row] assms(1) 1(1) that by (simp add: block_put_def raw_put_def)
      from enrichment_put_table[OF that this] show ?thesis unfolding tab .
    qed
    moreover have "\<forall>rec \<in> set (ib_raw_records batch). raw_key (raw_row_of rec) \<in> raw_key ` set (raw_records s')"
      using insert_nothing_snd_keys[of raw_key "map raw_row_of (ib_raw_records batch)" "raw_records s"]
      by (simp add: 1 commit_effect_def block_put_def raw_put_def)
    moreover have "block_row_of ` set (ib_block_metas batch) \<subseteq> set (blocks s')"
      if "distinct (map (block_key \<circ> block_row_of) (ib_block_metas batch))"
      using fold_put_row_mem[of block_key "map block_row_of (ib_block_metas batch)"] that
      by (auto simp: 1 commit_effect_def block_put_def raw_put_def)
    moreover have "item_key it \<in> queue_key ` set (work_queue s')" if "ib_enqueue batch = Some it" for it
      by (simp add: 1 commit_effect_def queue_put_def that pushed_queue)
    moreover have "\<lparr>cu_chain_id = as_i64 c, cu_last_height = as_i64 h, cu_last_hash = hs\<rparr> \<in> set (cursors s')"
      if "ib_advance_cursor batch = Some (c, h, hs)" for c h hs
      by (simp add: 1 commit_effect_def cursor_put_def that put_row_mem)
    ultimately show ?thesis using wf 1(1) by simp
  qed (use wf in simp)
qed

definition demo_batch :: ingest_batch where
  "demo_batch = \<lparr>ib_raw_records = [demo_raw 9 0], ib_block_metas = [], ib_enrichment = [],
     ib_enqueue = Some (demo_item 5 10), ib_advance_cursor = Some (5, 19, [7])\<rparr>"

theorem commit_ingest_atomic_witness:
  "\<exists>s'. commit_ingest demo_batch db_empty = (Ok (), s') \<and> db_wf s'
     \<and> raw_key (raw_row_of (demo_raw 9 0)) \<in> raw_key ` set (raw_records s')
     \<and> item_key (demo_item 5 10) \<in> queue_key ` set (work_queue s')
     \<and> \<lparr>cu_chain_id = as_i64 5, cu_last_height = as_i64 19, cu_last_hash = [7]\<rparr> \<in> set (cursors s')"
proof -
  have g: "group_by f [] = []" for f :: "event_row \<Rightarrow> string" by (simp add: group_by_def)
  have f: "faults db_empty = []" by (simp add: db_empty_def)
  have "runs (commit_ingest demo_batch)"
    unfolding commit_ingest_def demo_batch_def
    by (intro runs_transaction runs_bind runs_raw_insert)
      (auto simp: block_upsert_batch_tx_def write_enrichment_def enrichment_tables_def g)
  then obtain s' where c: "commit_ingest demo_batch db_empty = (Ok (), s')"
    using f by (metis runsE unit.exhaust)
  from commit_ingest_atomic[OF c db_wf_empty] c show ?thesis by (auto simp: demo_batch_def)
qed



end
