(* ===== verification/Services.thy ===== *)
theory Services
  imports Unit_Of_Work
begin

text \<open>
  \<open>crates/services\<close>: ingestion of a block range, decoding of stored raw records, the
  queue worker and the reorganisation check. The services see the chain and the decoder
  through the ports of \<open>crates/domain/src/ports\<close>, which are records of functions here;
  the storage ports are the repositories of \<open>crates/db\<close>. A state of the whole process is
  a pair of the chain source's state and the database.
\<close>

section \<open>Ports\<close>

record 'c chain_source =
  cs_chain_id :: chain_id
  cs_head :: "('c, domain_error, height) m"
  cs_fetch_records :: "record_filter \<Rightarrow> height \<Rightarrow> height \<Rightarrow> ('c, domain_error, raw_record list) m"
  cs_fetch_aux :: "raw_record list \<Rightarrow> ('c, domain_error, aux_data) m"
  cs_block_hash :: "height \<Rightarrow> ('c, domain_error, hash option) m"
  cs_subscribe :: "record_filter \<Rightarrow> ('c, domain_error, (domain_error, tip_log) res list) m"
  cs_plan :: plan_profile
  cs_caps :: chain_caps

text \<open>A subscription's stream is the list of the items it will deliver.\<close>

record decoder =
  dc_decode :: "raw_record \<Rightarrow> (domain_error, event_row option) res"
  dc_decode_call :: "tx_calldata \<Rightarrow> (domain_error, event_row option) res"
  dc_has_calls :: bool

text \<open>The iteration order of a \<open>HashMap\<close> and of a \<open>HashSet\<close> is not determined: it is a
  parameter that permutes the entries.\<close>

record hash_iter =
  hi_tables :: "(string \<times> event_row list) list \<Rightarrow> (string \<times> event_row list) list"
  hi_ids :: "hash list \<Rightarrow> hash list"

definition permutes :: "hash_iter \<Rightarrow> bool" where
  "permutes hi \<longleftrightarrow> (\<forall>g. mset (hi_tables hi g) = mset g) \<and> (\<forall>h. mset (hi_ids hi h) = mset h)"

definition on_src :: "('c, 'e, 'a) m \<Rightarrow> ('c \<times> db, 'e, 'a) m" where
  "on_src f w = (let (r, c) = f (fst w) in (r, (c, snd w)))"

definition on_db :: "(db, 'e, 'a) m \<Rightarrow> ('c \<times> db, 'e, 'a) m" where
  "on_db f w = (let (r, d) = f (snd w) in (r, (fst w, d)))"

section \<open>Ingestion\<close>

record ingest_outcome =
  io_records :: nat
  io_blocks :: nat
  io_enrichment :: nat
  io_last_block :: "(height \<times> hash) option"

record fetched_range =
  fr_from :: height
  fr_to :: height
  fr_records :: "raw_record list"
  fr_aux :: aux_data
  fr_last_block :: "(height \<times> hash) option"

text \<open>\<open>Iterator::max_by_key\<close>: the last of the maximal elements.\<close>

definition max_by_key :: "('a \<Rightarrow> nat) \<Rightarrow> 'a list \<Rightarrow> 'a option" where
  "max_by_key key xs = fold (\<lambda>x best. case best of
     None \<Rightarrow> Some x | Some b \<Rightarrow> if key b \<le> key x then Some x else Some b) xs None"

definition fetch_range :: "'c chain_source \<Rightarrow> record_filter \<Rightarrow> height \<Rightarrow> height
    \<Rightarrow> ('c, domain_error, fetched_range) m" where
  "fetch_range cs filt from to =
     bind (cs_fetch_records cs filt from to) (\<lambda>records.
     bind (if records = [] then ret aux_data_default else cs_fetch_aux cs records) (\<lambda>aux.
     ret \<lparr>fr_from = from, fr_to = to, fr_records = records, fr_aux = aux,
          fr_last_block = map_option (\<lambda>b. (bm_height b, bm_hash b)) (max_by_key bm_height (ax_block_metas aux))\<rparr>))"

definition ingest_batch_of :: "chain_id \<Rightarrow> fetched_range \<Rightarrow> epoch \<Rightarrow> bool \<Rightarrow> ingest_batch" where
  "ingest_batch_of chain f epoch advance_cursor =
     \<lparr>ib_raw_records = fr_records f, ib_block_metas = ax_block_metas (fr_aux f),
      ib_enrichment = ax_enrichment (fr_aux f),
      ib_enqueue = (if fr_records f \<noteq> []
        then Some \<lparr>wi_chain_id = chain, wi_from = fr_from f, wi_to = fr_to f, wi_kind = Backfill, wi_epoch = epoch\<rparr>
        else None),
      ib_advance_cursor = (if advance_cursor
        then Some (chain, fr_to f, case fr_last_block f of None \<Rightarrow> [] | Some (_, h) \<Rightarrow> h)
        else None)\<rparr>"

definition commit :: "chain_id \<Rightarrow> fetched_range \<Rightarrow> epoch \<Rightarrow> bool \<Rightarrow> (db, domain_error, ingest_outcome) m" where
  "commit chain f epoch advance_cursor =
     bind (commit_ingest (ingest_batch_of chain f epoch advance_cursor)) (\<lambda>_.
     ret \<lparr>io_records = length (fr_records f), io_blocks = length (ax_block_metas (fr_aux f)),
          io_enrichment = length (ax_enrichment (fr_aux f)), io_last_block = fr_last_block f\<rparr>)"

definition commit_range :: "chain_id \<Rightarrow> fetched_range \<Rightarrow> epoch \<Rightarrow> (db, domain_error, ingest_outcome) m" where
  "commit_range chain f epoch = commit chain f epoch False"

definition ingest_range :: "'c chain_source \<Rightarrow> record_filter \<Rightarrow> height \<Rightarrow> height \<Rightarrow> epoch \<Rightarrow> bool
    \<Rightarrow> ('c \<times> db, domain_error, ingest_outcome) m" where
  "ingest_range cs filt from to epoch advance_cursor =
     bind (on_src (fetch_range cs filt from to)) (\<lambda>f. on_db (commit (cs_chain_id cs) f epoch advance_cursor))"

section \<open>Decoding\<close>

text \<open>Stamping the block time of the row's height.\<close>

definition stamp :: "(height \<times> int) list \<Rightarrow> event_row \<Rightarrow> event_row" where
  "stamp tms row = row\<lparr>er_block_time := map_of (rev tms) (er_height row)\<rparr>"

text \<open>Decoding a list of inputs with early return; rows are stamped in input order.\<close>

fun decode_all :: "('a \<Rightarrow> (domain_error, event_row option) res) \<Rightarrow> (height \<times> int) list \<Rightarrow> 'a list
    \<Rightarrow> (domain_error, event_row list) res" where
  "decode_all dec tms [] = Ok []"
| "decode_all dec tms (x # xs) = and_then (dec x) (\<lambda>r.
     map_ok (\<lambda>rows. (case r of None \<Rightarrow> [] | Some row \<Rightarrow> [stamp tms row]) @ rows) (decode_all dec tms xs))"

definition write_tables :: "(string \<times> event_row list) list \<Rightarrow> (db, domain_error, nat) m" where
  "write_tables by_table =
     for_each (\<lambda>(table, rows) written. bind (event_upsert_batch table rows) (\<lambda>n. ret (u64_add written n))) by_table 0"

definition decode_range :: "hash_iter \<Rightarrow> decoder \<Rightarrow> chain_id \<Rightarrow> height \<Rightarrow> height \<Rightarrow> (db, domain_error, nat) m" where
  "decode_range hi dec chain from to =
     bind (raw_range chain from to) (\<lambda>raw.
     bind (block_times chain from to) (\<lambda>tms.
     bind (lift (decode_all (dc_decode dec) tms raw)) (\<lambda>events.
     bind (if dc_has_calls dec
           then bind (block_calldata chain (hi_ids hi (remdups (map rr_tx_id raw))))
                  (\<lambda>txs. lift (decode_all (dc_decode_call dec) tms txs))
           else ret []) (\<lambda>calls.
     write_tables (hi_tables hi (group_by (\<lambda>row. de_table (er_event row)) (events @ calls)))))))"

section \<open>The decode worker\<close>

definition run_once :: "hash_iter \<Rightarrow> (chain_id \<Rightarrow> decoder option) \<Rightarrow> (db, domain_error, nat option) m" where
  "run_once hi decoders =
     bind pull_any (\<lambda>l. case l of
       None \<Rightarrow> ret None
     | Some lease \<Rightarrow>
         bind (case decoders (wi_chain_id (le_item lease)) of
             Some dec \<Rightarrow> decode_range hi dec (wi_chain_id (le_item lease)) (wi_from (le_item lease)) (wi_to (le_item lease))
           | None \<Rightarrow> ret 0) (\<lambda>written.
         bind (ack (le_id lease) (le_seq lease)) (\<lambda>_. ret (Some written))))"

definition reclaim :: "nat \<Rightarrow> (db, domain_error, nat) m" where
  "reclaim older_than_secs = reclaim_expired older_than_secs"

definition worker_depth :: "(db, domain_error, nat) m" where
  "worker_depth = depth"

section \<open>Reorganisation check\<close>

definition reorg_check :: "'c chain_source \<Rightarrow> string list \<Rightarrow> nat \<Rightarrow> ('c \<times> db, domain_error, height option) m" where
  "reorg_check cs tbls confirmations =
     (if \<not> supports_reorg (cs_caps cs) then ret None
      else bind (on_db (block_max_height (cs_chain_id cs))) (\<lambda>mx. case mx of
        None \<Rightarrow> ret None
      | Some tip \<Rightarrow> bind (on_db (block_get (cs_chain_id cs) tip)) (\<lambda>st. case st of
          None \<Rightarrow> ret None
        | Some block \<Rightarrow> bind (on_src (cs_block_hash cs tip)) (\<lambda>ca. case ca of
            None \<Rightarrow> ret None
          | Some canon \<Rightarrow>
              if canon = bm_hash block then ret None
              else let fork = saturating_sub tip confirmations; from = u64_add fork 1
                   in bind (on_db (rollback_to (cs_chain_id cs) from tbls)) (\<lambda>_. ret (Some from))))))"

section \<open>Lemmas\<close>

lemma on_db_OkE:
  assumes "on_db f w = (Ok x, w')"
  obtains d where "f (snd w) = (Ok x, d)" "w' = (fst w, d)"
  using assms by (auto simp: on_db_def Let_def split: prod.splits)

lemma on_src_OkE:
  assumes "on_src f w = (Ok x, w')"
  obtains c where "f (fst w) = (Ok x, c)" "w' = (c, snd w)"
  using assms by (auto simp: on_src_def Let_def split: prod.splits)

lemma decode_all_Ok:
  "decode_all dec tms xs = Ok rows \<Longrightarrow>
     set rows = {stamp tms row | x row. x \<in> set xs \<and> dec x = Ok (Some row)}
     \<and> (\<forall>x \<in> set xs. \<exists>r. dec x = Ok r)"
proof (induction xs arbitrary: rows)
  case (Cons x xs)
  from Cons.prems obtain r where r: "dec x = Ok r" by (cases "dec x") auto
  with Cons.prems obtain rest where rest: "decode_all dec tms xs = Ok rest"
    and rows: "rows = (case r of None \<Rightarrow> [] | Some row \<Rightarrow> [stamp tms row]) @ rest"
    by (cases "decode_all dec tms xs") auto
  from Cons.IH[OF rest] have ih: "set rest = {stamp tms row | x row. x \<in> set xs \<and> dec x = Ok (Some row)}"
    "\<forall>x \<in> set xs. \<exists>r. dec x = Ok r" by auto
  have "set rows = (case r of None \<Rightarrow> {} | Some row \<Rightarrow> {stamp tms row}) \<union> set rest"
    by (auto simp: rows split: option.splits)
  with ih r show ?case by (auto split: option.splits)
qed auto

lemma event_upsert_batch_cases:
  assumes "event_upsert_batch table rows s = (Ok n, s')"
  shows "(\<exists>fs. s' = (event_put table (by_signature rows) s)\<lparr>faults := fs\<rparr>) \<and> (rows \<noteq> [] \<longrightarrow> table \<in> dom (tables s))"
proof -
  from assms have "transaction (event_upsert_batch_tx table rows) s = (Ok n, s')"
    unfolding event_upsert_batch_def by (auto elim!: bind_OkE simp: db_result_def lift_def)
  then show ?thesis
  proof (cases rule: transaction_cases)
    case (1 x s1)
    from event_upsert_batch_tx_Ok[OF 1(2)] event_upsert_needs_table[OF 1(2)] 1(3) show ?thesis
      by (auto simp: event_put_faults)
  qed simp
qed

definition tables_put :: "(string \<times> event_row list) list \<Rightarrow> db \<Rightarrow> db" where
  "tables_put g s = fold (\<lambda>(t, rows). event_put t (by_signature rows)) g s"

lemma write_tables_Ok:
  assumes "write_tables g s = (Ok n, s')"
  shows "(\<exists>fs. s' = (tables_put g s)\<lparr>faults := fs\<rparr>) \<and> (\<forall>(t, rows) \<in> set g. rows \<noteq> [] \<longrightarrow> t \<in> dom (tables s))"
proof
  show "\<exists>fs. s' = (tables_put g s)\<lparr>faults := fs\<rparr>"
    unfolding tables_put_def
    by (rule for_each_effect[OF assms[unfolded write_tables_def]])
      (auto elim!: bind_OkE dest!: event_upsert_batch_cases simp: ret_def event_put_faults)
  have "\<forall>p \<in> set g. snd p \<noteq> [] \<longrightarrow> fst p \<in> dom (tables s)"
  proof (rule for_each_all[OF assms[unfolded write_tables_def], where D = "\<lambda>s. dom (tables s)"
        and Q = "\<lambda>p d. snd p \<noteq> [] \<longrightarrow> fst p \<in> d", THEN conjunct2])
    fix p a t b t' assume "(case p of (table, rows) \<Rightarrow> \<lambda>written. bind (event_upsert_batch table rows)
        (\<lambda>n. ret (u64_add written n))) a t = (Ok b, t')"
    then obtain k where up: "event_upsert_batch (fst p) (snd p) t = (Ok k, t')"
      by (cases p) (auto elim!: bind_OkE simp: ret_def)
    from event_upsert_batch_cases[OF up] obtain fs where
      "t' = (event_put (fst p) (by_signature (snd p)) t)\<lparr>faults := fs\<rparr>" by blast
    with event_upsert_batch_cases[OF up]
    show "dom (tables t') = dom (tables t) \<and> (snd p \<noteq> [] \<longrightarrow> fst p \<in> dom (tables t))" by simp
  qed
  then show "\<forall>(t, rows) \<in> set g. rows \<noteq> [] \<longrightarrow> t \<in> dom (tables s)" by auto
qed

lemma tables_put_frames [simp]:
  "blocks (tables_put g s) = blocks s" "raw_records (tables_put g s) = raw_records s"
  "work_queue (tables_put g s) = work_queue s" "cursors (tables_put g s) = cursors s"
  unfolding tables_put_def by (induction g arbitrary: s) auto

section \<open>Lemmas on decoding\<close>

definition times_of :: "chain_id \<Rightarrow> height \<Rightarrow> height \<Rightarrow> db \<Rightarrow> (height \<times> int) list" where
  "times_of chain from to s = map (\<lambda>r. (as_u64 (bl_height r), bl_time r))
       (filter (\<lambda>r. bl_chain_id r = as_i64 chain \<and> in_range (as_i64 from) (as_i64 to) (bl_height r)) (blocks s))"

definition calldata_of :: "chain_id \<Rightarrow> hash list \<Rightarrow> db \<Rightarrow> tx_calldata list" where
  "calldata_of chain ids s = (case tables s ''transactions'' of None \<Rightarrow> []
     | Some t \<Rightarrow> concat (map (\<lambda>r. case calldata_of_row chain r of Ok c \<Rightarrow> [c] | _ \<Rightarrow> [])
         (filter (\<lambda>r. tr_chain_id r = as_i64 chain \<and> tr_tx_id r \<in> set ids) (tb_rows t))))"

lemma db_result_OkD: "db_result f s = (Ok x, s') \<Longrightarrow> f s = (Ok x, s')"
  by (auto simp: db_result_def split: prod.splits)

lemma raw_range_OkD:
  "raw_range chain from to s = (Ok raw, s') \<Longrightarrow> raw = range_of chain from to s \<and> s' = s\<lparr>faults := tl (faults s)\<rparr>"
  unfolding raw_range_def by (drule db_result_OkD, drule select_stmt_OkD) (simp add: range_of_def)

lemma block_times_OkD:
  "block_times chain from to s = (Ok tms, s') \<Longrightarrow> tms = times_of chain from to s \<and> s' = s\<lparr>faults := tl (faults s)\<rparr>"
  unfolding block_times_def by (drule db_result_OkD, drule select_stmt_OkD) (simp add: times_of_def)

lemma calldata_rows_OkD:
  "for_each (\<lambda>r out. bind (lift (calldata_of_row chain r)) (\<lambda>c. ret (out @ [c]))) rows out s = (Ok res, s') \<Longrightarrow>
     res = out @ concat (map (\<lambda>r. case calldata_of_row chain r of Ok c \<Rightarrow> [c] | _ \<Rightarrow> []) rows) \<and> s' = s"
proof (induction rows arbitrary: out)
  case (Cons r rows)
  from Cons.prems obtain c where c: "calldata_of_row chain r = Ok c"
    and rest: "for_each (\<lambda>r out. bind (lift (calldata_of_row chain r)) (\<lambda>c. ret (out @ [c]))) rows (out @ [c]) s = (Ok res, s')"
    by (auto elim!: bind_OkE dest!: lift_OkD ret_OkD)
  from Cons.IH[OF rest] c show ?case by simp
qed (simp add: ret_def)

lemma block_calldata_OkD:
  assumes "block_calldata chain ids s = (Ok txs, s')"
  shows "(\<exists>fs. s' = s\<lparr>faults := fs\<rparr>) \<and> txs = concat (map (\<lambda>c. calldata_of chain c s) (chunks CALLDATA_CHUNK ids))"
proof -
  let ?f = "\<lambda>ids out. bind (calldata_stmt chain ids)
         (\<lambda>rows. for_each (\<lambda>r out. bind (lift (calldata_of_row chain r)) (\<lambda>c. ret (out @ [c]))) rows out)"
  have step: "out' = out @ calldata_of chain c t \<and> t' = t\<lparr>faults := tl (faults t)\<rparr>" if "?f c out t = (Ok out', t')" for c out t out' t'
    using that by (auto elim!: bind_OkE dest!: calldata_rows_OkD stmt_OkD
        simp: calldata_stmt_def calldata_of_def split: option.splits)
  have loop: "for_each ?f (chunks CALLDATA_CHUNK ids) [] s = (Ok txs, s')"
    using assms unfolding block_calldata_def by (rule db_result_OkD)
  have "(\<exists>fs. s' = s\<lparr>faults := fs\<rparr>) \<and> txs = out @ concat (map (\<lambda>c. calldata_of chain c s) cs)"
    if "for_each ?f cs out s = (Ok txs, s')" for cs out s
    using that
  proof (induction cs arbitrary: out s)
    case Nil
    then show ?case by (cases s) (auto simp: ret_def)
  next
    case (Cons c cs)
    then obtain out1 s1 where 1: "?f c out s = (Ok out1, s1)" "for_each ?f cs out1 s1 = (Ok txs, s')"
      by (auto elim!: bind_OkE[of "?f c out"])
    from step[OF 1(1)] Cons.IH[OF 1(2)] show ?case by (auto simp: calldata_of_def)
  qed
  from this[OF loop] show ?thesis by simp
qed

text \<open>The rows a range decodes to, as a function of what is stored.\<close>

definition decoded :: "hash_iter \<Rightarrow> decoder \<Rightarrow> chain_id \<Rightarrow> height \<Rightarrow> height \<Rightarrow> db \<Rightarrow> event_row list \<Rightarrow> bool" where
  "decoded hi dec chain from to s rows \<longleftrightarrow> (\<exists>events calls.
     decode_all (dc_decode dec) (times_of chain from to s) (range_of chain from to s) = Ok events
     \<and> (if dc_has_calls dec then decode_all (dc_decode_call dec) (times_of chain from to s)
          (concat (map (\<lambda>c. calldata_of chain c s)
             (chunks CALLDATA_CHUNK (hi_ids hi (remdups (map rr_tx_id (range_of chain from to s))))))) = Ok calls
        else calls = [])
     \<and> rows = events @ calls)"

abbreviation table_groups :: "hash_iter \<Rightarrow> event_row list \<Rightarrow> (string \<times> event_row list) list" where
  "table_groups hi rows \<equiv> hi_tables hi (group_by (\<lambda>row. de_table (er_event row)) rows)"

lemma stored_of_faults: "range_of chain from to (s\<lparr>faults := fs\<rparr>) = range_of chain from to s"
  "times_of chain from to (s\<lparr>faults := fs\<rparr>) = times_of chain from to s"
  "calldata_of chain ids (s\<lparr>faults := fs\<rparr>) = calldata_of chain ids s"
  by (simp_all add: range_of_def times_of_def calldata_of_def)

lemma tables_put_faults: "tables_put g (s\<lparr>faults := fs\<rparr>) = (tables_put g s)\<lparr>faults := fs\<rparr>"
  unfolding tables_put_def by (induction g arbitrary: s) (auto simp: event_put_faults)

lemma decode_range_Ok:
  assumes "decode_range hi dec chain from to s = (Ok n, s')"
  shows "\<exists>rows fs. decoded hi dec chain from to s rows \<and> s' = (tables_put (table_groups hi rows) s)\<lparr>faults := fs\<rparr>
     \<and> (\<forall>(t, trows) \<in> set (table_groups hi rows). trows \<noteq> [] \<longrightarrow> t \<in> dom (tables s))"
proof -
  obtain raw tms s1 s2 s3 events calls where
    1: "raw_range chain from to s = (Ok raw, s1)" and 2: "block_times chain from to s1 = (Ok tms, s2)"
    and 3: "decode_all (dc_decode dec) tms raw = Ok events"
    and 4: "(if dc_has_calls dec then bind (block_calldata chain (hi_ids hi (remdups (map rr_tx_id raw))))
                  (\<lambda>txs. lift (decode_all (dc_decode_call dec) tms txs)) else ret []) s2 = (Ok calls, s3)"
    and 5: "write_tables (table_groups hi (events @ calls)) s3 = (Ok n, s')"
    using assms unfolding decode_range_def by (auto elim!: bind_OkE dest!: lift_OkD)
  have s1: "raw = range_of chain from to s" "s1 = s\<lparr>faults := tl (faults s)\<rparr>" using raw_range_OkD[OF 1] by auto
  have s2: "tms = times_of chain from to s" "s2 = s\<lparr>faults := tl (tl (faults s))\<rparr>"
    using block_times_OkD[OF 2] by (auto simp: s1 stored_of_faults)
  have "(\<exists>fs. s3 = s2\<lparr>faults := fs\<rparr>) \<and> (if dc_has_calls dec then decode_all (dc_decode_call dec) tms
          (concat (map (\<lambda>c. calldata_of chain c s2) (chunks CALLDATA_CHUNK (hi_ids hi (remdups (map rr_tx_id raw)))))) = Ok calls
        else calls = [])"
  proof (cases "dc_has_calls dec")
    case True
    with 4 show ?thesis by (auto elim!: bind_OkE dest!: lift_OkD block_calldata_OkD)
  next
    case False
    with 4 show ?thesis by (cases s2) (auto simp: ret_def)
  qed
  then obtain f3 where s3: "s3 = s\<lparr>faults := f3\<rparr>" and c: "if dc_has_calls dec then decode_all (dc_decode_call dec) tms
          (concat (map (\<lambda>c. calldata_of chain c s) (chunks CALLDATA_CHUNK (hi_ids hi (remdups (map rr_tx_id raw)))))) = Ok calls
        else calls = []"
  proof -
    have cd: "calldata_of chain c s2 = calldata_of chain c s" for c by (simp add: s2 stored_of_faults)
    assume "\<And>f3. s3 = s\<lparr>faults := f3\<rparr> \<Longrightarrow> (if dc_has_calls dec then decode_all (dc_decode_call dec) tms
          (concat (map (\<lambda>c. calldata_of chain c s) (chunks CALLDATA_CHUNK (hi_ids hi (remdups (map rr_tx_id raw)))))) = Ok calls
        else calls = []) \<Longrightarrow> thesis"
    then show thesis using \<open>(\<exists>fs. s3 = s2\<lparr>faults := fs\<rparr>) \<and> _\<close> unfolding cd by (auto simp: s2)
  qed
  have "decoded hi dec chain from to s (events @ calls)"
    unfolding decoded_def using 3 c by (auto simp: s1 s2)
  with write_tables_Ok[OF 5] show ?thesis by (auto simp: s3 tables_put_faults)
qed

lemma decoded_unique: "decoded hi dec chain from to s rows \<Longrightarrow> decoded hi dec chain from to s rows' \<Longrightarrow> rows = rows'"
  by (auto simp: decoded_def split: if_splits)

lemma decoded_rows:
  assumes "decoded hi dec chain from to s rows"
  shows "\<exists>events calls. rows = events @ calls
    \<and> set events = {stamp (times_of chain from to s) row | x row. x \<in> set (range_of chain from to s) \<and> dc_decode dec x = Ok (Some row)}
    \<and> (\<forall>c \<in> set calls. \<exists>tx row. c = stamp (times_of chain from to s) row \<and> dc_decode_call dec tx = Ok (Some row))"
proof -
  from assms obtain events calls txs where
    e: "decode_all (dc_decode dec) (times_of chain from to s) (range_of chain from to s) = Ok events"
    and c: "decode_all (dc_decode_call dec) (times_of chain from to s) txs = Ok calls \<or> calls = []"
    and r: "rows = events @ calls"
    unfolding decoded_def by (metis (no_types, lifting))
  have "\<forall>c \<in> set calls. \<exists>tx row. c = stamp (times_of chain from to s) row \<and> dc_decode_call dec tx = Ok (Some row)"
    using c decode_all_Ok[of "dc_decode_call dec" "times_of chain from to s" txs calls] by auto
  with r decode_all_Ok[OF e] show ?thesis by blast
qed

lemma decoded_origin:
  assumes "decoded hi dec chain from to s rows" and r: "r \<in> set rows"
  shows "\<exists>row. stamp (times_of chain from to s) row = r \<and> ((\<exists>rec \<in> set (range_of chain from to s). dc_decode dec rec = Ok (Some row))
                \<or> (\<exists>tx. dc_decode_call dec tx = Ok (Some row)))"
proof -
  obtain events calls where "rows = events @ calls"
    and e: "set events = {stamp (times_of chain from to s) row | x row. x \<in> set (range_of chain from to s) \<and> dc_decode dec x = Ok (Some row)}"
    and c: "\<forall>c \<in> set calls. \<exists>tx row. c = stamp (times_of chain from to s) row \<and> dc_decode_call dec tx = Ok (Some row)"
    using decoded_rows[OF assms(1)] by (elim exE conjE) (rule that)
  with r consider "r \<in> set events" | "r \<in> set calls" by auto
  then show ?thesis
  proof cases
    case 1
    then show ?thesis unfolding e by blast
  next
    case 2
    with c obtain tx row where "r = stamp (times_of chain from to s) row" "dc_decode_call dec tx = Ok (Some row)"
      by meson
    then show ?thesis by (intro exI[of _ row]) auto
  qed
qed

lemma table_groups_distinct: "permutes hi \<Longrightarrow> distinct (map fst (table_groups hi rows))"
proof -
  assume "permutes hi"
  then have "mset (map fst (table_groups hi rows)) = mset (map fst (group_by (\<lambda>row. de_table (er_event row)) rows))"
    by (simp add: permutes_def mset_map)
  then show ?thesis using group_by_distinct mset_eq_imp_distinct_iff by blast
qed

lemma table_groups_set: "permutes hi \<Longrightarrow> set (table_groups hi rows) = set (group_by (\<lambda>row. de_table (er_event row)) rows)"
  unfolding permutes_def by (metis set_mset_mset)

lemma table_groups_mem:
  "permutes hi \<Longrightarrow> (t, trows) \<in> set (table_groups hi rows) \<longleftrightarrow>
     t \<in> (\<lambda>row. de_table (er_event row)) ` set rows \<and> trows = filter (\<lambda>row. de_table (er_event row) = t) rows"
proof -
  assume hi: "permutes hi"
  have "(t, trows) \<in> set (group_by (\<lambda>row. de_table (er_event row)) rows) \<longleftrightarrow>
      map_of (group_by (\<lambda>row. de_table (er_event row)) rows) t = Some trows"
    using map_of_is_SomeI map_of_SomeD by (metis group_by_distinct)
  then show ?thesis unfolding table_groups_set[OF hi] map_of_group_by by auto
qed

lemma tables_put_table:
  assumes "permutes hi"
  shows "tables (tables_put (table_groups hi rows) s) t =
     (if t \<in> (\<lambda>row. de_table (er_event row)) ` set rows
      then tables (event_put t (by_signature (filter (\<lambda>row. de_table (er_event row) = t) rows)) s) t else tables s t)"
proof (cases "t \<in> (\<lambda>row. de_table (er_event row)) ` set rows")
  case True
  then have "(t, filter (\<lambda>row. de_table (er_event row) = t) rows) \<in> set (table_groups hi rows)"
    using table_groups_mem[OF assms] by blast
  from fold_event_put_table[OF table_groups_distinct[OF assms] this] True show ?thesis by (simp add: tables_put_def)
next
  case False
  then have "t \<notin> fst ` set (table_groups hi rows)" using table_groups_mem[OF assms] by fastforce
  with False show ?thesis by (simp add: tables_put_def fold_event_put_other del: image_iff)
qed

lemma event_put_idem: "event_put t rows (event_put t rows s) = event_put t rows s"
proof (cases "tables s t")
  case (Some u)
  let ?new = "map (typed_row_of (table_has_idx t)) rows"
  have "insert_nothing (typed_key u) ?new (snd (insert_nothing (typed_key u) ?new (tb_rows u)))
      = (0, snd (insert_nothing (typed_key u) ?new (tb_rows u)))"
    by (rule insert_nothing_present) (simp add: insert_nothing_snd_keys)
  with Some show ?thesis by (simp add: event_put_def)
qed (simp add: event_put_def)

lemma event_put_cong: "tables s t = tables s' t \<Longrightarrow> tables (event_put t rows s) t = tables (event_put t rows s') t"
  by (simp add: event_put_def split: option.splits)

lemma tables_put_eq: "tables_put g s = s\<lparr>tables := tables (tables_put g s)\<rparr>"
  unfolding tables_put_def
proof (induction g arbitrary: s)
  case (Cons a g)
  obtain t rows where a: "a = (t, rows)" by (cases a)
  obtain T where x: "event_put t (by_signature rows) s = s\<lparr>tables := T\<rparr>"
  proof -
    have "event_put t (by_signature rows) s = s\<lparr>tables := tables (event_put t (by_signature rows) s)\<rparr>"
      by (simp add: event_put_def split: option.splits)
    with that show thesis by blast
  qed
  show ?case unfolding a fold_simps prod.case x by (rule trans[OF Cons.IH]) simp
qed simp

lemma tables_put_idem:
  assumes "permutes hi"
  shows "tables_put (table_groups hi rows) (tables_put (table_groups hi rows) s) = tables_put (table_groups hi rows) s"
proof -
  let ?g = "table_groups hi rows"
  have "tables (tables_put ?g (tables_put ?g s)) = tables (tables_put ?g s)"
  proof
    fix t
    show "tables (tables_put ?g (tables_put ?g s)) t = tables (tables_put ?g s) t"
    proof (cases "t \<in> (\<lambda>row. de_table (er_event row)) ` set rows")
      case True
      let ?p = "by_signature (filter (\<lambda>row. de_table (er_event row) = t) rows)"
      have one: "tables (tables_put ?g u) t = tables (event_put t ?p u) t" for u
        using tables_put_table[OF assms, of rows u t] True by simp
      have "tables (tables_put ?g (tables_put ?g s)) t = tables (event_put t ?p (event_put t ?p s)) t"
        unfolding one by (rule event_put_cong) (rule one)
      then show ?thesis unfolding event_put_idem one .
    next
      case False
      then show ?thesis using tables_put_table[OF assms] by (metis (full_types))
    qed
  qed
  then show ?thesis using tables_put_eq[of ?g "tables_put ?g s"] by simp
qed

text \<open>The decoder does not write the table the calldata is read from.\<close>

definition leaves_transactions :: "decoder \<Rightarrow> bool" where
  "leaves_transactions dec \<longleftrightarrow>
     (\<forall>rec row. dc_decode dec rec = Ok (Some row) \<longrightarrow> de_table (er_event row) \<noteq> ''transactions'')
   \<and> (\<forall>tx row. dc_decode_call dec tx = Ok (Some row) \<longrightarrow> de_table (er_event row) \<noteq> ''transactions'')"

lemma decoded_no_transactions:
  assumes "decoded hi dec chain from to s rows" and "leaves_transactions dec"
  shows "''transactions'' \<notin> (\<lambda>row. de_table (er_event row)) ` set rows"
proof -
  have "de_table (er_event r) \<noteq> ''transactions''" if rr: "r \<in> set rows" for r
  proof -
    obtain row where row: "stamp (times_of chain from to s) row = r"
      "(\<exists>rec \<in> set (range_of chain from to s). dc_decode dec rec = Ok (Some row)) \<or> (\<exists>tx. dc_decode_call dec tx = Ok (Some row))"
      using decoded_origin[OF assms(1) rr] by (elim exE conjE)
    from row(2) assms(2) have "de_table (er_event row) \<noteq> ''transactions''" unfolding leaves_transactions_def by blast
    then show ?thesis unfolding row(1)[symmetric] by (simp add: stamp_def)
  qed
  then show ?thesis by force
qed

lemma decoded_cong:
  assumes "raw_records s = raw_records s'" and "blocks s = blocks s'"
    and "tables s ''transactions'' = tables s' ''transactions''"
  shows "decoded hi dec chain from to s rows = decoded hi dec chain from to s' rows"
  by (simp add: decoded_def range_of_def times_of_def calldata_of_def assms)

text \<open>Decoding writes through \<open>event_insert_stmt\<close> alone: what that statement keeps, decoding keeps.\<close>

lemma keeps_decode:
  assumes inv: "db_invariant P" and ins: "\<And>table part. keeps P (event_insert_stmt table part)"
  shows "keeps P (decode_range hi dec chain from to)"
proof -
  let ?P = P
  have "keeps ?P (event_upsert_batch_tx table rows)" for table rows
    unfolding event_upsert_batch_tx_def
    by (intro keeps_bind keeps_for_each) (auto intro!: keeps_for_each keeps_bind ins)
  then have "keeps ?P (event_upsert_batch table rows)" for table rows
    unfolding event_upsert_batch_def by (intro keeps_bind keeps_db_result keeps_lift keeps_transaction inv)
  then have w: "keeps ?P (write_tables g)" for g
    unfolding write_tables_def by (intro keeps_for_each) (auto intro: keeps_bind)
  have c: "keeps ?P (block_calldata chain ids)" for ids
  proof -
    have "keeps ?P (calldata_stmt chain i)" for i
      unfolding calldata_stmt_def by (rule keeps_stmt[OF inv]) (auto split: option.splits)
    then show ?thesis
      unfolding block_calldata_def by (intro keeps_db_result keeps_for_each keeps_bind keeps_lift keeps_ret)
  qed
  have r: "keeps ?P (raw_range chain from to)" "keeps ?P (block_times chain from to)"
    unfolding raw_range_def block_times_def by (intro keeps_db_result keeps_select inv)+
  have "keeps ?P (if dc_has_calls dec then bind (block_calldata chain ids) (\<lambda>txs. lift (f txs)) else ret [])" for ids f
    using c by (auto intro: keeps_bind)
  then show ?thesis unfolding decode_range_def using r w by (intro keeps_bind keeps_lift)
qed

text \<open>The work queue is not touched by decoding, whatever it returns.\<close>

lemma keeps_queue_decode: "keeps (\<lambda>s. work_queue s = W) (decode_range hi dec chain from to)"
proof (rule keeps_decode)
  show inv: "db_invariant (\<lambda>s. work_queue s = W)" unfolding db_invariant_def by (metis stored_fields(4))
  show "keeps (\<lambda>s. work_queue s = W) (event_insert_stmt table part)" for table part
    unfolding event_insert_stmt_def
    by (rule keeps_stmt[OF inv]) (auto simp: Let_def split: option.splits prod.splits if_splits)
qed

lemma pulled_keys: "queue_key ` set (work_queue (pulled s)) = queue_key ` set (work_queue s)"
proof (cases "ready_row s")
  case (Some q)
  have "work_queue (pulled s) = map (\<lambda>x. if wq_id x = wq_id q then leased (clock s) x else x) (work_queue s)"
    by (simp add: pulled_def Some)
  then show ?thesis by (simp only:) (rule image_key_map, simp)
qed (simp add: pulled_def)

lemma ack_pulled:
  assumes "ready_row s = Some q" and d: "distinct (map wq_id (work_queue s))"
  shows "filter (\<lambda>x. \<not> (wq_id x = wq_id q \<and> wq_lease_seq x = wq_lease_seq q + 1)) (work_queue (pulled s))
     = filter (\<lambda>x. wq_id x \<noteq> wq_id q) (work_queue s)"
proof -
  let ?f = "\<lambda>x. if wq_id x = wq_id q then leased (clock s) x else x"
  have q: "q \<in> set (work_queue s)" using ready_rowD[OF assms(1)] by blast
  have "filter (\<lambda>x. \<not> (wq_id x = wq_id q \<and> wq_lease_seq x = wq_lease_seq q + 1)) (map ?f rows)
     = filter (\<lambda>x. wq_id x \<noteq> wq_id q) rows" if "set rows \<subseteq> set (work_queue s)" for rows
    using that
  proof (induction rows)
    case (Cons x rows)
    have "x = q" if "wq_id x = wq_id q"
      using d q Cons.prems that by (auto simp: distinct_map inj_on_def)
    with Cons show ?case by auto
  qed simp
  then show ?thesis by (simp add: pulled_def assms(1))
qed

text \<open>The highest stored block of a chain and the hash stored at a height.\<close>

definition stored_tip :: "chain_id \<Rightarrow> db \<Rightarrow> height option" where
  "stored_tip chain s = (case map bl_height (filter (\<lambda>r. bl_chain_id r = as_i64 chain) (blocks s)) of
        [] \<Rightarrow> None | h # hs \<Rightarrow> Some (as_u64 (fold max hs h)))"

definition stored_block :: "chain_id \<Rightarrow> height \<Rightarrow> db \<Rightarrow> block_meta option" where
  "stored_block chain height s = map_option (\<lambda>r. \<lparr>bm_chain_id = chain, bm_height = height, bm_hash = bl_hash r,
         bm_parent_hash = bl_parent_hash r, bm_time = bl_time r\<rparr>)
       (find (\<lambda>r. bl_chain_id r = as_i64 chain \<and> bl_height r = as_i64 height) (blocks s))"

definition stored_hash :: "chain_id \<Rightarrow> height \<Rightarrow> db \<Rightarrow> hash option" where
  "stored_hash chain height s = map_option bl_hash
     (find (\<lambda>r. bl_chain_id r = as_i64 chain \<and> bl_height r = as_i64 height) (blocks s))"

lemma db_select_cases:
  assumes "db_result (select_stmt f) s = (r, s')" and "\<And>s fs. f (s\<lparr>faults := fs\<rparr>) = f s"
  obtains "r = Ok (f s)" "s' = s\<lparr>faults := tl (faults s)\<rparr>"
  | e where "r = Err e" "s' = s\<lparr>faults := tl (faults s)\<rparr>"
  by (rule db_result_stmt_cases[OF assms(1)[unfolded select_stmt_def]]) (use that assms(2) in auto)

lemma block_max_height_cases:
  assumes "block_max_height chain s = (r, s')"
  obtains "r = Ok (stored_tip chain s)" "s' = s\<lparr>faults := tl (faults s)\<rparr>"
  | e where "r = Err e" "s' = s\<lparr>faults := tl (faults s)\<rparr>"
  using assms unfolding block_max_height_def stored_tip_def[symmetric]
  by (rule db_select_cases) (auto simp: stored_tip_def intro: that)

lemma block_get_cases:
  assumes "block_get chain height s = (r, s')"
  obtains "r = Ok (stored_block chain height s)" "s' = s\<lparr>faults := tl (faults s)\<rparr>"
  | e where "r = Err e" "s' = s\<lparr>faults := tl (faults s)\<rparr>"
  using assms unfolding block_get_def stored_block_def[symmetric]
  by (rule db_select_cases) (auto simp: stored_block_def intro: that)

section \<open>Properties\<close>

text \<open>What a successful decoding wrote.\<close>

lemma decode_range_put:
  assumes "decode_range hi dec chain from to s = (Ok n, s')" and "permutes hi"
  obtains rows where "decoded hi dec chain from to s rows" "\<And>t. tables s' t = tables (tables_put (table_groups hi rows) s) t"
    "\<And>t v. tables s t = Some v \<Longrightarrow> t \<in> (\<lambda>row. de_table (er_event row)) ` set rows \<Longrightarrow>
       tables s' t = Some (v\<lparr>tb_rows := snd (insert_nothing (typed_key v) (map (typed_row_of (table_has_idx t))
        (by_signature (filter (\<lambda>row. de_table (er_event row) = t) rows))) (tb_rows v))\<rparr>)"
    "\<And>row. row \<in> set rows \<Longrightarrow> de_table (er_event row) \<in> dom (tables s)"
    "raw_records s' = raw_records s \<and> blocks s' = blocks s \<and> work_queue s' = work_queue s \<and> cursors s' = cursors s"
proof -
  obtain rows fs where d: "decoded hi dec chain from to s rows"
    and s': "s' = (tables_put (table_groups hi rows) s)\<lparr>faults := fs\<rparr>"
    and ex: "\<forall>(t, trows) \<in> set (table_groups hi rows). trows \<noteq> [] \<longrightarrow> t \<in> dom (tables s)"
    using decode_range_Ok[OF assms(1)] by blast
  have tab: "tables s' t = tables (tables_put (table_groups hi rows) s) t" for t by (simp add: s')
  have "de_table (er_event row) \<in> dom (tables s)" if "row \<in> set rows" for row
  proof -
    have "(de_table (er_event row), filter (\<lambda>r. de_table (er_event r) = de_table (er_event row)) rows) \<in> set (table_groups hi rows)"
      using table_groups_mem[OF assms(2)] that by blast
    with ex that show ?thesis by (fastforce simp: filter_empty_conv)
  qed
  then show thesis
    using d tab by (intro that[of rows]) (auto simp: s' tables_put_table[OF assms(2)] event_put_def simp del: image_iff)
qed

lemma decode_range_writes:
  assumes "decode_range hi dec chain from to s = (Ok n, s')" and "permutes hi"
    and rec: "rec \<in> set (range_of chain from to s)" "dc_decode dec rec = Ok (Some row)"
  shows "\<exists>t. tables s' (de_table (er_event row)) = Some t
     \<and> typed_key t (typed_row_of (table_has_idx (de_table (er_event row))) (stamp (times_of chain from to s) row))
         \<in> typed_key t ` set (tb_rows t)"
proof -
  let ?tms = "times_of chain from to s"
  obtain rows where d: "decoded hi dec chain from to s rows"
    and put: "\<And>t v. tables s t = Some v \<Longrightarrow> t \<in> (\<lambda>row. de_table (er_event row)) ` set rows \<Longrightarrow>
       tables s' t = Some (v\<lparr>tb_rows := snd (insert_nothing (typed_key v) (map (typed_row_of (table_has_idx t))
        (by_signature (filter (\<lambda>row. de_table (er_event row) = t) rows))) (tb_rows v))\<rparr>)"
    and ex: "\<And>row. row \<in> set rows \<Longrightarrow> de_table (er_event row) \<in> dom (tables s)"
    by (rule decode_range_put[OF assms(1,2)]) (rule that; assumption)
  obtain events calls where ec: "rows = events @ calls"
    "set events = {stamp ?tms row | x row. x \<in> set (range_of chain from to s) \<and> dc_decode dec x = Ok (Some row)}"
    using decoded_rows[OF d] by (elim exE conjE) (rule that)
  have "stamp ?tms row \<in> set events" unfolding ec(2) using rec by blast
  then have st: "stamp ?tms row \<in> set rows" by (simp add: ec(1))
  have tb: "de_table (er_event (stamp ?tms row)) = de_table (er_event row)" by (simp add: stamp_def)
  note st = st tb
  then have T: "de_table (er_event row) \<in> (\<lambda>row. de_table (er_event row)) ` set rows"
    by (intro image_eqI[of _ _ "stamp ?tms row"]) simp_all
  obtain v where "tables s (de_table (er_event row)) = Some v" using ex[OF st(1)] st(2) by auto
  from put[OF this T] st show ?thesis by (auto simp: insert_nothing_snd_keys)
qed


text \<open>A concrete database, decoder and iteration order.\<close>

definition demo_hash_iter :: hash_iter where
  "demo_hash_iter = \<lparr>hi_tables = (\<lambda>g. g), hi_ids = (\<lambda>h. h)\<rparr>"

definition demo_decoder :: decoder where
  "demo_decoder = \<lparr>dc_decode = (\<lambda>r. Ok (if rr_index r = 0 then Some \<lparr>er_chain_id = rr_chain_id r, er_height = rr_height r,
       er_block_hash = rr_block_hash r, er_block_time = None, er_tx_id = rr_tx_id r, er_index = rr_index r,
       er_event = \<lparr>de_table = ''t'', de_fields = []\<rparr>\<rparr> else None)),
     dc_decode_call = (\<lambda>_. Ok None), dc_has_calls = False\<rparr>"

definition demo_store :: db where
  "demo_store = (db_empty\<lparr>raw_records := map raw_row_of [demo_raw 9 0, demo_raw 7 3],
     blocks := [\<lparr>bl_chain_id = 1, bl_height = 9, bl_hash = [1], bl_parent_hash = [], bl_time = 1700\<rparr>],
     work_queue := [queue_row_of 3 (demo_item 1 5)],
     tables := [''t'' \<mapsto> \<lparr>tb_cols = [], tb_pk = [''chain_id'', ''height'', ''idx''], tb_tx_fk = False, tb_rows = []\<rparr>]\<rparr>)"

definition demo_row :: event_row where
  "demo_row = \<lparr>er_chain_id = 1, er_height = 9, er_block_hash = [], er_block_time = Some 1700,
     er_tx_id = rr_tx_id (demo_raw 9 0), er_index = 0, er_event = \<lparr>de_table = ''t'', de_fields = []\<rparr>\<rparr>"

lemma permutes_demo: "permutes demo_hash_iter"
  by (simp add: permutes_def demo_hash_iter_def)

lemma demo_fields [simp]:
  "faults demo_store = []" "tables demo_store ''t'' = Some \<lparr>tb_cols = [], tb_pk = [''chain_id'', ''height'', ''idx''], tb_tx_fk = False, tb_rows = []\<rparr>"
  "work_queue demo_store = [queue_row_of 3 (demo_item 1 5)]" "dc_has_calls demo_decoder = False"
  "hi_tables demo_hash_iter g = g" "de_table (er_event demo_row) = ''t''"
  by (simp_all add: demo_store_def db_empty_def demo_decoder_def demo_hash_iter_def demo_row_def)

lemma demo_range: "range_of 1 5 14 demo_store = [demo_raw 7 3, demo_raw 9 0]"
  by (simp add: range_of_def demo_store_def demo_raw_def db_empty_def raw_row_of_def as_i64_def in_range_def
      record_of_raw_row_def as_u64_def frame_selectors_def unframe_selectors.simps)

lemma demo_times: "times_of 1 5 14 demo_store = [(9, 1700)]"
  by (simp add: times_of_def demo_store_def as_i64_def in_range_def as_u64_def)

lemma demo_decode_raw: "decode_all (dc_decode demo_decoder) [(9, 1700)] [demo_raw 7 3, demo_raw 9 0] = Ok [demo_row]"
  by (simp add: demo_decoder_def demo_raw_def demo_row_def stamp_def)

lemma demo_upsert:
  assumes f: "faults s = []" and t: "tables s ''t'' = Some t" and fk: "\<not> tb_tx_fk t"
  shows "\<exists>n rows. event_upsert_batch ''t'' [demo_row] s = (Ok n, s\<lparr>tables := (tables s)(''t'' \<mapsto> t\<lparr>tb_rows := rows\<rparr>)\<rparr>)"
proof -
  obtain n rows where i: "insert_nothing (typed_key t) [typed_row_of True demo_row] (tb_rows t) = (n, rows)" by fastforce
  have idx: "table_has_idx ''t''" by (simp add: table_has_idx_def RECEIPTS_TABLE_def)
  have id: "safe_ident ''t'' = Ok ''t''" by (simp add: safe_ident_def is_valid_ident_def is_ascii_lowercase_def is_ascii_digit_def char_code_def)
  have g: "group_by column_signature [demo_row] = [([], [demo_row])]"
    by (simp add: group_by_def column_signature_def demo_row_def)
  have c: "columns_ok t [typed_row_of True demo_row]"
    by (simp add: columns_ok_def typed_row_of_def demo_row_def meta_columns_def)
  have ch: "chunks (chunk_rows 6) [demo_row] = [[demo_row]]"
    by (simp add: chunks.simps chunk_rows_def)
  have ins: "event_insert_stmt ''t'' [demo_row] s = (Ok n, s\<lparr>tables := (tables s)(''t'' \<mapsto> t\<lparr>tb_rows := rows\<rparr>)\<rparr>)"
    using f t fk c i idx by (simp add: event_insert_stmt_def stmt_no_faults del: insert_nothing.simps(2))
  have "event_upsert_batch_tx ''t'' [demo_row] s = (Ok (u64_add 0 n), s\<lparr>tables := (tables s)(''t'' \<mapsto> t\<lparr>tb_rows := rows\<rparr>)\<rparr>)"
    by (simp add: event_upsert_batch_tx_def bind_def lift_def id g idx ch ins ret_def del: insert_nothing.simps(2))
  then have "transaction (event_upsert_batch_tx ''t'' [demo_row]) s
      = (Ok (u64_add 0 n), s\<lparr>tables := (tables s)(''t'' \<mapsto> t\<lparr>tb_rows := rows\<rparr>)\<rparr>)"
    using f by (intro transaction_no_faults) simp_all
  then show ?thesis
    by (auto simp: event_upsert_batch_def bind_def db_result_def lift_def id)
qed

lemma demo_decodes:
  assumes "faults s = []" and t: "tables s ''t'' = Some t" "\<not> tb_tx_fk t"
    and "raw_records s = raw_records demo_store" "blocks s = blocks demo_store"
  shows "\<exists>n rows. decode_range demo_hash_iter demo_decoder 1 5 14 s = (Ok n, s\<lparr>tables := (tables s)(''t'' \<mapsto> t\<lparr>tb_rows := rows\<rparr>)\<rparr>)"
proof -
  have r: "raw_range 1 5 14 s = (Ok [demo_raw 7 3, demo_raw 9 0], s)"
    using assms raw_range_of[of s 1 5 14] demo_range by (simp add: range_of_def)
  have "times_of 1 5 14 s = times_of 1 5 14 demo_store" by (simp add: times_of_def assms)
  then have b: "block_times 1 5 14 s = (Ok [(9, 1700)], s)"
    using assms demo_times by (simp add: block_times_def db_result_def select_no_faults times_of_def)
  obtain n rows where "event_upsert_batch ''t'' [demo_row] s = (Ok n, s\<lparr>tables := (tables s)(''t'' \<mapsto> t\<lparr>tb_rows := rows\<rparr>)\<rparr>)"
    using demo_upsert[OF assms(1-3)] by blast
  then have "write_tables (table_groups demo_hash_iter [demo_row]) s =
      (Ok (u64_add 0 n), s\<lparr>tables := (tables s)(''t'' \<mapsto> t\<lparr>tb_rows := rows\<rparr>)\<rparr>)"
    by (simp add: write_tables_def group_by_def bind_def ret_def)
  then show ?thesis
    unfolding decode_range_def bind_def r by (auto simp: b lift_def demo_decode_raw ret_def simp del: One_nat_def decode_all.simps)
qed


text \<open>
  C21. Decoding is idempotent, so a retried or redelivered work item is harmless: if decoding a
  range succeeded once, decoding it again from the resulting database leaves every table
  exactly as it is.
\<close>

theorem decode_range_idempotent:
  assumes "decode_range hi dec chain from to s = (Ok n, s1)"
    and "decode_range hi dec chain from to s1 = (Ok m, s2)"
    and "permutes hi" and "leaves_transactions dec"
  shows "stored s2 = stored s1"
proof -
  obtain rows fs where d: "decoded hi dec chain from to s rows"
    and s1: "s1 = (tables_put (table_groups hi rows) s)\<lparr>faults := fs\<rparr>"
    using decode_range_Ok[OF assms(1)] by blast
  obtain rows' gs where d': "decoded hi dec chain from to s1 rows'"
    and s2: "s2 = (tables_put (table_groups hi rows') s1)\<lparr>faults := gs\<rparr>"
    using decode_range_Ok[OF assms(2)] by blast
  have "tables s1 ''transactions'' = tables s ''transactions''"
    using tables_put_table[OF assms(3), of rows s "''transactions''"] decoded_no_transactions[OF d assms(4)]
    by (simp add: s1 del: image_iff)
  then have "decoded hi dec chain from to s1 rows" using d decoded_cong[of s1 s] by (simp add: s1)
  with d' have "rows' = rows" by (rule decoded_unique)
  then have "s2 = (tables_put (table_groups hi rows) s)\<lparr>faults := gs\<rparr>"
    using tables_put_idem[OF assms(3), of rows s] by (simp add: s2 s1 tables_put_faults)
  then show ?thesis by (simp add: s1)
qed

theorem decode_range_idempotent_witness:
  "\<exists>n m s1 s2. decode_range demo_hash_iter demo_decoder 1 5 14 demo_store = (Ok n, s1)
     \<and> decode_range demo_hash_iter demo_decoder 1 5 14 s1 = (Ok m, s2) \<and> stored s2 = stored s1"
proof -
  have "\<exists>n rows. decode_range demo_hash_iter demo_decoder 1 5 14 demo_store = (Ok n, demo_store\<lparr>tables := (tables demo_store)
      (''t'' \<mapsto> \<lparr>tb_cols = [], tb_pk = [''chain_id'', ''height'', ''idx''], tb_tx_fk = False, tb_rows = rows\<rparr>)\<rparr>)"
    using demo_decodes[of demo_store] by auto
  then obtain n rows s1 where 1: "decode_range demo_hash_iter demo_decoder 1 5 14 demo_store = (Ok n, s1)"
    and s1: "s1 = demo_store\<lparr>tables := (tables demo_store)
      (''t'' \<mapsto> \<lparr>tb_cols = [], tb_pk = [''chain_id'', ''height'', ''idx''], tb_tx_fk = False, tb_rows = rows\<rparr>)\<rparr>" by blast
  obtain m s2 where 2: "decode_range demo_hash_iter demo_decoder 1 5 14 s1 = (Ok m, s2)"
    using demo_decodes[of s1] by (auto simp: s1)
  have "leaves_transactions demo_decoder"
    by (auto simp: leaves_transactions_def demo_decoder_def)
  with decode_range_idempotent[OF 1 2 permutes_demo] 1 2 show ?thesis by blast
qed

text \<open>What a worker does with a leased item, and the outcome of decoding and acknowledging it.\<close>

definition decode_leased :: "hash_iter \<Rightarrow> (chain_id \<Rightarrow> decoder option) \<Rightarrow> work_item \<Rightarrow> (db, domain_error, nat) m" where
  "decode_leased hi decoders l = (case decoders (wi_chain_id l) of
     Some dec \<Rightarrow> decode_range hi dec (wi_chain_id l) (wi_from l) (wi_to l) | None \<Rightarrow> ret 0)"

lemma leased_item_outcome:
  assumes q: "ready_row s = Some q" and dist: "distinct (map wq_id (work_queue s))"
    and run: "bind (decode_leased hi decoders l) (\<lambda>written. bind (ack (wq_id q) (wq_lease_seq q + 1)) (\<lambda>_. ret (Some written)))
        ((pulled s)\<lparr>faults := fs\<rparr>) = (r, s')"
  shows "case r of
      Ok None \<Rightarrow> False
    | Ok (Some n) \<Rightarrow> (\<exists>d0 d1. stored d0 = stored (pulled s) \<and> decode_leased hi decoders l d0 = (Ok n, d1))
        \<and> work_queue s' = filter (\<lambda>x. wq_id x \<noteq> wq_id q) (work_queue s)
    | _ \<Rightarrow> queue_key ` set (work_queue s') = queue_key ` set (work_queue s)"
proof -
  let ?s0 = "(pulled s)\<lparr>faults := fs\<rparr>"
  obtain r1 s1 where w: "decode_leased hi decoders l ?s0 = (r1, s1)" by fastforce
  have "keeps (\<lambda>t. work_queue t = work_queue ?s0) (decode_leased hi decoders l)"
    unfolding decode_leased_def using keeps_queue_decode by (auto split: option.split)
  from keepsD[OF this _ w] have wq: "work_queue s1 = work_queue (pulled s)" by simp
  show ?thesis
  proof (cases r1)
    case (Ok n)
    obtain r2 s2 where a: "ack (wq_id q) (wq_lease_seq q + 1) s1 = (r2, s2)" by fastforce
    show ?thesis
    proof (cases rule: ack_cases[OF a])
      case 1
      have rs: "r = Ok (Some n)" "s' = s2" using run w Ok a 1 by (auto simp: bind_def ret_def)
      have "work_queue s' = filter (\<lambda>x. wq_id x \<noteq> wq_id q) (work_queue s)"
        using ack_pulled[OF q dist] by (simp add: rs 1 wq)
      moreover have "\<exists>d0 d1. stored d0 = stored (pulled s) \<and> decode_leased hi decoders l d0 = (Ok n, d1)"
        using w Ok by (intro exI[of _ ?s0] exI[of _ s1]) simp
      ultimately show ?thesis unfolding rs by simp
    next
      case (2 e)
      then have "r = Err e" "work_queue s' = work_queue (pulled s)" using run w Ok a wq by (auto simp: bind_def)
      then show ?thesis using pulled_keys by simp
    qed
  qed (use run w wq pulled_keys in \<open>auto simp: bind_def\<close>)
qed



text \<open>The outcomes of the check: a rollback, or no change.\<close>

lemma reorg_check_outcome:
  assumes "reorg_check cs tbls conf (c, d) = (r, (c', d'))"
  shows "(\<exists>tip h canon fs d1. supports_reorg (cs_caps cs) \<and> stored_tip (cs_chain_id cs) d = Some tip \<and> stored_hash (cs_chain_id cs) tip d = Some h
        \<and> cs_block_hash cs tip c = (Ok (Some canon), c') \<and> canon \<noteq> h \<and> r = Ok (Some (u64_add (tip - conf) 1)) \<and> stored d1 = stored d
        \<and> d' = (rollback_effect (cs_chain_id cs) (u64_add (tip - conf) 1) tbls d1)\<lparr>faults := fs\<rparr>)
     \<or> stored d' = stored d \<and> (\<forall>from. r \<noteq> Ok (Some from))
        \<and> (r = Ok None \<longrightarrow> supports_reorg (cs_caps cs) \<longrightarrow> (\<forall>tip h canon c1. stored_tip (cs_chain_id cs) d = Some tip
             \<longrightarrow> stored_hash (cs_chain_id cs) tip d = Some h \<longrightarrow> cs_block_hash cs tip c = (Ok (Some canon), c1) \<longrightarrow> canon = h))"
proof -
  let ?ch = "cs_chain_id cs"
  obtain r1 d1 where m: "block_max_height ?ch d = (r1, d1)" by fastforce
  have s1: "stored d1 = stored d \<and> (is_ok r1 \<longrightarrow> r1 = Ok (stored_tip ?ch d)) \<and> blocks d1 = blocks d"
    by (rule block_max_height_cases[OF m]) simp_all
  show ?thesis
  proof (cases "supports_reorg (cs_caps cs) \<and> (\<exists>tip. r1 = Ok (Some tip))")
    case False
    with assms m s1 show ?thesis
      by (cases r1) (auto simp: reorg_check_def bind_def on_db_def ret_def split: if_splits option.splits)
  next
    case True
    then obtain tip where r1: "r1 = Ok (Some tip)" and sup: "supports_reorg (cs_caps cs)" by blast
    then have tip: "r1 = Ok (Some tip)" "stored_tip ?ch d = Some tip" using s1 by simp_all
    obtain r2 d2 where b: "block_get ?ch tip d1 = (r2, d2)" by fastforce
    have "stored_block ?ch tip d1 = stored_block ?ch tip d" using s1 by (simp add: stored_block_def)
    then have s2: "stored d2 = stored d \<and> (is_ok r2 \<longrightarrow> r2 = Ok (stored_block ?ch tip d))"
      by (cases rule: block_get_cases[OF b]) (use s1 in simp_all)
    have hash: "stored_hash ?ch tip d = map_option bm_hash (stored_block ?ch tip d)"
      by (simp add: stored_hash_def stored_block_def option.map_comp comp_def)
    obtain r3 c3 where h: "cs_block_hash cs tip c = (r3, c3)" by fastforce
    let ?from = "u64_add (tip - conf) 1"
    obtain r4 d4 where k: "rollback_to ?ch ?from tbls d2 = (r4, d4)" by fastforce
    have "(r4 = Ok () \<and> (\<exists>fs. d4 = (rollback_effect ?ch ?from tbls d2)\<lparr>faults := fs\<rparr>)) \<or> stored d4 = stored d \<and> \<not> is_ok r4"
      by (rule rollback_to_cases[OF k]) (auto simp: s2)
    moreover have "reorg_check cs tbls conf (c, d) = (case r2 of
         Ok (Some block) \<Rightarrow> (case r3 of
            Ok (Some canon) \<Rightarrow> if canon = bm_hash block then (Ok None, (c3, d2))
               else (map_ok (\<lambda>_. Some ?from) r4, (c3, d4))
          | Ok None \<Rightarrow> (Ok None, (c3, d2)) | Err e \<Rightarrow> (Err e, (c3, d2)) | Panic \<Rightarrow> (Panic, (c3, d2)))
       | Ok None \<Rightarrow> (Ok None, (c, d2)) | Err e \<Rightarrow> (Err e, (c, d2)) | Panic \<Rightarrow> (Panic, (c, d2)))"
      using sup tip(1) m b h k
      by (auto simp: reorg_check_def bind_def on_db_def on_src_def ret_def Let_def split: res.splits option.splits)
    ultimately show ?thesis using assms s2 tip(2) hash h sup
      by (cases r4) (auto split: res.splits option.splits if_splits)
  qed
qed

text \<open>
  C19. The reorganisation check. It reports a rollback exactly when the source supports
  reorganisations and the stored hash of the chain's highest stored block differs from the
  canonical hash the source gives for that height; it then has removed from
  \<open>confirmations\<close> below that tip, upwards, every raw record and block of the chain, and
  kept the ones below and of other chains. In every other outcome, errors included, the
  stored data is unchanged.
\<close>

theorem reorg_check_rolls_back:
  assumes "reorg_check cs tbls confirmations w = (r, w')"
  shows "case r of
      Ok (Some from) \<Rightarrow> supports_reorg (cs_caps cs) \<and> (\<exists>tip h canon c.
          stored_tip (cs_chain_id cs) (snd w) = Some tip \<and> stored_hash (cs_chain_id cs) tip (snd w) = Some h
        \<and> cs_block_hash cs tip (fst w) = (Ok (Some canon), c) \<and> canon \<noteq> h
        \<and> from = u64_add (tip - confirmations) 1
        \<and> set (raw_records (snd w')) = {q \<in> set (raw_records (snd w)).
             \<not> (rw_chain_id q = as_i64 (cs_chain_id cs) \<and> as_i64 from \<le> rw_height q)}
        \<and> set (blocks (snd w')) = {q \<in> set (blocks (snd w)).
             \<not> (bl_chain_id q = as_i64 (cs_chain_id cs) \<and> as_i64 from \<le> bl_height q)})
    | Ok None \<Rightarrow> stored (snd w') = stored (snd w)
        \<and> (supports_reorg (cs_caps cs) \<longrightarrow> (\<forall>tip h canon c. stored_tip (cs_chain_id cs) (snd w) = Some tip
             \<longrightarrow> stored_hash (cs_chain_id cs) tip (snd w) = Some h
             \<longrightarrow> cs_block_hash cs tip (fst w) = (Ok (Some canon), c) \<longrightarrow> canon = h))
    | _ \<Rightarrow> stored (snd w') = stored (snd w)"
proof -
  obtain c d c' d' where w: "w = (c, d)" "w' = (c', d')" by fastforce
  from reorg_check_outcome[OF assms[unfolded w]] show ?thesis
  proof (elim disjE exE conjE)
    fix tip h canon fs d1 assume st: "stored d1 = stored d"
    note same = stored_fields(1)[OF st] stored_fields(3)[OF st]
    assume "supports_reorg (cs_caps cs)" "stored_tip (cs_chain_id cs) d = Some tip" "stored_hash (cs_chain_id cs) tip d = Some h"
      "cs_block_hash cs tip c = (Ok (Some canon), c')" "canon \<noteq> h" "r = Ok (Some (u64_add (tip - confirmations) 1))"
      "d' = (rollback_effect (cs_chain_id cs) (u64_add (tip - confirmations) 1) tbls d1)\<lparr>faults := fs\<rparr>"
    then show ?thesis using w same by (auto simp: rollback_effect_def)
  qed (use w in \<open>auto split: res.splits option.splits\<close>)
qed

definition demo_chain :: "unit chain_source" where
  "demo_chain = \<lparr>cs_chain_id = 1, cs_head = ret 20, cs_fetch_records = (\<lambda>_ _ _. ret []),
     cs_fetch_aux = (\<lambda>_. ret aux_data_default), cs_block_hash = (\<lambda>_. ret (Some [2])),
     cs_subscribe = (\<lambda>_. throw (Source ''no ws url configured'')), cs_plan = plan_profile_default, cs_caps = chain_caps_default\<rparr>"

theorem reorg_check_rolls_back_witness:
  "\<exists>w'. reorg_check demo_chain [] 3 ((), demo_store) = (Ok (Some 7), w') \<and> raw_records (snd w') = [] \<and> blocks (snd w') = []"
proof -
  have b: "blocks demo_store = [\<lparr>bl_chain_id = 1, bl_height = 9, bl_hash = [1], bl_parent_hash = [], bl_time = 1700\<rparr>]"
    by (simp add: demo_store_def)
  have t: "block_max_height 1 demo_store = (Ok (Some 9), demo_store)"
    by (simp add: block_max_height_def db_result_def select_no_faults b as_i64_def as_u64_def)
  have "\<exists>bm. block_get 1 9 demo_store = (Ok (Some bm), demo_store) \<and> bm_hash bm = [1]"
    by (simp add: block_get_def db_result_def select_no_faults b as_i64_def)
  then obtain bm where g: "block_get 1 9 demo_store = (Ok (Some bm), demo_store)" "bm_hash bm = [1]" by blast
  obtain d where r: "rollback_to 1 7 [] demo_store = (Ok (), d)"
    by (rule runsE[OF runs_rollback[of 1 7], of demo_store]) auto
  have c: "reorg_check demo_chain [] 3 ((), demo_store) = (Ok (Some 7), ((), d))"
    using t g r by (simp add: reorg_check_def demo_chain_def chain_caps_default_def bind_def on_db_def on_src_def ret_def
        u64_add_def)
  have "cs_chain_id demo_chain = 1" by (simp add: demo_chain_def)
  then have s: "set (raw_records d) = {q \<in> set (raw_records demo_store). \<not> (rw_chain_id q = as_i64 1 \<and> as_i64 7 \<le> rw_height q)}"
    "set (blocks d) = {q \<in> set (blocks demo_store). \<not> (bl_chain_id q = as_i64 1 \<and> as_i64 7 \<le> bl_height q)}"
    using reorg_check_rolls_back[OF c] by (simp_all only: res.case option.case snd_conv) (elim conjE exE, assumption)+
  have q1: "\<forall>q \<in> set (raw_records demo_store). rw_chain_id q = as_i64 1 \<and> as_i64 7 \<le> rw_height q"
    by (simp add: demo_store_def raw_row_of_def demo_raw_def as_i64_def)
  have q2: "\<forall>q \<in> set (blocks demo_store). bl_chain_id q = as_i64 1 \<and> as_i64 7 \<le> bl_height q"
    by (simp add: b as_i64_def)
  have "set (raw_records d) = {}" unfolding s(1) using q1 by blast
  moreover have "set (blocks d) = {}" unfolding s(2) using q2 by blast
  ultimately show ?thesis using c by simp
qed


text \<open>A drive stored the range with block 30; the cursor is still at block 9.\<close>

definition gap_store :: db where
  "gap_store = db_empty\<lparr>blocks := [\<lparr>bl_chain_id = 1, bl_height = 30, bl_hash = [1], bl_parent_hash = [], bl_time = 1700\<rparr>],
     cursors := [\<lparr>cu_chain_id = 1, cu_last_height = 9, cu_last_hash = []\<rparr>]\<rparr>"


end
