(* ===== verification/Config_Model.thy ===== *)
theory Config_Model
  imports Shared_Util
begin

text \<open>
  \<open>crates/config\<close>: the typed configuration with its defaults, and the structural
  validation. Parsing TOML and the environment (\<open>figment\<close>) is the parameter
  \<open>extract\<close>.
\<close>

section \<open>Per-chain settings\<close>

record limits_cfg =
  lc_max_rps :: "nat option"
  lc_max_cu_per_sec :: "nat option"
  lc_max_batch :: "nat option"
  lc_max_getlogs_blocks :: "nat option"
  lc_max_getlogs_results :: "nat option"
  lc_monthly_quota_cu :: "nat option"

record source_cfg =
  sc_kind :: string
  sc_http :: string
  sc_ws :: "string option"
  sc_limits :: "limits_cfg option"

record contract_cfg =
  ct_address :: string
  ct_abi :: string
  ct_events :: "string list"
  ct_functions :: "string list"
  ct_table :: "string option"
  ct_start_block :: "nat option"

record chain_cfg =
  ch_id :: nat
  ch_name :: string
  ch_kind :: string
  ch_confirmations :: nat
  ch_source :: source_cfg
  ch_contracts :: "contract_cfg list"

definition default_confirmations :: nat where "default_confirmations = 12"
definition default_kind :: string where "default_kind = ''evm''"

text \<open>\<open>iter().filter_map(..).min()\<close>.\<close>

definition start_block :: "chain_cfg \<Rightarrow> nat option" where
  "start_block chain = (case List.map_filter ct_start_block (ch_contracts chain) of
     [] \<Rightarrow> None | b # bs \<Rightarrow> Some (fold min bs b))"

section \<open>Application settings\<close>

record indexer_cfg =
  ix_log_level :: string
  ix_batch_size :: nat
  ix_range_concurrency :: nat
  ix_aux_concurrency :: nat
  ix_tip_interval_secs :: nat
  ix_metrics_listen :: "string option"

record database_cfg =
  db_url :: string
  db_max_conns :: nat

record queue_cfg =
  qc_kind :: string
  qc_poll_ms :: nat
  qc_poll_idle_ms :: nat

record query_cfg =
  qy_api :: string
  qy_listen :: string
  qy_expose :: string
  qy_cache_ttl_ms :: nat

record config =
  cf_indexer :: indexer_cfg
  cf_database :: database_cfg
  cf_queue :: queue_cfg
  cf_query :: query_cfg
  cf_chains :: "chain_cfg list"

definition default_log_level :: string where "default_log_level = ''info''"
definition default_batch_size :: nat where "default_batch_size = 500"
definition default_max_conns :: nat where "default_max_conns = 16"
definition default_queue_kind :: string where "default_queue_kind = ''postgres''"
definition default_poll_ms :: nat where "default_poll_ms = 50"
definition default_poll_idle_ms :: nat where "default_poll_idle_ms = 1000"
definition default_api :: string where "default_api = ''graphql''"
definition default_listen :: string where "default_listen = ''0.0.0.0:8080''"
definition default_expose :: string where "default_expose = ''finalized''"
definition default_cache_ttl_ms :: nat where "default_cache_ttl_ms = 1000"
definition default_range_concurrency :: nat where "default_range_concurrency = 4"
definition default_aux_concurrency :: nat where "default_aux_concurrency = 8"
definition default_tip_interval_secs :: nat where "default_tip_interval_secs = 6"

definition indexer_cfg_default :: indexer_cfg where
  "indexer_cfg_default = \<lparr>ix_log_level = default_log_level, ix_batch_size = default_batch_size,
     ix_range_concurrency = default_range_concurrency, ix_aux_concurrency = default_aux_concurrency,
     ix_tip_interval_secs = default_tip_interval_secs, ix_metrics_listen = None\<rparr>"

definition queue_cfg_default :: queue_cfg where
  "queue_cfg_default = \<lparr>qc_kind = default_queue_kind, qc_poll_ms = default_poll_ms, qc_poll_idle_ms = default_poll_idle_ms\<rparr>"

definition query_cfg_default :: query_cfg where
  "query_cfg_default = \<lparr>qy_api = default_api, qy_listen = default_listen, qy_expose = default_expose,
     qy_cache_ttl_ms = default_cache_ttl_ms\<rparr>"

section \<open>Validation\<close>

definition validate_contract :: "nat \<Rightarrow> contract_cfg \<Rightarrow> (string, unit) res" where
  "validate_contract chain_id c =
     (if \<not> prefix ''0x'' (ct_address c) \<or> length (ct_address c) \<noteq> 42
      then Err (''chain '' @ show_nat chain_id @ '' contract address '' @ [CHR 0x27] @ ct_address c @ [CHR 0x27] @ '' malformed'')
      else if ct_abi c = []
      then Err (''chain '' @ show_nat chain_id @ '' contract '' @ ct_address c @ '' missing abi path'')
      else Ok ())"

fun validate_contracts :: "nat \<Rightarrow> contract_cfg list \<Rightarrow> (string, unit) res" where
  "validate_contracts chain_id [] = Ok ()"
| "validate_contracts chain_id (c # cs) = and_then (validate_contract chain_id c) (\<lambda>_. validate_contracts chain_id cs)"

fun validate_chains :: "nat set \<Rightarrow> chain_cfg list \<Rightarrow> (string, unit) res" where
  "validate_chains seen [] = Ok ()"
| "validate_chains seen (chain # rest) =
     (if ch_id chain \<in> seen then Err (''duplicate chain id '' @ show_nat (ch_id chain))
      else if sc_http (ch_source chain) = [] then Err (''chain '' @ show_nat (ch_id chain) @ '' source.http is required'')
      else if start_block chain = None
      then Err (''chain '' @ show_nat (ch_id chain) @ '' has no scan start: set start_block on at least one contract'')
      else and_then (validate_contracts (ch_id chain) (ch_contracts chain)) (\<lambda>_. validate_chains (insert (ch_id chain) seen) rest))"

definition validate :: "config \<Rightarrow> (string, unit) res" where
  "validate cfg =
     (if db_url (cf_database cfg) = [] then Err ''database.url is required''
      else if qc_kind (cf_queue cfg) \<noteq> ''postgres''
      then Err (''queue.kind '' @ [CHR 0x27] @ qc_kind (cf_queue cfg) @ [CHR 0x27] @ '' unsupported (only '' @ [CHR 0x27] @ ''postgres'' @ [CHR 0x27] @ '')'')
      else if qy_expose (cf_query cfg) \<notin> {''finalized'', ''provisional''}
      then Err (''query.expose '' @ [CHR 0x27] @ qy_expose (cf_query cfg) @ [CHR 0x27] @ '' invalid'')
      else validate_chains {} (cf_chains cfg))"

datatype config_error = ConfigRead string | ConfigInvalid string

definition config_from_str :: "(string \<Rightarrow> string + config) \<Rightarrow> string \<Rightarrow> (config_error, config) res" where
  "config_from_str extract s = (case extract s of
     Inl e \<Rightarrow> Err (ConfigRead e)
   | Inr cfg \<Rightarrow> (case validate cfg of Ok _ \<Rightarrow> Ok cfg | Err e \<Rightarrow> Err (ConfigInvalid e) | Panic \<Rightarrow> Panic))"

text \<open>
  \<open>load\<close> differs from \<open>from_str\<close> only in what figment merges (the file at the path under the \<open>INDEXER_\<close>
  environment), which is the parameter \<open>extract_merged\<close>.
\<close>

definition config_load :: "(string \<Rightarrow> string + config) \<Rightarrow> string \<Rightarrow> (config_error, config) res" where
  "config_load extract_merged path = (case extract_merged path of
     Inl e \<Rightarrow> Err (ConfigRead e)
   | Inr cfg \<Rightarrow> (case validate cfg of Ok _ \<Rightarrow> Ok cfg | Err e \<Rightarrow> Err (ConfigInvalid e) | Panic \<Rightarrow> Panic))"

section \<open>Lemmas\<close>

lemma validate_contract_Ok: "validate_contract i c = Ok x \<longleftrightarrow> prefix ''0x'' (ct_address c) \<and> length (ct_address c) = 42 \<and> ct_abi c \<noteq> []"
  by (auto simp: validate_contract_def)

lemma validate_contracts_Ok:
  "validate_contracts i cs = Ok x \<longleftrightarrow> (\<forall>c \<in> set cs. prefix ''0x'' (ct_address c) \<and> length (ct_address c) = 42 \<and> ct_abi c \<noteq> [])"
proof (induction cs)
  case (Cons c cs)
  then show ?case using validate_contract_Ok[of i c] by (cases "validate_contract i c") auto
qed simp

lemma validate_chains_Ok:
  "validate_chains seen chs = Ok x \<longleftrightarrow> distinct (map ch_id chs) \<and> seen \<inter> ch_id ` set chs = {}
     \<and> (\<forall>chain \<in> set chs. sc_http (ch_source chain) \<noteq> [] \<and> start_block chain \<noteq> None
          \<and> (\<forall>c \<in> set (ch_contracts chain). prefix ''0x'' (ct_address c) \<and> length (ct_address c) = 42 \<and> ct_abi c \<noteq> []))"
proof (induction chs arbitrary: seen)
  case (Cons chain rest)
  show ?case
  proof (cases "validate_contracts (ch_id chain) (ch_contracts chain)")
    case (Ok u)
    with validate_contracts_Ok[of "ch_id chain" "ch_contracts chain" u] Cons[of "insert (ch_id chain) seen"] show ?thesis
      by auto
  qed (use validate_contracts_Ok[of "ch_id chain" "ch_contracts chain"] in \<open>auto split: if_splits\<close>)
qed simp

lemma validate_no_panic: "validate cfg \<noteq> Panic"
proof -
  have "validate_contracts i cs \<noteq> Panic" for i cs
    by (induction cs) (auto simp: validate_contract_def)
  then have "validate_chains seen chs \<noteq> Panic" for seen chs
  proof (induction chs arbitrary: seen)
    case (Cons c cs)
    then show ?case by (cases "validate_contracts (ch_id c) (ch_contracts c)") auto
  qed simp
  then show ?thesis by (simp add: validate_def)
qed

lemma fold_min: "fold min bs (b :: nat) = Min (set (b # bs))"
  by (rule Min.set_eq_fold[symmetric])

section \<open>Properties\<close>


end
