(* ===== verification/Evm_Decoder.thy ===== *)
theory Evm_Decoder
  imports Abi_Index Enrichment Services Config_Model
begin

text \<open>
  \<open>crates/source/src/decoder.rs\<close> and \<open>crates/source/src/registry.rs\<close>: the EVM decoder
  built from a chain's configuration, and the adapter that joins it with the JSON-RPC source.
  Reading an ABI file and connecting to an endpoint are parameters.
\<close>

section \<open>Names and addresses\<close>

text \<open>\<open>Path::file_stem\<close>: the last normal component without its last extension.\<close>

fun split_on :: "char \<Rightarrow> string \<Rightarrow> string list" where
  "split_on c [] = [[]]"
| "split_on c (x # xs) = (if x = c then [] # split_on c xs
     else (case split_on c xs of [] \<Rightarrow> [[x]] | w # ws \<Rightarrow> (x # w) # ws))"

definition file_name :: "string \<Rightarrow> string option" where
  "file_name path = (case rev (filter (\<lambda>w. w \<noteq> [] \<and> w \<noteq> ''.'') (split_on (CHR ''/'') path)) of
     [] \<Rightarrow> None | w # _ \<Rightarrow> if w = ''..'' then None else Some w)"

definition stem :: "string \<Rightarrow> string" where
  "stem file = (let before = butlast (split_on (CHR ''.'') file);
                    pre = concat (map (\<lambda>w. w @ ''.'') before)
     in if before = [] \<or> butlast pre = [] then file else butlast pre)"

definition file_stem :: "string \<Rightarrow> string option" where
  "file_stem path = map_option stem (file_name path)"

text \<open>\<open>chars().map(..)\<close>: one output character per Unicode scalar value.\<close>

definition table_prefix :: "string \<Rightarrow> string" where
  "table_prefix abi_path = map (\<lambda>c. if is_ascii_alphanumeric c then to_ascii_lowercase c else CHR ''_'')
     (filter (\<lambda>c. \<not> is_utf8_continuation c) (case file_stem abi_path of Some s \<Rightarrow> s | None \<Rightarrow> ''evt''))"

definition parse_addr :: "string \<Rightarrow> (source_error, address_bytes) res" where
  "parse_addr s = (case hex_decode s of
     Panics \<Rightarrow> Panic
   | Returns (Some b) \<Rightarrow> if length b = 20 then Ok b else Err (Malformed (''bad address '' @ s))
   | Returns None \<Rightarrow> Err (Malformed (''bad address '' @ s)))"

definition join_path :: "string \<Rightarrow> string \<Rightarrow> string" where
  "join_path base p = (if prefix ''/'' p then p else if base = [] \<or> last base = CHR ''/'' then base @ p else base @ ''/'' @ p)"

section \<open>The decoder\<close>

record evm_decoder =
  ed_abi :: abi_index
  ed_addresses :: "address_bytes list"

fun build_specs :: "(string \<Rightarrow> string + string) \<Rightarrow> string \<Rightarrow> contract_cfg list
    \<Rightarrow> (source_error, contract_spec list) res" where
  "build_specs read base_dir [] = Ok []"
| "build_specs read base_dir (c # cs) = (case read (join_path base_dir (ct_abi c)) of
     Inl e \<Rightarrow> Err (Malformed (''read abi '' @ join_path base_dir (ct_abi c) @ '': '' @ e))
   | Inr abi_json \<Rightarrow> and_then (parse_addr (ct_address c)) (\<lambda>address.
       map_ok ((#) \<lparr>sp_abi_json = abi_json, sp_events = ct_events c, sp_functions = ct_functions c,
         sp_address = address, sp_table_prefix = table_prefix (ct_abi c), sp_table_override = ct_table c\<rparr>)
         (build_specs read base_dir cs)))"

definition build_evm_decoder :: "abi_lib \<Rightarrow> (string \<Rightarrow> string + string) \<Rightarrow> chain_cfg \<Rightarrow> string
    \<Rightarrow> (source_error, evm_decoder) res" where
  "build_evm_decoder lib read cfg base_dir =
     and_then (build_specs read base_dir (ch_contracts cfg)) (\<lambda>specs.
       map_ok (\<lambda>idx. \<lparr>ed_abi = idx, ed_addresses = map sp_address specs\<rparr>)
         (map_err (\<lambda>e. Malformed (decode_error_string e)) (abi_build lib specs)))"

text \<open>The port: \<open>decode\<close>, \<open>decode_call\<close>, \<open>has_calls\<close>, \<open>schemas\<close> and
  \<open>record_filter\<close>.\<close>

definition evm_port :: "abi_lib \<Rightarrow> evm_decoder \<Rightarrow> decoder" where
  "evm_port lib d = \<lparr>dc_decode = (\<lambda>r. map_err decode_error_to_domain (abi_decode lib (ed_abi d) r)),
     dc_decode_call = (\<lambda>tx. map_err decode_error_to_domain (abi_decode_call lib (ed_abi d) tx)),
     dc_has_calls = (\<not> call_is_empty (ed_abi d))\<rparr>"

definition evm_schemas :: "abi_iter \<Rightarrow> evm_decoder \<Rightarrow> event_schema list" where
  "evm_schemas it d = abi_schemas it (ed_abi d) @ call_schemas it (ed_abi d) @ aux_schemas"

definition evm_record_filter :: "abi_iter \<Rightarrow> evm_decoder \<Rightarrow> record_filter" where
  "evm_record_filter it d = \<lparr>rf_addresses = ed_addresses d, rf_selectors = topic0s it (ed_abi d)\<rparr>"

section \<open>The registry\<close>

definition build_decoder :: "abi_lib \<Rightarrow> (string \<Rightarrow> string + string) \<Rightarrow> chain_cfg \<Rightarrow> string
    \<Rightarrow> (source_error, evm_decoder) res" where
  "build_decoder lib read cfg base_dir =
     (if ch_kind cfg = ''evm'' then build_evm_decoder lib read cfg base_dir else Err (UnknownKind (ch_kind cfg)))"

definition apply_overrides :: "plan_profile \<Rightarrow> chain_cfg \<Rightarrow> plan_profile" where
  "apply_overrides plan cfg = (case sc_limits (ch_source cfg) of
     None \<Rightarrow> plan
   | Some l \<Rightarrow>
      (let p1 = (case lc_max_rps l of Some v \<Rightarrow> plan\<lparr>max_rps := v\<rparr> | None \<Rightarrow> plan);
           p2 = (case lc_max_cu_per_sec l of Some v \<Rightarrow> p1\<lparr>max_cu_per_sec := Some v\<rparr> | None \<Rightarrow> p1);
           p3 = (case lc_max_batch l of Some v \<Rightarrow> p2\<lparr>max_batch := v\<rparr> | None \<Rightarrow> p2);
           p4 = (case lc_max_getlogs_blocks l of Some v \<Rightarrow> p3\<lparr>max_getlogs_blocks := v\<rparr> | None \<Rightarrow> p3);
           p5 = (case lc_max_getlogs_results l of Some v \<Rightarrow> p4\<lparr>max_getlogs_results := v\<rparr> | None \<Rightarrow> p4)
       in (case lc_monthly_quota_cu l of Some v \<Rightarrow> p5\<lparr>monthly_quota := Some v\<rparr> | None \<Rightarrow> p5)))"

record 'n built_chain =
  bc_source :: "'n rpc_source"
  bc_decoder :: evm_decoder
  bc_ledger :: spend_ledger

definition build_evm :: "abi_lib \<Rightarrow> (string \<Rightarrow> string + string)
    \<Rightarrow> (string \<Rightarrow> string option \<Rightarrow> (source_error, 'n provider \<times> 'n provider option) res)
    \<Rightarrow> chain_cfg \<Rightarrow> string \<Rightarrow> nat \<Rightarrow> (source_error, 'n built_chain) res" where
  "build_evm lib read connect cfg base_dir aux_concurrency =
     and_then (build_evm_decoder lib read cfg base_dir) (\<lambda>decoder.
       case for_kind (sc_kind (ch_source cfg)) of
         None \<Rightarrow> Err (UnknownKind (sc_kind (ch_source cfg)))
       | Some cost_model \<Rightarrow>
          (let plan = apply_overrides plan_profile_default cfg;
               ledger = ledger_new (monthly_quota plan) (cm_rate cost_model)
           in map_ok (\<lambda>(http, ws). \<lparr>bc_source = rpc_source_new (ch_id cfg) http ws plan cost_model aux_concurrency,
                 bc_decoder = decoder, bc_ledger = ledger\<rparr>)
               (connect (sc_http (ch_source cfg)) (sc_ws (ch_source cfg)))))"

definition build_chain :: "abi_lib \<Rightarrow> (string \<Rightarrow> string + string)
    \<Rightarrow> (string \<Rightarrow> string option \<Rightarrow> (source_error, 'n provider \<times> 'n provider option) res)
    \<Rightarrow> chain_cfg \<Rightarrow> string \<Rightarrow> nat \<Rightarrow> (source_error, 'n built_chain) res" where
  "build_chain lib read connect cfg base_dir aux_concurrency =
     (if ch_kind cfg = ''evm'' then build_evm lib read connect cfg base_dir aux_concurrency
      else Err (UnknownKind (ch_kind cfg)))"

section \<open>Lemmas\<close>

lemma build_specs_Ok:
  assumes "build_specs read base_dir cs = Ok specs"
  shows "length specs = length cs \<and> list_all (\<lambda>spec. length (sp_address spec) = 20) specs
     \<and> sp_table_override ` set specs = ct_table ` set cs"
  using assms
proof (induction cs arbitrary: specs)
  case (Cons c cs)
  from Cons.prems obtain abi_json where "read (join_path base_dir (ct_abi c)) = Inr abi_json"
    by (auto split: sum.splits)
  moreover from this Cons.prems obtain a where "parse_addr (ct_address c) = Ok a"
    by (cases "parse_addr (ct_address c)") auto
  ultimately obtain rest where rest: "build_specs read base_dir cs = Ok rest"
    and specs: "specs = \<lparr>sp_abi_json = abi_json, sp_events = ct_events c, sp_functions = ct_functions c,
         sp_address = a, sp_table_prefix = table_prefix (ct_abi c), sp_table_override = ct_table c\<rparr> # rest"
    using Cons.prems by auto
  have "length a = 20" using \<open>parse_addr (ct_address c) = Ok a\<close>
    by (auto simp: parse_addr_def split: outcome.splits option.splits if_splits)
  with Cons.IH[OF rest] specs show ?case by auto
qed simp

lemma build_decoder_OkE:
  assumes "build_decoder lib read cfg base_dir = Ok d"
  obtains specs where "build_specs read base_dir (ch_contracts cfg) = Ok specs" "abi_build lib specs = Ok (ed_abi d)"
    "ed_addresses d = map sp_address specs"
proof -
  from assms have "build_evm_decoder lib read cfg base_dir = Ok d" by (auto simp: build_decoder_def split: if_splits)
  then obtain specs idx where s: "build_specs read base_dir (ch_contracts cfg) = Ok specs" "abi_build lib specs = Ok idx"
    "d = \<lparr>ed_abi = idx, ed_addresses = map sp_address specs\<rparr>"
    unfolding build_evm_decoder_def
    by (cases "build_specs read base_dir (ch_contracts cfg)") (auto)
  with that[of specs] show thesis by simp
qed

lemma configured_event_cases:
  assumes "(k, entry) \<in> set (configured_events lib specs)"
  obtains spec e where "spec \<in> set specs" "entry = snd (event_entry lib spec e)" "k = al_event_selector lib e"
  using assms by (auto simp: configured_events_def spec_events_def event_entry_def split: sum.splits)

lemma configured_call_cases:
  assumes "(k, entry) \<in> set (configured_calls lib specs)"
  obtains spec f where "spec \<in> set specs" "entry = snd (function_entry lib spec f)"
  using assms by (auto simp: configured_calls_def spec_calls_def function_entry_def split: sum.splits)

lemma decode_event_table: "decode_event lib e schema raw = Ok ev \<Longrightarrow> de_table ev = es_table schema"
  by (auto simp: decode_event_def split: if_splits sum.splits prod.splits)

lemma decode_call_table: "decode_call_input lib f schema input = Ok ev \<Longrightarrow> de_table ev = es_table schema"
  by (auto simp: decode_call_input_def split: if_splits sum.splits)

lemma hex_pairs_ascii: "list_all (\<lambda>c. \<not> is_utf8_continuation c) s \<Longrightarrow> hex_pairs s \<noteq> Panics"
proof (induction s rule: hex_pairs.induct)
  case (3 c d rest)
  show ?case
  proof (cases "from_str_radix16 c d")
    case None
    with 3 show ?thesis by (cases rest) auto
  next
    case (Some b)
    with 3 show ?thesis by (cases rest; cases "hex_pairs rest") auto
  qed
qed auto

section \<open>Properties\<close>

text \<open>
  A built decoder yields a filter the source can use: every contract contributes its 20-byte
  address, and with 32-byte event selectors the conversion to a log filter does not panic; the
  filter asks for exactly the topics of the configured events.
\<close>

theorem built_filter_is_servable:
  assumes "build_decoder lib read cfg base_dir = Ok d" and "iterates it"
    and "\<And>e. length (al_event_selector lib e) = 32"
  shows "\<exists>specs. build_specs read base_dir (ch_contracts cfg) = Ok specs \<and> length (ed_addresses d) = length (ch_contracts cfg)
     \<and> base_filter (evm_record_filter it d) = Returns \<lparr>lf_addresses = ed_addresses d, lf_topic0 = topic0s it (ed_abi d)\<rparr>
     \<and> set (topic0s it (ed_abi d)) = fst ` set (configured_events lib specs)"
proof -
  obtain specs where s: "build_specs read base_dir (ch_contracts cfg) = Ok specs" "abi_build lib specs = Ok (ed_abi d)"
    "ed_addresses d = map sp_address specs"
    using assms(1) by (rule build_decoder_OkE)
  have t: "set (topic0s it (ed_abi d)) = fst ` set (configured_events lib specs)"
    unfolding topic0s_set[OF assms(2)] abi_build_Ok(1)[OF s(2)] by (simp add: dom_map_of_conv_image_fst)
  have "length k = 32" if "k \<in> set (topic0s it (ed_abi d))" for k
    using that assms(3) unfolding t by (auto elim!: configured_event_cases)
  moreover have "length a = 20" if "a \<in> set (ed_addresses d)" for a
    using that build_specs_Ok[OF s(1)] by (auto simp: s(3) list_all_iff)
  ultimately show ?thesis using s t build_specs_Ok[OF s(1)]
    by (auto simp: base_filter_def evm_record_filter_def)
qed

text \<open>
  Decoding never writes the table its calldata comes from: unless a contract overrides its
  table name with the name of the transactions table, no event and no call decodes into that
  table. This is what decoding a range twice relies on.
\<close>

theorem evm_decoder_leaves_transactions:
  assumes "build_decoder lib read cfg base_dir = Ok d"
    and "\<And>c. c \<in> set (ch_contracts cfg) \<Longrightarrow> ct_table c \<noteq> Some ''transactions''"
  shows "leaves_transactions (evm_port lib d)"
proof -
  obtain specs where s: "build_specs read base_dir (ch_contracts cfg) = Ok specs" "abi_build lib specs = Ok (ed_abi d)"
    using assms(1) by (rule build_decoder_OkE)
  have over: "sp_table_override spec \<noteq> Some ''transactions''" if "spec \<in> set specs" for spec
  proof -
    have "sp_table_override spec \<in> ct_table ` set (ch_contracts cfg)" using that build_specs_Ok[OF s(1)] by blast
    then obtain x where "x \<in> set (ch_contracts cfg)" "sp_table_override spec = ct_table x" by blast
    with assms(2)[of x] show ?thesis by simp
  qed
  have ev: "es_table (ae_schema entry) \<noteq> ''transactions''" if "map_of (rev (configured_events lib specs)) k = Some entry" for k entry
  proof -
    have "(k, entry) \<in> set (configured_events lib specs)" using map_of_SomeD[OF that] by simp
    then obtain spec e where "spec \<in> set specs" "entry = snd (event_entry lib spec e)" by (rule configured_event_cases)
    with over show ?thesis by (auto simp: event_entry_def event_table_def split: option.splits)
  qed
  have call: "es_table (ce_schema entry) \<noteq> ''transactions''" if "map_of (rev (configured_calls lib specs)) k = Some entry" for k entry
  proof -
    have "(k, entry) \<in> set (configured_calls lib specs)" using map_of_SomeD[OF that] by simp
    then obtain spec f where "entry = snd (function_entry lib spec f)" by (rule configured_call_cases)
    then show ?thesis by (simp add: function_entry_def schema_for_function_def call_table_def)
  qed
  have d: "de_table (er_event row) \<noteq> ''transactions''" if "abi_decode lib (ed_abi d) raw = Ok (Some row)" for raw row
    using that ev unfolding abi_decode_def abi_build_Ok(1)[OF s(2)]
    by (auto split: list.splits if_splits option.splits dest!: decode_event_table)
  have c: "de_table (er_event row) \<noteq> ''transactions''" if "abi_decode_call lib (ed_abi d) tx = Ok (Some row)" for tx row
    using that call unfolding abi_decode_call_def abi_build_Ok(2)[OF s(2)]
    by (auto split: if_splits option.splits dest!: decode_call_table)
  from d c show ?thesis by (auto simp: leaves_transactions_def evm_port_def)
qed

text \<open>
  What validation leaves open about an address. An address that passed validation and holds
  only single-byte characters is parsed to 20 bytes or rejected as malformed, without a panic;
  but validation counts bytes, and there is an address of 42 bytes, with a two-byte character,
  that passes and on which building the decoder panics.
\<close>

theorem validated_address_parses_or_fails:
  assumes "validate cfg = Ok ()" and "ch \<in> set (cf_chains cfg)" and "c \<in> set (ch_contracts ch)"
    and "list_all (\<lambda>x. \<not> is_utf8_continuation x) (ct_address c)"
  shows "((\<exists>b. parse_addr (ct_address c) = Ok b \<and> length b = 20) \<or> parse_addr (ct_address c) = Err (Malformed (''bad address '' @ ct_address c)))
     \<and> (\<exists>a. validate_contract 1 \<lparr>ct_address = a, ct_abi = ''x'', ct_events = [], ct_functions = [], ct_table = None, ct_start_block = Some 1\<rparr> = Ok ()
          \<and> parse_addr a = Panic)"
proof
  have "prefix ''0x'' (ct_address c)"
    using assms(1-3) by (auto simp: validate_def validate_chains_Ok split: if_splits)
  then obtain r where r: "ct_address c = ''0x'' @ r" by (auto simp: prefix_def)
  have "list_all (\<lambda>x. \<not> is_utf8_continuation x) r" using assms(4) unfolding r by simp
  from hex_pairs_ascii[OF this] have "hex_decode (ct_address c) \<noteq> Panics" unfolding r hex_decode_0x by simp
  then show "(\<exists>b. parse_addr (ct_address c) = Ok b \<and> length b = 20) \<or> parse_addr (ct_address c) = Err (Malformed (''bad address '' @ ct_address c))"
    by (auto simp: parse_addr_def split: outcome.splits option.splits)
next
  let ?a = "''0x'' @ [CHR ''a'', char_of (0xC3 :: nat), char_of (0xA9 :: nat)] @ replicate 37 (CHR ''a'')"
  have "hex_pairs ([CHR ''a'', char_of (0xC3 :: nat), char_of (0xA9 :: nat)] @ replicate 37 (CHR ''a'')) = Panics"
    by (simp add: is_utf8_continuation_def char_code_def)
  then have "hex_decode ?a = Panics" unfolding hex_decode_0x by simp
  then have "validate_contract 1 \<lparr>ct_address = ?a, ct_abi = ''x'', ct_events = [], ct_functions = [], ct_table = None, ct_start_block = Some 1\<rparr> = Ok ()
      \<and> parse_addr ?a = Panic"
    by (simp add: validate_contract_def parse_addr_def)
  then show "\<exists>a. validate_contract 1 \<lparr>ct_address = a, ct_abi = ''x'', ct_events = [], ct_functions = [], ct_table = None, ct_start_block = Some 1\<rparr> = Ok ()
      \<and> parse_addr a = Panic" by blast
qed

section \<open>Witnesses\<close>

definition demo_contract :: contract_cfg where
  "demo_contract = \<lparr>ct_address = ''0x'' @ replicate 40 (CHR ''3''), ct_abi = ''abis/erc20.json'', ct_events = [], ct_functions = [],
     ct_table = None, ct_start_block = Some 100\<rparr>"

definition demo_chain_cfg :: chain_cfg where
  "demo_chain_cfg = \<lparr>ch_id = 1, ch_name = [], ch_kind = ''evm'', ch_confirmations = 12,
     ch_source = \<lparr>sc_kind = ''alchemy'', sc_http = ''h'', sc_ws = None, sc_limits = None\<rparr>, ch_contracts = [demo_contract]\<rparr>"

definition demo_config :: config where
  "demo_config = \<lparr>cf_indexer = indexer_cfg_default, cf_database = \<lparr>db_url = ''postgres'', db_max_conns = 16\<rparr>,
     cf_queue = queue_cfg_default, cf_query = query_cfg_default, cf_chains = [demo_chain_cfg]\<rparr>"

lemma hex_pairs_replicate: "hex_pairs (replicate (2 * n) (CHR ''3'')) = Returns (Some (replicate n 0x33))"
proof (induction n)
  case (Suc n)
  have "from_str_radix16 (CHR ''3'') (CHR ''3'') = Some 0x33"
    by (simp add: from_str_radix16_def hex_digit_def char_code_def)
  moreover have "\<not> (replicate (2 * n) (CHR ''3'') \<noteq> [] \<and> is_utf8_continuation (hd (replicate (2 * n) (CHR ''3''))))"
    by (cases n) (simp_all add: is_utf8_continuation_def char_code_def)
  ultimately show ?case using Suc by (simp del: replicate.simps add: replicate_Suc)
qed simp

lemma demo_parse_addr: "parse_addr (ct_address demo_contract) = Ok (replicate 20 0x33)"
proof -
  have "hex_decode (''0x'' @ replicate 40 (CHR ''3'')) = Returns (Some (replicate 20 0x33))"
    unfolding hex_decode_0x using hex_pairs_replicate[of 20] by (simp del: replicate.simps)
  then show ?thesis by (simp add: parse_addr_def demo_contract_def del: replicate.simps append_Cons)
qed

lemma demo_decoder_builds: "\<exists>d. build_decoder demo_abi (\<lambda>p. Inr p) demo_chain_cfg ''etc'' = Ok d"
proof -
  have "\<exists>idx. abi_build demo_abi [spec] = Ok idx" if "sp_abi_json spec \<noteq> []" for spec
    using that by (simp add: abi_build_def demo_abi_def)
  moreover have "join_path ''etc'' p \<noteq> []" for p by (auto simp: join_path_def)
  ultimately show ?thesis
    by (simp add: build_decoder_def build_evm_decoder_def demo_chain_cfg_def demo_parse_addr)
qed

theorem built_filter_is_servable_witness:
  "\<exists>d. build_decoder demo_abi (\<lambda>p. Inr p) demo_chain_cfg ''etc'' = Ok d \<and> length (ed_addresses d) = 1"
proof -
  obtain d where d: "build_decoder demo_abi (\<lambda>p. Inr p) demo_chain_cfg ''etc'' = Ok d" using demo_decoder_builds by blast
  have "iterates \<lparr>it_topic0 = (\<lambda>x. x), it_call = (\<lambda>x. x)\<rparr>" "length (al_event_selector demo_abi e) = 32" for e
    by (simp_all add: iterates_def demo_abi_def)
  from built_filter_is_servable[OF d this] d show ?thesis by (auto simp: demo_chain_cfg_def)
qed

theorem evm_decoder_leaves_transactions_witness:
  "\<exists>d. build_decoder demo_abi (\<lambda>p. Inr p) demo_chain_cfg ''etc'' = Ok d \<and> leaves_transactions (evm_port demo_abi d)"
proof -
  obtain d where d: "build_decoder demo_abi (\<lambda>p. Inr p) demo_chain_cfg ''etc'' = Ok d" using demo_decoder_builds by blast
  have "ct_table c \<noteq> Some ''transactions''" if "c \<in> set (ch_contracts demo_chain_cfg)" for c
    using that by (simp add: demo_chain_cfg_def demo_contract_def)
  from evm_decoder_leaves_transactions[OF d this] d show ?thesis by blast
qed

theorem validated_address_parses_or_fails_witness:
  "validate demo_config = Ok () \<and> (\<exists>b. parse_addr (ct_address demo_contract) = Ok b \<and> length b = 20)"
proof -
  have v: "validate demo_config = Ok ()"
    by (simp add: validate_def demo_config_def demo_chain_cfg_def queue_cfg_default_def query_cfg_default_def default_queue_kind_def
        default_expose_def validate_contract_def demo_contract_def start_block_def List.map_filter_def)
  have "list_all (\<lambda>x. \<not> is_utf8_continuation x) (ct_address demo_contract)"
    by (simp add: demo_contract_def list_all_iff is_utf8_continuation_def char_code_def)
  from validated_address_parses_or_fails[OF v _ _ this, of demo_chain_cfg] v demo_parse_addr
  show ?thesis by (auto simp: demo_config_def demo_chain_cfg_def)
qed

end
