(* ===== verification/Pipeline.thy ===== *)
theory Pipeline
  imports Services Plan
begin

text \<open>
  \<open>run_pipeline\<close>, \<open>fetch_producer\<close> and \<open>commit_consumer\<close> of \<open>bins/indexer-cli/src/plan.rs\<close>:
  the ranges of a plan are fetched concurrently, handed through a bounded channel to one
  writer, and committed in the order in which the fetches end.

  The two halves run interleaved on one task (\<open>try_join!\<close>). An interleaving is a list of
  actions; an action that is not possible in a state changes nothing, so that the lists
  range over all interleavings. A fetch and a commit are one action each: the producer
  touches only the chain source and the consumer only the database, so finer interleavings
  reach no other states of either.
\<close>

section \<open>State\<close>

record pipeline_outcome =
  po_advanced_to :: "nat option"
  po_records :: nat
  po_shutdown :: bool

record 'c pipe =
  pi_todo :: "(nat \<times> nat) list"
  pi_inflight :: "(nat \<times> nat) list"
  pi_sending :: "fetched_range option"
  pi_chan :: "fetched_range list"
  pi_producer :: "bool option"
  pi_prefix :: prefix_tracker
  pi_records :: nat
  pi_result :: "(domain_error, pipeline_outcome) res option"
  pi_cancelled :: bool
  pi_src :: 'c
  pi_db :: db

text \<open>
  \<open>pi_sending\<close> is the range that the producer waits to send, \<open>pi_producer\<close> what
  \<open>fetch_producer\<close> returned (the sender is dropped then), \<open>pi_result\<close> what
  \<open>run_pipeline\<close> returned. What does not change during a drive:
\<close>

record 'c drive =
  dr_source :: "'c chain_source"
  dr_filter :: record_filter
  dr_conc :: nat
  dr_exhausted :: "'c \<Rightarrow> bool"

datatype pipe_action = StartFetch | FinishFetch nat | SendFetched | EndProducer | Receive | Join | CancelToken

definition pipe_init :: "nat \<Rightarrow> nat \<Rightarrow> nat \<Rightarrow> 'c \<Rightarrow> db \<Rightarrow> 'c pipe option" where
  "pipe_init next target step c d = map_option (\<lambda>ranges.
     \<lparr>pi_todo = ranges, pi_inflight = [], pi_sending = None, pi_chan = [], pi_producer = None,
      pi_prefix = prefix_new next, pi_records = 0, pi_result = None, pi_cancelled = False, pi_src = c, pi_db = d\<rparr>)
     (plan_ranges next target step)"

section \<open>The producer\<close>

text \<open>\<open>buffer_unordered\<close> fills its slots and yields the futures in the order they end.\<close>

definition polling :: "'c pipe \<Rightarrow> bool" where
  "polling s \<longleftrightarrow> pi_producer s = None \<and> pi_sending s = None"

definition start_fetch :: "'c drive \<Rightarrow> 'c pipe \<Rightarrow> 'c pipe" where
  "start_fetch dr s = (case pi_todo s of
     r # rest \<Rightarrow> if polling s \<and> length (pi_inflight s) < max (dr_conc dr) 1
                 then s\<lparr>pi_todo := rest, pi_inflight := pi_inflight s @ [r]\<rparr> else s
   | [] \<Rightarrow> s)"

definition drop_nth :: "nat \<Rightarrow> 'a list \<Rightarrow> 'a list" where
  "drop_nth i xs = take i xs @ drop (Suc i) xs"

definition finish_fetch :: "'c drive \<Rightarrow> nat \<Rightarrow> 'c pipe \<Rightarrow> 'c pipe" where
  "finish_fetch dr i s =
     (if \<not> polling s \<or> length (pi_inflight s) \<le> i then s
      else let (lo, hi) = pi_inflight s ! i;
               (r, c) = fetch_range (dr_source dr) (dr_filter dr) lo hi (pi_src s);
               s1 = s\<lparr>pi_inflight := drop_nth i (pi_inflight s), pi_src := c\<rparr>
           in if pi_cancelled s \<or> dr_exhausted dr c
              then s1\<lparr>pi_todo := [], pi_inflight := [], pi_producer := Some True\<rparr>
              else (case r of
                  Ok f \<Rightarrow> s1\<lparr>pi_sending := Some f\<rparr>
                | Err e \<Rightarrow> s1\<lparr>pi_result := Some (Err e)\<rparr>
                | Panic \<Rightarrow> s1\<lparr>pi_result := Some Panic\<rparr>))"

text \<open>The receiver outlives the producer, so \<open>send\<close> only waits for room.\<close>

definition send_fetched :: "'c drive \<Rightarrow> 'c pipe \<Rightarrow> 'c pipe" where
  "send_fetched dr s = (case pi_sending s of
     Some f \<Rightarrow> if length (pi_chan s) < max (dr_conc dr) 1 * 2
               then s\<lparr>pi_sending := None, pi_chan := pi_chan s @ [f]\<rparr> else s
   | None \<Rightarrow> s)"

definition end_producer :: "'c pipe \<Rightarrow> 'c pipe" where
  "end_producer s = (if polling s \<and> pi_todo s = [] \<and> pi_inflight s = [] then s\<lparr>pi_producer := Some False\<rparr> else s)"

section \<open>The consumer\<close>

definition commit_consume :: "chain_id \<Rightarrow> fetched_range \<Rightarrow> prefix_tracker \<Rightarrow> (db, domain_error, prefix_tracker \<times> nat) m" where
  "commit_consume chain f p =
     bind (commit_range chain f 0) (\<lambda>out.
       case prefix_record (fr_from f) (fr_to f) (fr_last_block f) p of
         (Panics, p') \<Rightarrow> (\<lambda>d. (Panic, d))
       | (Returns None, p') \<Rightarrow> ret (p', io_records out)
       | (Returns (Some (h, hs)), p') \<Rightarrow> bind (cursor_advance chain h hs) (\<lambda>_. ret (p', io_records out)))"

definition receive :: "'c drive \<Rightarrow> 'c pipe \<Rightarrow> 'c pipe" where
  "receive dr s = (case pi_chan s of
     [] \<Rightarrow> s
   | f # rest \<Rightarrow>
       (case commit_consume (cs_chain_id (dr_source dr)) f (pi_prefix s) (pi_db s) of
          (Ok (p, n), d) \<Rightarrow> s\<lparr>pi_chan := rest, pi_db := d, pi_prefix := p, pi_records := pi_records s + n\<rparr>
        | (Err e, d) \<Rightarrow> s\<lparr>pi_chan := rest, pi_db := d, pi_result := Some (Err e)\<rparr>
        | (Panic, d) \<Rightarrow> s\<lparr>pi_chan := rest, pi_db := d, pi_result := Some Panic\<rparr>))"

definition join_halves :: "'c pipe \<Rightarrow> 'c pipe" where
  "join_halves s = (case pi_producer s of
     Some shutdown \<Rightarrow> if pi_chan s = []
       then s\<lparr>pi_result := Some (Ok \<lparr>po_advanced_to = pt_advanced_to (pi_prefix s), po_records = pi_records s, po_shutdown = shutdown\<rparr>)\<rparr>
       else s
   | None \<Rightarrow> s)"

section \<open>The pipeline\<close>

fun pipe_act :: "'c drive \<Rightarrow> pipe_action \<Rightarrow> 'c pipe \<Rightarrow> 'c pipe" where
  "pipe_act dr StartFetch s = start_fetch dr s"
| "pipe_act dr (FinishFetch i) s = finish_fetch dr i s"
| "pipe_act dr SendFetched s = send_fetched dr s"
| "pipe_act dr EndProducer s = end_producer s"
| "pipe_act dr Receive s = receive dr s"
| "pipe_act dr Join s = join_halves s"
| "pipe_act dr CancelToken s = s\<lparr>pi_cancelled := True\<rparr>"

definition pipe_step :: "'c drive \<Rightarrow> pipe_action \<Rightarrow> 'c pipe \<Rightarrow> 'c pipe" where
  "pipe_step dr a s = (if pi_result s \<noteq> None then s else pipe_act dr a s)"

definition run_pipeline :: "'c drive \<Rightarrow> pipe_action list \<Rightarrow> nat \<Rightarrow> nat \<Rightarrow> nat \<Rightarrow> 'c \<Rightarrow> db \<Rightarrow> 'c pipe option" where
  "run_pipeline dr acts next target step c d = map_option (fold (pipe_step dr) acts) (pipe_init next target step c d)"


section \<open>Ownership of the planned ranges\<close>

abbreviation rng :: "fetched_range \<Rightarrow> nat \<times> nat" where
  "rng f \<equiv> (fr_from f, fr_to f)"

abbreviation commit_entry :: "fetched_range \<Rightarrow> nat \<times> nat \<times> (height \<times> hash) option" where
  "commit_entry f \<equiv> (fr_from f, fr_to f, fr_last_block f)"

definition sending_list :: "'c pipe \<Rightarrow> fetched_range list" where
  "sending_list s = (case pi_sending s of None \<Rightarrow> [] | Some f \<Rightarrow> [f])"

text \<open>Every planned range is in exactly one place: waiting, being fetched, being sent, in the
  channel, or committed (\<open>fs\<close>).\<close>

definition owned :: "'c pipe \<Rightarrow> fetched_range list \<Rightarrow> (nat \<times> nat) multiset" where
  "owned s fs = mset (pi_todo s) + mset (pi_inflight s) + mset (map rng (sending_list s @ pi_chan s @ fs))"

definition was_fetched :: "'c drive \<Rightarrow> fetched_range \<Rightarrow> bool" where
  "was_fetched dr f \<longleftrightarrow> (\<exists>c c'. fetch_range (dr_source dr) (dr_filter dr) (fr_from f) (fr_to f) c = (Ok f, c'))"

text \<open>No range was given up: no failure, and the producer was not told to stop.\<close>

definition lossless :: "'c pipe \<Rightarrow> bool" where
  "lossless s \<longleftrightarrow> pi_producer s \<noteq> Some True
     \<and> (case pi_result s of None \<Rightarrow> True | Some (Ok po) \<Rightarrow> True | Some (Err e) \<Rightarrow> False | Some Panic \<Rightarrow> False)"

definition flow_inv :: "'c drive \<Rightarrow> (nat \<times> nat) list \<Rightarrow> fetched_range list \<Rightarrow> 'c pipe \<Rightarrow> bool" where
  "flow_inv dr plan fs s \<longleftrightarrow>
     owned s fs \<subseteq># mset plan \<and> (lossless s \<longrightarrow> owned s fs = mset plan)
     \<and> (pi_producer s \<noteq> None \<longrightarrow> pi_todo s = [] \<and> pi_inflight s = [] \<and> pi_sending s = None)
     \<and> (\<forall>f \<in> set (sending_list s @ pi_chan s @ fs). was_fetched dr f)"

lemma drop_nth_mset: "i < length xs \<Longrightarrow> mset xs = add_mset (xs ! i) (mset (drop_nth i xs))"
  by (subst (1) id_take_nth_drop[of i xs]) (simp_all add: drop_nth_def)

lemma fetch_range_rng: "fetch_range cs filt lo hi c = (Ok f, c') \<Longrightarrow> rng f = (lo, hi)"
  by (auto simp: fetch_range_def ret_def elim!: bind_OkE)

lemma flow_inv_start: "flow_inv dr plan fs s \<Longrightarrow> flow_inv dr plan fs (start_fetch dr s)"
  by (auto simp: start_fetch_def flow_inv_def owned_def lossless_def polling_def sending_list_def add_mset_commute
      split: list.splits)

lemma flow_inv_send: "flow_inv dr plan fs s \<Longrightarrow> flow_inv dr plan fs (send_fetched dr s)"
  by (auto simp: send_fetched_def flow_inv_def owned_def lossless_def sending_list_def split: option.splits)

lemma flow_inv_end: "flow_inv dr plan fs s \<Longrightarrow> flow_inv dr plan fs (end_producer s)"
  by (auto simp: end_producer_def flow_inv_def owned_def lossless_def polling_def sending_list_def)

lemma flow_inv_join: "pi_result s = None \<Longrightarrow> flow_inv dr plan fs s \<Longrightarrow> flow_inv dr plan fs (join_halves s)"
  by (auto simp: join_halves_def flow_inv_def owned_def lossless_def sending_list_def split: option.splits)

lemma flow_inv_finish:
  assumes inv: "flow_inv dr plan fs s" and running: "pi_result s = None"
  shows "flow_inv dr plan fs (finish_fetch dr i s)"
proof (cases "polling s \<and> i < length (pi_inflight s)")
  case True
  obtain lo hi where r: "pi_inflight s ! i = (lo, hi)" by fastforce
  obtain res c where f: "fetch_range (dr_source dr) (dr_filter dr) lo hi (pi_src s) = (res, c)" by fastforce
  have m: "mset (pi_inflight s) = add_mset (lo, hi) (mset (drop_nth i (pi_inflight s)))"
    using drop_nth_mset[of i "pi_inflight s"] True r by simp
  have sub: "owned s fs \<subseteq># mset plan" and none: "sending_list s = []" "pi_producer s = None"
    using inv True by (simp_all add: flow_inv_def polling_def sending_list_def)
  have "mset (map rng (pi_chan s @ fs)) \<subseteq># owned s fs"
    and "mset (pi_todo s) + mset (drop_nth i (pi_inflight s)) + mset (map rng (pi_chan s @ fs)) \<subseteq># owned s fs"
    by (simp_all add: owned_def none m)
  note subs = subset_mset.order_trans[OF this(1) sub] subset_mset.order_trans[OF this(2) sub]
  show ?thesis
  proof (cases "pi_cancelled s \<or> dr_exhausted dr c")
    case stop: True
    then show ?thesis
      using inv True subs(1) by (auto simp: finish_fetch_def f r flow_inv_def owned_def lossless_def sending_list_def polling_def)
  next
    case go: False
    show ?thesis
    proof (cases res)
      case (Ok fr)
      have "rng fr = (lo, hi)" using f[unfolded Ok] by (rule fetch_range_rng)
      moreover have "was_fetched dr fr" using f Ok calculation unfolding was_fetched_def by auto
      ultimately show ?thesis
        using inv True go none running
        by (auto simp: finish_fetch_def f r Ok flow_inv_def owned_def lossless_def sending_list_def polling_def m)
    qed (use inv True go none subs in \<open>auto simp: finish_fetch_def f r flow_inv_def owned_def lossless_def
          sending_list_def polling_def\<close>)
  qed
next
  case False
  then have "finish_fetch dr i s = s" by (auto simp: finish_fetch_def)
  then show ?thesis using inv by simp
qed

lemma flow_inv_commits:
  assumes "flow_inv dr plan fs s" and "distinct (map fst plan)"
  shows "commits_of_plan plan (map commit_entry fs)"
proof -
  have "mset (map rng fs) \<subseteq># mset plan"
    by (rule subset_mset.order_trans[of _ "owned s fs"]) (use assms(1) in \<open>simp_all add: flow_inv_def owned_def\<close>)
  then have sub: "set (map rng fs) \<subseteq> set plan" and "mset (map fst (map rng fs)) \<subseteq># mset (map fst plan)"
    using set_mset_mono[of "mset (map rng fs)" "mset plan"] image_mset_subseteq_mono[of "mset (map rng fs)" "mset plan" fst]
    by (auto simp flip: mset_map)
  then have "distinct (map fst (map rng fs))"
    using assms(2) by (metis mset_eq_imp_distinct_iff distinct_append mset_append subset_mset.add_diff_inverse ex_mset)
  with sub show ?thesis by (auto simp: commits_of_plan_def comp_def)
qed


section \<open>What the writer promises\<close>

text \<open>
  \<open>kept d f\<close>: the database \<open>d\<close> holds the fetched range \<open>f\<close>, in whatever sense the client
  of the pipeline relies on. The commit of a range establishes it, and no later commit and
  no move of the cursor undoes it.
\<close>

locale range_store =
  fixes cid :: chain_id and kept :: "db \<Rightarrow> fetched_range \<Rightarrow> bool"
  assumes commit_keeps: "commit_range cid f 0 d = (Ok out, d') \<Longrightarrow> kept d' f"
    and commit_stable: "commit_range cid f 0 d = (r, d') \<Longrightarrow> kept d g \<Longrightarrow> kept d' g"
    and cursor_stable: "cursor_advance cid h hs d = (r', d') \<Longrightarrow> kept d g \<Longrightarrow> kept d' g"

definition cursor_inv :: "chain_id \<Rightarrow> cursor_row set \<Rightarrow> (nat \<times> nat) list \<Rightarrow> 'c pipe \<Rightarrow> bool" where
  "cursor_inv cid rows0 plan s \<longleftrightarrow> (\<forall>r \<in> set (cursors (pi_db s)). cu_chain_id r = as_i64 cid \<longrightarrow> r \<in> rows0
     \<or> (\<exists>(lo, hi) \<in> set plan. cu_last_height r = as_i64 hi \<and> hi < pt_frontier (pi_prefix s)))"

text \<open>Once the prefix has grown, the chain's cursor stands right before the frontier.\<close>

definition cursor_at :: "chain_id \<Rightarrow> nat \<Rightarrow> 'c pipe \<Rightarrow> bool" where
  "cursor_at cid start s \<longleftrightarrow> (pt_frontier (pi_prefix s) \<noteq> start \<longrightarrow> (\<exists>r \<in> set (cursors (pi_db s)).
     cu_chain_id r = as_i64 cid \<and> cu_last_height r = as_i64 (pt_frontier (pi_prefix s) - 1)))"

lemma cursor_inv_cong:
  assumes "cursors (pi_db s') = cursors (pi_db s)" and "pi_prefix s' = pi_prefix s"
  shows "cursor_inv cid rows0 plan s' = cursor_inv cid rows0 plan s" and "cursor_at cid start s' = cursor_at cid start s"
  using assms by (simp_all add: cursor_inv_def cursor_at_def)

definition result_inv :: "'c pipe \<Rightarrow> bool" where
  "result_inv s \<longleftrightarrow> (\<forall>po. pi_result s = Some (Ok po) \<longrightarrow> pi_chan s = [] \<and> pi_producer s = Some (po_shutdown po)
     \<and> po_advanced_to po = pt_advanced_to (pi_prefix s))"

definition pipe_inv :: "(db \<Rightarrow> fetched_range \<Rightarrow> bool) \<Rightarrow> 'c drive \<Rightarrow> nat \<Rightarrow> (nat \<times> nat) list \<Rightarrow> cursor_row set
    \<Rightarrow> fetched_range list \<Rightarrow> 'c pipe \<Rightarrow> bool" where
  "pipe_inv kept dr start plan rows0 fs s \<longleftrightarrow> flow_inv dr plan fs s
     \<and> pi_prefix s = prefix_run (map commit_entry fs) (prefix_new start)
     \<and> (\<forall>f \<in> set fs. kept (pi_db s) f) \<and> cursor_inv (cs_chain_id (dr_source dr)) rows0 plan s
     \<and> cursor_at (cs_chain_id (dr_source dr)) start s \<and> result_inv s"

section \<open>Effects of the writer's calls\<close>

lemma commit_range_cases:
  assumes "commit_range cid f e d = (r, d')"
  obtains out fs where "r = Ok out" "d' = (commit_effect (ingest_batch_of cid f e False) d)\<lparr>faults := fs\<rparr>"
      "io_records out = length (fr_records f)"
  | "\<not> is_ok r" "stored d' = stored d"
proof -
  obtain r0 d0 where c: "commit_ingest (ingest_batch_of cid f e False) d = (r0, d0)" by fastforce
  then show thesis
  proof (cases rule: commit_ingest_cases)
    case (1 fs)
    with c assms that(1) show thesis by (auto simp: commit_range_def commit_def bind_def ret_def)
  next
    case 2
    then have "r0 = Panic \<or> (\<exists>e. r0 = Err e)" by (cases r0) auto
    with 2 c assms that(2) show thesis by (auto simp: commit_range_def commit_def bind_def)
  qed
qed

lemma cursor_advance_cases:
  assumes "cursor_advance cid h hs d = (r, d')"
  obtains fs where "r = Ok ()" "d' = (cursor_put (Some (cid, h, hs)) d)\<lparr>faults := fs\<rparr>"
  | "\<not> is_ok r" "stored d' = stored d"
  using assms unfolding cursor_advance_def
proof (cases rule: transaction_cases)
  case (1 x s1)
  then show thesis using that(1) by (auto simp: cursor_advance_in_tx_def cursor_put_def dest!: stmt_OkD)
qed (use that(2) in blast)

lemma enrichment_put_tables: "enrichment_put rows d = tables_put (enrichment_tables rows) d"
  by (simp add: enrichment_put_def tables_put_def)

lemma commit_effect_frames [simp]:
  "cursors (commit_effect (ingest_batch_of cid f e False) d) = cursors d"
  by (simp add: commit_effect_def ingest_batch_of_def cursor_put_def queue_put_def pushed_def block_put_def raw_put_def
      enrichment_put_tables)

lemma commit_range_cursors: "commit_range cid f 0 d = (r, d') \<Longrightarrow> cursors d' = cursors d"
  by (erule commit_range_cases) (auto dest: stored_fields)

section \<open>Facts about the tracker\<close>

lemma tracker_frontier_range:
  assumes "tracker_inv start sp D lb p" and "contiguous start sp e" and "pt_frontier p \<noteq> start"
  shows "\<exists>(lo, hi) \<in> set sp. hi + 1 = pt_frontier p"
proof -
  let ?pre = "takeWhile (\<lambda>r. fst r \<in> D) sp"
  have pre: "contiguous start ?pre (pt_frontier p)"
    using contiguous_committed[OF assms(2), of D] assms(1) by (simp add: tracker_inv_def)
  then have ne: "?pre \<noteq> []" using assms(3) by auto
  then have "last ?pre \<in> set sp" by (meson last_in_set set_takeWhileD)
  moreover have "pt_frontier p = snd (last ?pre) + 1" using contiguous_take_end[OF pre ne] .
  ultimately show ?thesis by (intro bexI[of _ "last ?pre"]) (auto split: prod.splits)
qed

lemma prefix_end_insert:
  "contiguous start sp e \<Longrightarrow> prefix_end start sp D \<le> prefix_end start sp (insert x D)"
  using prefix_end_mono[of D "insert x D" start sp] prefix_end_ge[OF contiguous_open] by fastforce

lemma prefix_end_all: "contiguous start sp e \<Longrightarrow> fst ` set sp \<subseteq> D \<Longrightarrow> prefix_end start sp D = e"
  by (induction start sp e rule: contiguous.induct) auto

text \<open>Below the frontier everything planned was committed.\<close>

lemma tracker_below_frontier:
  assumes "tracker_inv start sp D lb p" and "contiguous start sp e" and "(lo, hi) \<in> set sp" and "hi < pt_frontier p"
  shows "lo \<in> D"
proof (rule ccontr)
  assume "lo \<notin> D"
  then have "(lo, hi) \<notin> set (takeWhile (\<lambda>r. fst r \<in> D) sp)" by (auto dest: set_takeWhileD)
  then have "(lo, hi) \<in> set (dropWhile (\<lambda>r. fst r \<in> D) sp)"
    using assms(3) by (metis Un_iff set_append takeWhile_dropWhile_id)
  then have "pt_frontier p \<le> lo \<and> lo \<le> hi"
    using contiguous_bounds[OF contiguous_open[OF assms(2), of D]] assms(1) by (fastforce simp: tracker_inv_def)
  with assms(4) show False by simp
qed


section \<open>The pipeline keeps its invariant\<close>

context range_store
begin

text \<open>One round of the consumer: the commit, the tracker and the cursor.\<close>

lemma commit_consume_Ok:
  assumes "commit_consume cid f p d = (Ok (p', n), d')"
  shows "p' = snd (prefix_record (fr_from f) (fr_to f) (fr_last_block f) p)" and "kept d' f"
    and "kept d g \<Longrightarrow> kept d' g"
    and "case fst (prefix_record (fr_from f) (fr_to f) (fr_last_block f) p) of
       Returns (Some (h, hs)) \<Rightarrow> cursors d' = put_row cu_chain_id
         \<lparr>cu_chain_id = as_i64 cid, cu_last_height = as_i64 h, cu_last_hash = hs\<rparr> (cursors d)
     | _ \<Rightarrow> cursors d' = cursors d"
proof -
  obtain out d1 where c: "commit_range cid f 0 d = (Ok out, d1)"
    and rest: "(case prefix_record (fr_from f) (fr_to f) (fr_last_block f) p of
         (Panics, p') \<Rightarrow> (\<lambda>d. (Panic, d))
       | (Returns None, p') \<Rightarrow> ret (p', io_records out)
       | (Returns (Some (h, hs)), p') \<Rightarrow> bind (cursor_advance cid h hs) (\<lambda>_. ret (p', io_records out))) d1 = (Ok (p', n), d')"
    using assms unfolding commit_consume_def by (rule bind_OkE)
  have kd1: "kept d1 f" "kept d g \<Longrightarrow> kept d1 g" using commit_keeps[OF c] commit_stable[OF c] by blast+
  show "p' = snd (prefix_record (fr_from f) (fr_to f) (fr_last_block f) p)"
    using rest by (auto elim!: bind_OkE simp: ret_def split: prod.splits outcome.splits option.splits)
  have stable: "kept d1 g \<Longrightarrow> kept d' g" for g
    using rest cursor_stable
    by (auto elim!: bind_OkE simp: ret_def split: prod.splits outcome.splits option.splits)
  from stable kd1 show "kept d' f" and "kept d g \<Longrightarrow> kept d' g" by blast+
  have cur: "cursors d1 = cursors d" using c by (rule commit_range_cursors)
  obtain o1 p1 where pr: "prefix_record (fr_from f) (fr_to f) (fr_last_block f) p = (o1, p1)" by fastforce
  show "case fst (prefix_record (fr_from f) (fr_to f) (fr_last_block f) p) of
       Returns (Some (h, hs)) \<Rightarrow> cursors d' = put_row cu_chain_id
         \<lparr>cu_chain_id = as_i64 cid, cu_last_height = as_i64 h, cu_last_hash = hs\<rparr> (cursors d)
     | _ \<Rightarrow> cursors d' = cursors d"
  proof (cases "o1 = Panics \<or> o1 = Returns None")
    case True
    with rest pr cur show ?thesis by (auto simp: ret_def)
  next
    case False
    then obtain h hs where o1: "o1 = Returns (Some (h, hs))" by (cases o1) auto
    with rest pr have "cursor_advance cid h hs d1 = (Ok (), d')" by (auto elim!: bind_OkE simp: ret_def)
    then show ?thesis by (cases rule: cursor_advance_cases) (simp_all add: pr o1 cursor_put_def cur)
  qed
qed

lemma commit_consume_fails:
  assumes "commit_consume cid f p d = (r, d')" and "\<not> is_ok r"
  shows "kept d g \<Longrightarrow> kept d' g" and "cursors d' = cursors d"
proof -
  obtain r1 d1 where c: "commit_range cid f 0 d = (r1, d1)" by fastforce
  have cur: "cursors d1 = cursors d" using c by (rule commit_range_cursors)
  have "(kept d g \<longrightarrow> kept d' g) \<and> cursors d' = cursors d"
  proof (cases "is_ok r1")
    case False
    with assms(1) c have "d' = d1" by (cases r1) (auto simp: commit_consume_def bind_def)
    with c cur commit_stable show ?thesis by blast
  next
    case True
    then obtain out where "r1 = Ok out" by (auto simp: is_ok_iff)
    with assms(1) c have rest: "(case prefix_record (fr_from f) (fr_to f) (fr_last_block f) p of
         (Panics, p') \<Rightarrow> (\<lambda>d. (Panic, d))
       | (Returns None, p') \<Rightarrow> ret (p', io_records out)
       | (Returns (Some (h, hs)), p') \<Rightarrow> bind (cursor_advance cid h hs) (\<lambda>_. ret (p', io_records out))) d1 = (r, d')"
      by (simp add: commit_consume_def bind_def)
    obtain o1 p1 where pr: "prefix_record (fr_from f) (fr_to f) (fr_last_block f) p = (o1, p1)" by fastforce
    consider "d' = d1" | h hs r2 where "cursor_advance cid h hs d1 = (r2, d')" "\<not> is_ok r2"
      using rest pr assms(2) by (cases o1) (auto simp: ret_def bind_def split: option.splits prod.splits res.splits)
    then show ?thesis
    proof cases
      case 1
      with c cur commit_stable show ?thesis by blast
    next
      case (2 h hs r2)
      from 2 have "stored d' = stored d1" by (cases rule: cursor_advance_cases) auto
      with 2(1) c cur commit_stable cursor_stable show ?thesis by (metis stored_fields(2))
    qed
  qed
  then show "kept d g \<Longrightarrow> kept d' g" and "cursors d' = cursors d" by blast+
qed

lemma receive_fails_inv:
  assumes inv: "pipe_inv kept dr start plan rows0 fs s" and cid: "cs_chain_id (dr_source dr) = cid" and ch: "pi_chan s = f # rest"
    and cc: "commit_consume cid f (pi_prefix s) (pi_db s) = (res, d')" and err: "\<not> is_ok res"
  shows "pipe_inv kept dr start plan rows0 fs (receive dr s) \<and> pi_result (receive dr s) \<noteq> None"
proof -
  define s' where "s' = receive dr s"
  from err cc ch cid have "\<exists>r. s' = s\<lparr>pi_chan := rest, pi_db := d', pi_result := Some r\<rparr> \<and> \<not> is_ok r"
    unfolding s'_def receive_def by (cases res) (auto simp: cid)
  then obtain r where s': "s' = s\<lparr>pi_chan := rest, pi_db := d', pi_result := Some r\<rparr>" and r: "\<not> is_ok r" by blast
  have "owned s' fs \<subseteq># owned s fs" by (simp add: s' owned_def sending_list_def ch)
  then have "flow_inv dr plan fs s'"
    using inv r ch subset_mset.order_trans unfolding flow_inv_def pipe_inv_def
    by (auto simp: s' lossless_def sending_list_def split: res.splits)
  moreover have "cursors d' = cursors (pi_db s)" "\<forall>g \<in> set fs. kept d' g"
    using commit_consume_fails[OF cc err] inv by (auto simp: pipe_inv_def)
  moreover have "cursor_inv cid rows0 plan s' = cursor_inv cid rows0 plan s" "cursor_at cid start s' = cursor_at cid start s"
    by (rule cursor_inv_cong; simp add: s' calculation(2))+
  ultimately show ?thesis using inv r cid unfolding s'_def[symmetric] by (auto simp: pipe_inv_def s' result_inv_def)
qed

lemma cursor_follows_frontier:
  assumes ch: "contiguous start plan e" and cur: "cursor_inv cid rows0 plan s" "cursor_at cid start s"
    and trk: "tracker_inv start plan D lb (pi_prefix s)" "tracker_inv start plan D' lb p"
    and mono: "pt_frontier (pi_prefix s) \<le> pt_frontier p"
    and rows: "cursors d' = (if pt_frontier p = pt_frontier (pi_prefix s) then cursors (pi_db s)
       else put_row cu_chain_id \<lparr>cu_chain_id = as_i64 cid, cu_last_height = as_i64 (pt_frontier p - 1), cu_last_hash = best_hash p\<rparr>
         (cursors (pi_db s)))"
    and s': "s' = s\<lparr>pi_chan := rest, pi_db := d', pi_prefix := p, pi_records := n\<rparr>"
  shows "cursor_inv cid rows0 plan s' \<and> cursor_at cid start s'"
proof (cases "pt_frontier p = pt_frontier (pi_prefix s)")
  case True
  with cur rows show ?thesis by (simp add: cursor_inv_def cursor_at_def s')
next
  case False
  let ?row = "\<lparr>cu_chain_id = as_i64 cid, cu_last_height = as_i64 (pt_frontier p - 1), cu_last_hash = best_hash p\<rparr>"
  have c: "cursors d' = put_row cu_chain_id ?row (cursors (pi_db s))" using rows False by simp
  have ge: "start \<le> pt_frontier (pi_prefix s)" using prefix_end_ge[OF ch] trk(1) by (simp add: tracker_inv_def)
  obtain lo hi where r: "(lo, hi) \<in> set plan" "hi + 1 = pt_frontier p"
    using tracker_frontier_range[OF trk(2) ch] False mono ge by fastforce
  have new: "\<exists>(lo, hi) \<in> set plan. as_i64 (pt_frontier p - 1) = as_i64 hi \<and> hi < pt_frontier p"
    using r(1) by (intro bexI[of _ "(lo, hi)"]) (auto simp flip: r(2))
  have old: "\<exists>(lo, hi) \<in> set plan. h = as_i64 hi \<and> hi < pt_frontier p"
    if "\<exists>(lo, hi) \<in> set plan. h = as_i64 hi \<and> hi < pt_frontier (pi_prefix s)" for h
    using that mono by fastforce
  have "cursor_at cid start s'" by (auto simp: cursor_at_def s' c put_row_mem intro!: bexI[where x = ?row])
  then show ?thesis using cur(1) new old by (auto simp: cursor_inv_def s' c put_row_mem)
qed

lemma receive_commits_inv:
  assumes inv: "pipe_inv kept dr start plan rows0 fs s" and ch: "contiguous start plan e" and e: "e < 2 ^ 64"
    and cid: "cs_chain_id (dr_source dr) = cid" and running: "pi_result s = None" and chan: "pi_chan s = f # rest"
    and cc: "commit_consume cid f (pi_prefix s) (pi_db s) = (Ok (p, n), d')"
  shows "pipe_inv kept dr start plan rows0 (fs @ [f]) (receive dr s)"
proof -
  let ?fs = "fs @ [f]"
  have flow: "flow_inv dr plan fs s" and pre: "pi_prefix s = prefix_run (map commit_entry fs) (prefix_new start)"
    and kept: "\<forall>g \<in> set fs. kept (pi_db s) g" and cur: "cursor_inv cid rows0 plan s" "cursor_at cid start s"
    using inv cid by (simp_all add: pipe_inv_def)
  note ok = commit_consume_Ok[OF cc]
  define s' where "s' = s\<lparr>pi_chan := rest, pi_db := d', pi_prefix := p, pi_records := pi_records s + n\<rparr>"
  have recv: "receive dr s = s'" using cc chan by (simp add: receive_def cid s'_def)
  have "owned s' ?fs = owned s fs" by (simp add: s'_def owned_def sending_list_def chan ac_simps)
  then have flow': "flow_inv dr plan ?fs s'"
    using flow chan unfolding flow_inv_def by (auto simp: s'_def lossless_def sending_list_def)
  have cp: "commits_of_plan plan (map commit_entry ?fs)" using flow' contiguous_distinct[OF ch] by (rule flow_inv_commits)
  let ?lb = "last_block_of (map commit_entry ?fs)" and ?D = "fst ` set (map commit_entry fs)"
  have trk: "tracker_inv start plan ?D ?lb (pi_prefix s)"
    unfolding pre
    by (rule prefix_run_inv[OF ch e]) (use cp commits_last_block[OF cp] in \<open>auto simp: commits_of_plan_def\<close>)
  have f: "rng f \<in> set plan" "fr_from f \<notin> ?D" "?lb (fr_from f) = fr_last_block f"
    using cp commits_last_block[OF cp] by (auto simp: commits_of_plan_def comp_def)
  obtain o1 where pr: "prefix_record (fr_from f) (fr_to f) (?lb (fr_from f)) (pi_prefix s) = (o1, p)"
    using ok(1) unfolding f(3) by (metis prod.collapse)
  note trk' = tracker_inv_record[OF ch e trk f(1,2) pr]
  have mono: "pt_frontier (pi_prefix s) \<le> pt_frontier p"
    using trk trk'(1) prefix_end_insert[OF ch, of ?D "fr_from f"] by (simp add: tracker_inv_def)
  have "cursors d' = (if pt_frontier p = pt_frontier (pi_prefix s) then cursors (pi_db s)
       else put_row cu_chain_id \<lparr>cu_chain_id = as_i64 cid, cu_last_height = as_i64 (pt_frontier p - 1), cu_last_hash = best_hash p\<rparr>
         (cursors (pi_db s)))"
    using ok(4) trk'(2) pr unfolding f(3) by (simp split: if_splits)
  from cursor_follows_frontier[OF ch cur trk trk'(1) mono this s'_def]
  have "cursor_inv cid rows0 plan s' \<and> cursor_at cid start s'" .
  moreover have "p = prefix_run (map commit_entry ?fs) (prefix_new start)"
    using ok(1) by (simp add: prefix_run_snoc pre)
  ultimately show ?thesis unfolding recv
    using flow' ok(2,3) kept cid running by (auto simp: pipe_inv_def s'_def result_inv_def)
qed

lemma receive_inv:
  assumes inv: "pipe_inv kept dr start plan rows0 fs s" and ch: "contiguous start plan e" and e: "e < 2 ^ 64"
    and cid: "cs_chain_id (dr_source dr) = cid" and running: "pi_result s = None"
  shows "\<exists>fs'. pipe_inv kept dr start plan rows0 fs' (receive dr s)
     \<and> (fs' = fs \<and> (receive dr s = s \<or> pi_result (receive dr s) \<noteq> None) \<or> (\<exists>f rest. pi_chan s = f # rest \<and> fs' = fs @ [f]))"
proof (cases "pi_chan s")
  case Nil
  with inv show ?thesis by (auto simp: receive_def)
next
  case (Cons f rest)
  obtain res d' where cc: "commit_consume cid f (pi_prefix s) (pi_db s) = (res, d')" by fastforce
  show ?thesis
  proof (cases res)
    case (Ok x)
    then obtain p n where "res = Ok (p, n)" by (cases x) auto
    from receive_commits_inv[OF inv ch e cid running Cons cc[unfolded this]] Cons show ?thesis by auto
  qed (use receive_fails_inv[OF inv cid Cons cc] in auto)
qed

lemma pipe_step_inv:
  assumes inv: "pipe_inv kept dr start plan rows0 fs s" and "contiguous start plan e" and "e < 2 ^ 64"
    and "cs_chain_id (dr_source dr) = cid"
  shows "\<exists>fs'. pipe_inv kept dr start plan rows0 fs' (pipe_step dr a s)
     \<and> (fs' = fs \<and> (pi_db (pipe_step dr a s) = pi_db s \<or> pi_result (pipe_step dr a s) \<noteq> None)
         \<or> (\<exists>f rest. pi_chan s = f # rest \<and> fs' = fs @ [f] \<and> pi_result s = None))"
proof (cases "pi_result s")
  case running: None
  have frames: "pi_prefix s' = pi_prefix s \<Longrightarrow> pi_db s' = pi_db s \<Longrightarrow> flow_inv dr plan fs s' \<Longrightarrow> result_inv s' \<Longrightarrow>
      pipe_inv kept dr start plan rows0 fs s'" for s'
    using inv cursor_inv_cong[of s' s] by (simp add: pipe_inv_def)
  have flow: "flow_inv dr plan fs s" using inv by (simp add: pipe_inv_def)
  show ?thesis
  proof (cases a)
    case StartFetch
    have "pipe_inv kept dr start plan rows0 fs (start_fetch dr s)"
      using running flow_inv_start[OF flow] by (intro frames) (auto simp: start_fetch_def result_inv_def split: list.splits)
    moreover have "pi_db (start_fetch dr s) = pi_db s" by (simp add: start_fetch_def split: list.split option.split)
    ultimately show ?thesis using running by (auto simp: pipe_step_def StartFetch)
  next
    case (FinishFetch i)
    have "pipe_inv kept dr start plan rows0 fs (finish_fetch dr i s)"
      using running flow_inv_finish[OF flow running, of i]
      by (intro frames) (auto simp: finish_fetch_def Let_def result_inv_def split: prod.splits res.splits)
    moreover have "pi_db (finish_fetch dr i s) = pi_db s" by (simp add: finish_fetch_def Let_def split: prod.split res.split)
    ultimately show ?thesis using running by (auto simp: pipe_step_def FinishFetch)
  next
    case SendFetched
    have "pipe_inv kept dr start plan rows0 fs (send_fetched dr s)"
      using running flow_inv_send[OF flow] by (intro frames) (auto simp: send_fetched_def result_inv_def split: option.splits)
    moreover have "pi_db (send_fetched dr s) = pi_db s" by (simp add: send_fetched_def split: list.split option.split)
    ultimately show ?thesis using running by (auto simp: pipe_step_def SendFetched)
  next
    case EndProducer
    have "pipe_inv kept dr start plan rows0 fs (end_producer s)"
      using running flow_inv_end[OF flow] by (intro frames) (auto simp: end_producer_def result_inv_def)
    moreover have "pi_db (end_producer s) = pi_db s" by (simp add: end_producer_def split: list.split option.split)
    ultimately show ?thesis using running by (auto simp: pipe_step_def EndProducer)
  next
    case Receive
    with running receive_inv[OF assms running] show ?thesis by (auto simp: pipe_step_def)
  next
    case Join
    have "pipe_inv kept dr start plan rows0 fs (join_halves s)"
      using running flow_inv_join[OF running flow] by (intro frames) (auto simp: join_halves_def result_inv_def split: option.splits)
    moreover have "pi_db (join_halves s) = pi_db s" by (simp add: join_halves_def split: list.split option.split)
    ultimately show ?thesis using running by (auto simp: pipe_step_def Join)
  next
    case CancelToken
    have "pipe_inv kept dr start plan rows0 fs (s\<lparr>pi_cancelled := True\<rparr>)"
      using running flow
      by (intro frames) (auto simp: result_inv_def flow_inv_def owned_def lossless_def sending_list_def)
    then show ?thesis using running by (auto simp: pipe_step_def CancelToken)
  qed
next
  case (Some r)
  then show ?thesis using inv by (auto simp: pipe_step_def)
qed

lemma pipe_run_inv:
  assumes "pipe_inv kept dr start plan rows0 fs s" and "contiguous start plan e" and "e < 2 ^ 64"
    and "cs_chain_id (dr_source dr) = cid"
  shows "\<exists>fs'. pipe_inv kept dr start plan rows0 fs' (fold (pipe_step dr) acts s)"
  using assms(1)
proof (induction acts arbitrary: fs s)
  case (Cons a acts)
  from pipe_step_inv[OF Cons.prems assms(2-4), of a] Cons.IH show ?case by auto
qed auto

text \<open>The initial state, and what a state that satisfies the invariant has stored.\<close>

lemma pipe_init_inv:
  assumes "pipe_init start target step c d = Some s" and "plan_ranges start target step = Some plan"
  shows "pipe_inv kept dr start plan (set (cursors d)) [] s"
  using assms by (auto simp: pipe_init_def pipe_inv_def flow_inv_def owned_def sending_list_def lossless_def
      cursor_inv_def cursor_at_def result_inv_def prefix_run_def prefix_new_def)

lemma pipe_inv_tracker:
  assumes "pipe_inv kept dr start plan rows0 fs s" and ch: "contiguous start plan e" and "e < 2 ^ 64"
  shows "tracker_inv start plan (fr_from ` set fs) (last_block_of (map commit_entry fs)) (pi_prefix s)"
    and "\<And>lo hi. (lo, hi) \<in> set plan \<Longrightarrow> lo \<in> fr_from ` set fs \<Longrightarrow> \<exists>f \<in> set fs. rng f = (lo, hi)"
proof -
  have flow: "flow_inv dr plan fs s" and pre: "pi_prefix s = prefix_run (map commit_entry fs) (prefix_new start)"
    using assms(1) by (simp_all add: pipe_inv_def)
  have dist: "distinct (map fst plan)" using ch by (rule contiguous_distinct)
  have cp: "commits_of_plan plan (map commit_entry fs)" using flow dist by (rule flow_inv_commits)
  have "tracker_inv start plan (fst ` set (map commit_entry fs)) (last_block_of (map commit_entry fs)) (pi_prefix s)"
    unfolding pre
    by (rule prefix_run_inv[OF ch assms(3)]) (use cp commits_last_block[OF cp] in \<open>auto simp: commits_of_plan_def\<close>)
  then show "tracker_inv start plan (fr_from ` set fs) (last_block_of (map commit_entry fs)) (pi_prefix s)"
    by (simp add: image_image)
  show "\<exists>f \<in> set fs. rng f = (lo, hi)" if lo: "(lo, hi) \<in> set plan" "lo \<in> fr_from ` set fs" for lo hi
  proof -
    from lo(2) obtain f where f: "f \<in> set fs" "fr_from f = lo" by blast
    with cp have "(lo, fr_to f) \<in> set plan" by (auto simp: commits_of_plan_def)
    with lo(1) dist have "fr_to f = hi" by (meson eq_key_imp_eq_value)
    with f show ?thesis by auto
  qed
qed

lemma cursor_covers:
  assumes inv: "pipe_inv kept dr start plan rows0 fs s" and ch: "contiguous start plan e" and e: "e < 2 ^ 64"
    and r: "r \<in> set (cursors (pi_db s))" "cu_chain_id r = as_i64 (cs_chain_id (dr_source dr))" "r \<notin> rows0"
  shows "\<exists>hi. cu_last_height r = as_i64 hi \<and> hi \<in> snd ` set plan
     \<and> (\<forall>(lo', hi') \<in> set plan. hi' \<le> hi \<longrightarrow> (\<exists>f. rng f = (lo', hi') \<and> was_fetched dr f \<and> kept (pi_db s) f))"
proof -
  obtain lo hi where hi: "(lo, hi) \<in> set plan" "cu_last_height r = as_i64 hi" "hi < pt_frontier (pi_prefix s)"
    using inv r by (fastforce simp: pipe_inv_def cursor_inv_def)
  note trk = pipe_inv_tracker[OF inv ch e]
  have "\<exists>f. rng f = (lo', hi') \<and> was_fetched dr f \<and> kept (pi_db s) f" if "(lo', hi') \<in> set plan" "hi' \<le> hi" for lo' hi'
  proof -
    have "lo' \<in> fr_from ` set fs" using tracker_below_frontier[OF trk(1) ch that(1)] that(2) hi(3) by simp
    from trk(2)[OF that(1) this] obtain f where "f \<in> set fs" "rng f = (lo', hi')" by blast
    then show ?thesis using inv by (auto simp: pipe_inv_def flow_inv_def)
  qed
  with hi show ?thesis by (intro exI[of _ hi]) force
qed

lemma completed_drive:
  assumes inv: "pipe_inv kept dr start plan rows0 fs s" and ch: "contiguous start plan (t + 1)" and e: "t + 1 < 2 ^ 64"
    and "start \<le> t" and r: "pi_result s = Some (Ok po)" "\<not> po_shutdown po"
  shows "po_advanced_to po = Some t
     \<and> (\<exists>r \<in> set (cursors (pi_db s)). cu_chain_id r = as_i64 (cs_chain_id (dr_source dr)) \<and> cu_last_height r = as_i64 t)
     \<and> (\<forall>(lo, hi) \<in> set plan. \<exists>f. rng f = (lo, hi) \<and> was_fetched dr f \<and> kept (pi_db s) f)"
proof -
  have pr: "pi_producer s = Some False" "pi_chan s = []" and adv: "po_advanced_to po = pt_advanced_to (pi_prefix s)"
    using inv r by (auto simp: pipe_inv_def result_inv_def)
  have flow: "flow_inv dr plan fs s" using inv by (simp add: pipe_inv_def)
  then have "mset (map rng fs) = mset plan"
    using pr r by (auto simp: flow_inv_def owned_def lossless_def sending_list_def)
  then have all: "set plan = rng ` set fs" by (metis mset_eq_setD set_map)
  then have "fst ` set plan = fr_from ` set fs" by (simp add: image_image)
  then have "prefix_end start plan (fr_from ` set fs) = t + 1"
    using ch by (intro prefix_end_all) auto
  then have fr: "pt_frontier (pi_prefix s) = t + 1" and "pt_advanced_to (pi_prefix s) = Some t"
    using pipe_inv_tracker(1)[OF inv ch e] assms(4) by (simp_all add: tracker_inv_def)
  moreover have "\<exists>r \<in> set (cursors (pi_db s)). cu_chain_id r = as_i64 (cs_chain_id (dr_source dr)) \<and> cu_last_height r = as_i64 t"
    using inv fr assms(4) by (auto simp: pipe_inv_def cursor_at_def)
  moreover have "\<exists>f. rng f = (lo, hi) \<and> was_fetched dr f \<and> kept (pi_db s) f" if "(lo, hi) \<in> set plan" for lo hi
  proof -
    from that all obtain f where "f \<in> set fs" "rng f = (lo, hi)" by auto
    then show ?thesis using inv by (auto simp: pipe_inv_def flow_inv_def)
  qed
  ultimately show ?thesis by (auto simp: adv)
qed

end


section \<open>Stored and queued\<close>

text \<open>What a commit promises on its own: the records are stored and the range is queued for
  decoding.\<close>

definition range_item :: "chain_id \<Rightarrow> fetched_range \<Rightarrow> work_item" where
  "range_item cid f = \<lparr>wi_chain_id = cid, wi_from = fr_from f, wi_to = fr_to f, wi_kind = Backfill, wi_epoch = 0\<rparr>"

definition stored_raw :: "db \<Rightarrow> raw_record list \<Rightarrow> bool" where
  "stored_raw d recs \<longleftrightarrow> (\<forall>rec \<in> set recs. raw_key (raw_row_of rec) \<in> raw_key ` set (raw_records d))"

definition is_queued :: "db \<Rightarrow> work_item \<Rightarrow> bool" where
  "is_queued d it \<longleftrightarrow> item_key it \<in> queue_key ` set (work_queue d)"

definition stored_and_queued :: "chain_id \<Rightarrow> db \<Rightarrow> fetched_range \<Rightarrow> bool" where
  "stored_and_queued cid d f \<longleftrightarrow> stored_raw d (fr_records f) \<and> (fr_records f \<noteq> [] \<longrightarrow> is_queued d (range_item cid f))"

lemma raw_put_keys: "raw_key ` set (raw_records (raw_put rs d)) = raw_key ` set (raw_records d) \<union> (raw_key \<circ> raw_row_of) ` set rs"
  using insert_nothing_keys[of raw_key "map raw_row_of rs" "raw_records d"]
  by (auto simp: raw_put_def image_comp prod_eq_iff)

lemma pushed_keys: "queue_key ` set (work_queue (pushed it d)) = insert (item_key it) (queue_key ` set (work_queue d))"
proof -
  have "queue_key (queue_row_of i it) = item_key it" for i by (simp add: queue_key_def queue_row_of_def item_key_def)
  then show ?thesis
    using insert_nothing_keys[of queue_key "[queue_row_of (queue_next_id d) it]" "work_queue d"]
    by (auto simp: pushed_def prod_eq_iff)
qed

lemma commit_effect_raw:
  "raw_key ` set (raw_records (commit_effect (ingest_batch_of cid f e False) d)) =
     raw_key ` set (raw_records d) \<union> (raw_key \<circ> raw_row_of) ` set (fr_records f)"
  by (simp add: commit_effect_def ingest_batch_of_def raw_put_keys block_put_def)

lemma commit_effect_queue:
  "queue_key ` set (work_queue (commit_effect (ingest_batch_of cid f 0 False) d)) =
     queue_key ` set (work_queue d) \<union> (if fr_records f = [] then {} else {item_key (range_item cid f)})"
  by (simp add: commit_effect_def ingest_batch_of_def queue_put_def pushed_keys range_item_def enrichment_put_tables
      block_put_def raw_put_def)

lemma stored_and_queued_cong:
  "raw_records d' = raw_records d \<Longrightarrow> work_queue d' = work_queue d \<Longrightarrow> stored_and_queued cid d' f = stored_and_queued cid d f"
  by (simp add: stored_and_queued_def stored_raw_def is_queued_def)

interpretation queued: range_store cid "stored_and_queued cid" for cid
proof
  fix f d out d' assume "commit_range cid f 0 d = (Ok out, d')"
  then show "stored_and_queued cid d' f"
    by (cases rule: commit_range_cases)
      (auto simp: stored_and_queued_def stored_raw_def is_queued_def commit_effect_raw commit_effect_queue)
next
  fix f d r d' g assume "commit_range cid f 0 d = (r, d')" and g: "stored_and_queued cid d g"
  then show "stored_and_queued cid d' g"
  proof (cases rule: commit_range_cases)
    case (1 out fs)
    with g show ?thesis
      by (auto simp: stored_and_queued_def stored_raw_def is_queued_def commit_effect_raw commit_effect_queue)
  next
    case 2
    with g stored_and_queued_cong[OF stored_fields(3)[OF 2(2)] stored_fields(4)[OF 2(2)]] show ?thesis by simp
  qed
next
  fix h hs d r d' g assume "cursor_advance cid h hs d = (r :: (domain_error, unit) res, d')" and g: "stored_and_queued cid d g"
  then show "stored_and_queued cid d' g"
  proof (cases rule: cursor_advance_cases)
    case (1 fs)
    with g stored_and_queued_cong[of d' d cid g] show ?thesis by (simp add: cursor_put_def)
  next
    case 2
    with g stored_and_queued_cong[OF stored_fields(3)[OF 2(2)] stored_fields(4)[OF 2(2)]] show ?thesis by simp
  qed
qed

lemma fetch_range_records:
  "fetch_range cs filt lo hi c = (Ok f, c') \<Longrightarrow> \<exists>c1. cs_fetch_records cs filt lo hi c = (Ok (fr_records f), c1)"
  by (auto simp: fetch_range_def ret_def elim!: bind_OkE)

section \<open>Properties\<close>

text \<open>
  The log feed of a drive: whenever the source answers a range of heights that the database's
  columns can hold, it answers with the logs of that range, the function \<open>logs\<close>.
\<close>

definition feeds :: "'c drive \<Rightarrow> (nat \<Rightarrow> nat \<Rightarrow> raw_record list) \<Rightarrow> bool" where
  "feeds dr logs \<longleftrightarrow> (\<forall>lo hi c recs c'. hi < 2 ^ 63 \<longrightarrow> cs_fetch_records (dr_source dr) (dr_filter dr) lo hi c = (Ok recs, c') \<longrightarrow> recs = logs lo hi)"

lemma was_fetched_feeds: "was_fetched dr f \<Longrightarrow> feeds dr logs \<Longrightarrow> fr_to f < 2 ^ 63 \<Longrightarrow> fr_records f = logs (fr_from f) (fr_to f)"
  unfolding was_fetched_def feeds_def using fetch_range_records by fast

text \<open>
  C7. The cursor of a concurrent drive never runs ahead of the data. Take any interleaving of the
  fetches, the channel, the writer and a cancellation, any failure of the source or of a
  statement, and stop it anywhere. If the drive moved the chain's cursor, the cursor is at
  the end of a planned range, and for every planned range up to there all logs of the range
  are stored and, if there are any, the range is queued for decoding.
\<close>

theorem pipeline_cursor_covers:
  assumes "0 < step" and "target + step < 2 ^ 63" and "next \<le> target + 1"
    and "run_pipeline dr acts next target step c d = Some s" and "feeds dr logs"
    and "cid = cs_chain_id (dr_source dr)"
    and "r \<in> set (cursors (pi_db s))" and "cu_chain_id r = as_i64 cid" and "r \<notin> set (cursors d)"
  shows "\<exists>hi. cu_last_height r = as_i64 hi \<and> hi \<in> snd ` set (spans next target step)
     \<and> (\<forall>(lo', hi') \<in> set (spans next target step). hi' \<le> hi \<longrightarrow>
          stored_raw (pi_db s) (logs lo' hi')
          \<and> (logs lo' hi' \<noteq> [] \<longrightarrow> is_queued (pi_db s)
               \<lparr>wi_chain_id = cid, wi_from = lo', wi_to = hi', wi_kind = Backfill, wi_epoch = 0\<rparr>))"
proof -
  let ?plan = "spans next target step"
  have plan: "plan_ranges next target step = Some ?plan" using assms(1,2) by (simp add: plan_ranges_spans)
  have ch: "contiguous next ?plan (target + 1)" using assms(1,3) by (rule contiguous_spans)
  have e: "target + 1 < 2 ^ 64" using assms(1,2) by simp
  obtain s0 where s0: "pipe_init next target step c d = Some s0" "s = fold (pipe_step dr) acts s0"
    using assms(4) by (auto simp: run_pipeline_def)
  obtain fs where inv: "pipe_inv (stored_and_queued cid) dr next ?plan (set (cursors d)) fs s"
    using queued.pipe_run_inv[OF queued.pipe_init_inv[OF s0(1) plan] ch e assms(6)[symmetric]] unfolding s0(2) by blast
  obtain hi where hi: "cu_last_height r = as_i64 hi" "hi \<in> snd ` set ?plan"
    and cov: "\<forall>(lo', hi') \<in> set ?plan. hi' \<le> hi \<longrightarrow>
        (\<exists>f. rng f = (lo', hi') \<and> was_fetched dr f \<and> stored_and_queued cid (pi_db s) f)"
    using queued.cursor_covers[OF inv ch e assms(7) assms(8)[unfolded assms(6)] assms(9)] by (elim exE conjE)
  have "stored_raw (pi_db s) (logs lo' hi') \<and> (logs lo' hi' \<noteq> [] \<longrightarrow> is_queued (pi_db s)
          \<lparr>wi_chain_id = cid, wi_from = lo', wi_to = hi', wi_kind = Backfill, wi_epoch = 0\<rparr>)"
    if pl: "(lo', hi') \<in> set ?plan" "hi' \<le> hi" for lo' hi'
  proof -
    obtain f where f: "rng f = (lo', hi')" "was_fetched dr f" "stored_and_queued cid (pi_db s) f"
      using bspec[OF cov pl(1)] pl(2) by auto
    have "hi' < 2 ^ 63" using spans_width[OF pl(1)] assms(2) by simp
    then have "fr_records f = logs lo' hi'" using was_fetched_feeds[OF f(2) assms(5)] f(1) by simp
    with f show ?thesis by (auto simp: stored_and_queued_def range_item_def)
  qed
  with hi show ?thesis by (intro exI[of _ hi]) auto
qed


text \<open>
  C8. A drive that returns without being stopped is complete: it reports the target as its
  progress, the chain's cursor stands at the target, and every planned range is stored and,
  where it has logs, queued.
\<close>

theorem pipeline_completes:
  assumes "0 < step" and "target + step < 2 ^ 63" and "next \<le> target"
    and "run_pipeline dr acts next target step c d = Some s" and "feeds dr logs"
    and "cid = cs_chain_id (dr_source dr)"
    and "pi_result s = Some (Ok po)" and "\<not> po_shutdown po"
  shows "po_advanced_to po = Some target
     \<and> (\<exists>r \<in> set (cursors (pi_db s)). cu_chain_id r = as_i64 cid \<and> cu_last_height r = as_i64 target)
     \<and> (\<forall>(lo, hi) \<in> set (spans next target step).
          stored_raw (pi_db s) (logs lo hi)
          \<and> (logs lo hi \<noteq> [] \<longrightarrow> is_queued (pi_db s)
               \<lparr>wi_chain_id = cid, wi_from = lo, wi_to = hi, wi_kind = Backfill, wi_epoch = 0\<rparr>))"
proof -
  let ?plan = "spans next target step"
  have plan: "plan_ranges next target step = Some ?plan" using assms(1,2) by (simp add: plan_ranges_spans)
  have ch: "contiguous next ?plan (target + 1)" using assms(1,3) by (intro contiguous_spans) simp_all
  have e: "target + 1 < 2 ^ 64" using assms(1,2) by simp
  obtain s0 where s0: "pipe_init next target step c d = Some s0" "s = fold (pipe_step dr) acts s0"
    using assms(4) by (auto simp: run_pipeline_def)
  obtain fs where inv: "pipe_inv (stored_and_queued cid) dr next ?plan (set (cursors d)) fs s"
    using queued.pipe_run_inv[OF queued.pipe_init_inv[OF s0(1) plan] ch e assms(6)[symmetric]] unfolding s0(2) by blast
  note fin = queued.completed_drive[OF inv ch e assms(3,7,8)]
  have "stored_raw (pi_db s) (logs lo hi) \<and> (logs lo hi \<noteq> [] \<longrightarrow> is_queued (pi_db s)
          \<lparr>wi_chain_id = cid, wi_from = lo, wi_to = hi, wi_kind = Backfill, wi_epoch = 0\<rparr>)"
    if pl: "(lo, hi) \<in> set ?plan" for lo hi
  proof -
    obtain f where f: "rng f = (lo, hi)" "was_fetched dr f" "stored_and_queued cid (pi_db s) f"
      using bspec[OF conjunct2[OF conjunct2[OF fin]] pl] by auto
    have "hi < 2 ^ 63" using spans_width[OF pl] assms(2) by simp
    then have "fr_records f = logs lo hi" using was_fetched_feeds[OF f(2) assms(5)] f(1) by simp
    with f show ?thesis by (auto simp: stored_and_queued_def range_item_def)
  qed
  with fin assms(6) show ?thesis by auto
qed

section \<open>Termination\<close>

text \<open>The work left: four steps for a range that is not started, down to one in the channel.\<close>

definition work_left :: "'c pipe \<Rightarrow> nat" where
  "work_left s = 4 * length (pi_todo s) + 3 * length (pi_inflight s) + 2 * length (sending_list s) + length (pi_chan s)
     + (if pi_producer s = None then 1 else 0) + (if pi_result s = None then 1 else 0)"

lemma drop_nth_length: "i < length xs \<Longrightarrow> length xs = Suc (length (drop_nth i xs))"
  by (simp add: drop_nth_def)

lemma pipe_step_work:
  assumes "a \<noteq> CancelToken" and "pipe_step dr a s \<noteq> s"
  shows "work_left (pipe_step dr a s) < work_left s"
proof -
  have n: "pi_result s = None" using assms(2) by (auto simp: pipe_step_def split: if_splits)
  with assms show ?thesis
  proof (cases a)
    case (FinishFetch i)
    with assms n have p: "polling s" "i < length (pi_inflight s)"
      by (auto simp: pipe_step_def finish_fetch_def split: if_splits)
    then show ?thesis
      using n drop_nth_length[of i "pi_inflight s"] FinishFetch
      by (auto simp: pipe_step_def finish_fetch_def work_left_def sending_list_def polling_def Let_def
          split: prod.splits res.splits)
  qed (auto simp: pipe_step_def work_left_def sending_list_def start_fetch_def send_fetched_def end_producer_def
      receive_def join_halves_def polling_def split: list.splits option.splits prod.splits res.splits if_splits)
qed

lemma cancel_work [simp]: "work_left (pipe_step dr CancelToken s) = work_left s"
  by (simp add: pipe_step_def work_left_def sending_list_def)

lemma not_stuck:
  assumes "pi_result s = None"
  shows "\<exists>a. a \<noteq> CancelToken \<and> pipe_step dr a s \<noteq> s"
proof -
  have recv: "pipe_step dr Receive s \<noteq> s" if "pi_chan s \<noteq> []"
    using assms that
    by (cases "pi_chan s") (auto simp: pipe_step_def receive_def dest!: arg_cong[of _ s pi_chan] split: prod.splits res.splits)
  show ?thesis
  proof (cases "pi_producer s")
    case (Some b)
    have "pipe_step dr Join s \<noteq> s" if "pi_chan s = []"
      using that assms Some by (auto simp: pipe_step_def join_halves_def dest!: arg_cong[of _ s pi_result])
    with recv show ?thesis by (cases "pi_chan s = []") blast+
  next
    case None
    show ?thesis
    proof (cases "pi_sending s")
      case (Some f)
      show ?thesis
      proof (cases "length (pi_chan s) < max (dr_conc dr) 1 * 2")
        case True
        then have "pipe_step dr SendFetched s \<noteq> s"
          using assms Some by (auto simp: pipe_step_def send_fetched_def dest!: arg_cong[of _ s pi_sending])
        then show ?thesis by blast
      next
        case False
        then have "pi_chan s \<noteq> []" by auto
        with recv show ?thesis by blast
      qed
    next
      case no_send: None
      have p: "polling s" using None no_send by (simp add: polling_def)
      show ?thesis
      proof (cases "pi_inflight s")
        case (Cons r rs)
        have "pi_inflight (finish_fetch dr 0 s) \<noteq> pi_inflight s"
          using p Cons by (auto simp: finish_fetch_def drop_nth_def Let_def split: prod.splits res.splits)
        then show ?thesis using assms by (intro exI[of _ "FinishFetch 0"]) (auto simp: pipe_step_def)
      next
        case Nil
        show ?thesis
        proof (cases "pi_todo s")
          case todo: Nil
          have "pi_producer (end_producer s) \<noteq> pi_producer s" using p Nil todo None by (simp add: end_producer_def)
          then show ?thesis using assms by (intro exI[of _ EndProducer]) (auto simp: pipe_step_def)
        next
          case (Cons r rs)
          have "pi_todo (start_fetch dr s) \<noteq> pi_todo s" using p Nil Cons by (auto simp: start_fetch_def)
          then show ?thesis using assms by (intro exI[of _ StartFetch]) (auto simp: pipe_step_def)
        qed
      qed
    qed
  qed
qed

text \<open>The number of actions of a schedule that changed the state, cancellations aside.\<close>

fun progress :: "'c drive \<Rightarrow> pipe_action list \<Rightarrow> 'c pipe \<Rightarrow> nat" where
  "progress dr [] s = 0"
| "progress dr (a # acts) s =
     (if a \<noteq> CancelToken \<and> pipe_step dr a s \<noteq> s then 1 else 0) + progress dr acts (pipe_step dr a s)"

lemma progress_bound: "progress dr acts s + work_left (fold (pipe_step dr) acts s) \<le> work_left s"
proof (induction acts arbitrary: s)
  case (Cons a acts)
  have "(if a \<noteq> CancelToken \<and> pipe_step dr a s \<noteq> s then 1 else 0) + work_left (pipe_step dr a s) \<le> work_left s"
    using pipe_step_work[of a dr s] by (cases "a = CancelToken") (auto simp: Suc_le_eq)
  with Cons.IH[of "pipe_step dr a s"] show ?case by simp
qed simp

text \<open>
  C9. A drive always comes to an end. Whatever the order of the actions, at most four per
  planned range and two more make progress, and a drive that has not returned can always
  make progress: it neither runs forever nor gets stuck on a full channel, a fetch that
  failed or a cancellation.
\<close>

theorem pipeline_terminates:
  assumes "0 < step" and "target + step < 2 ^ 64"
    and "pipe_init next target step c d = Some s0"
  shows "progress dr acts s0 \<le> 4 * length (spans next target step) + 2
     \<and> (pi_result (fold (pipe_step dr) acts s0) = None \<longrightarrow>
          (\<exists>a. progress dr (acts @ [a]) s0 = Suc (progress dr acts s0)))"
proof -
  have plan: "plan_ranges next target step = Some (spans next target step)" using assms(1,2) by (simp add: plan_ranges_spans)
  have "work_left s0 = 4 * length (spans next target step) + 2"
    using assms(3) plan by (auto simp: pipe_init_def work_left_def sending_list_def)
  moreover have snoc: "progress dr (acts @ [a]) s = progress dr acts s + progress dr [a] (fold (pipe_step dr) acts s)" for a acts s
    by (induction acts arbitrary: s) auto
  have "\<exists>a. progress dr (acts @ [a]) s0 = Suc (progress dr acts s0)"
    if none: "pi_result (fold (pipe_step dr) acts s0) = None"
  proof -
    obtain a where "a \<noteq> CancelToken" "pipe_step dr a (fold (pipe_step dr) acts s0) \<noteq> fold (pipe_step dr) acts s0"
      using not_stuck[OF none] by blast
    then show ?thesis by (intro exI[of _ a]) (simp add: snoc)
  qed
  ultimately show ?thesis using progress_bound[of dr acts s0] by fastforce
qed


section \<open>A drive\<close>

text \<open>Two ranges, the later one committed first; block 9 has one log.\<close>

definition demo_logs :: "nat \<Rightarrow> nat \<Rightarrow> raw_record list" where
  "demo_logs lo hi = (if lo \<le> 9 \<and> 9 \<le> hi then [demo_raw 9 0] else [])"

definition demo_drive :: "unit drive" where
  "demo_drive = \<lparr>dr_source = demo_chain\<lparr>cs_fetch_records := (\<lambda>_ lo hi. ret (demo_logs lo hi))\<rparr>,
     dr_filter = \<lparr>rf_addresses = [], rf_selectors = []\<rparr>, dr_conc = 4, dr_exhausted = (\<lambda>_. False)\<rparr>"

definition demo_acts :: "pipe_action list" where
  "demo_acts = [StartFetch, StartFetch, FinishFetch 1, SendFetched, FinishFetch 0, SendFetched, EndProducer, Receive, Receive, Join]"

definition demo_fetched :: "nat \<Rightarrow> nat \<Rightarrow> fetched_range" where
  "demo_fetched lo hi = \<lparr>fr_from = lo, fr_to = hi, fr_records = demo_logs lo hi, fr_aux = aux_data_default, fr_last_block = None\<rparr>"

lemma demo_feeds: "feeds demo_drive demo_logs"
  by (simp add: feeds_def demo_drive_def ret_def)

lemma demo_fetch_range: "fetch_range (dr_source demo_drive) filt lo hi () = (Ok (demo_fetched lo hi), ())"
  by (simp add: fetch_range_def demo_drive_def demo_chain_def ret_def bind_def demo_fetched_def aux_data_default_def max_by_key_def)

lemma runs_commit_plain: "fr_aux f = aux_data_default \<Longrightarrow> runs (commit_range cid f e)"
proof -
  assume a: "fr_aux f = aux_data_default"
  have g: "group_by k [] = []" for k :: "event_row \<Rightarrow> string" by (simp add: group_by_def)
  show ?thesis
    unfolding commit_range_def commit_def commit_ingest_def ingest_batch_of_def
    by (intro runs_bind runs_transaction runs_raw_insert)
      (auto simp: a aux_data_default_def block_upsert_batch_tx_def write_enrichment_def enrichment_tables_def g)
qed

lemma demo_plan: "spans 5 24 10 = [(5, 14), (15, 24)]"
  by (simp add: spans.simps)

lemma demo_init: "pipe_init 5 24 10 () db_empty = Some
   \<lparr>pi_todo = [(5, 14), (15, 24)], pi_inflight = [], pi_sending = None, pi_chan = [], pi_producer = None,
    pi_prefix = prefix_new 5, pi_records = 0, pi_result = None, pi_cancelled = False, pi_src = (), pi_db = db_empty\<rparr>"
  by (simp add: pipe_init_def plan_ranges_spans demo_plan)

lemma demo_run:
  "\<exists>s po. run_pipeline demo_drive demo_acts 5 24 10 () db_empty = Some s \<and> pi_result s = Some (Ok po) \<and> \<not> po_shutdown po"
proof -
  let ?p1 = "\<lparr>pt_frontier = 5, pt_waiting = [(15, 24, None)], pt_best = None, pt_advanced_to = None\<rparr>"
  have p1: "prefix_record 15 24 None (prefix_new 5) = (Returns None, ?p1)"
    by (simp add: prefix_record_def prefix_new_def waiting_insert_def prefix_drain.simps)
  have "\<exists>p2. prefix_record 5 14 None ?p1 = (Returns (Some (24, [])), p2)"
    by (simp add: prefix_record_def waiting_insert_def waiting_remove_def best_update_def best_hash_def u64_add_def prefix_drain.simps)
  then obtain p2 where p2: "prefix_record 5 14 None ?p1 = (Returns (Some (24, [])), p2)" by blast
  have f: "faults db_empty = []" by (simp add: db_empty_def)
  have run: "runs (commit_range 1 (demo_fetched lo hi) 0)" for lo hi
    by (rule runs_commit_plain) (simp add: demo_fetched_def)
  obtain o1 d1 where c1: "commit_range 1 (demo_fetched 15 24) 0 db_empty = (Ok o1, d1)" and f1: "faults d1 = []"
    using runsE[OF run f] by blast
  obtain o2 d2 where c2: "commit_range 1 (demo_fetched 5 14) 0 d1 = (Ok o2, d2)" and f2: "faults d2 = []"
    using runsE[OF run f1] by blast
  have "runs (cursor_advance 1 24 [])" unfolding cursor_advance_def by (intro runs_transaction) simp
  then obtain x d3 where c3: "cursor_advance 1 24 [] d2 = (Ok x, d3)" using runsE f2 by blast
  have cid: "cs_chain_id (dr_source demo_drive) = 1" "dr_conc demo_drive = 4" "dr_exhausted demo_drive () = False"
    by (simp_all add: demo_drive_def demo_chain_def)
  have r1: "commit_consume 1 (demo_fetched 15 24) (prefix_new 5) db_empty = (Ok (?p1, io_records o1), d1)"
    using c1 p1 by (simp add: commit_consume_def bind_def demo_fetched_def ret_def)
  have r2: "commit_consume 1 (demo_fetched 5 14) ?p1 d1 = (Ok (p2, io_records o2), d3)"
    using c2 p2 c3 by (simp add: commit_consume_def bind_def demo_fetched_def ret_def)
  show ?thesis
    by (simp add: run_pipeline_def demo_init demo_acts_def pipe_step_def start_fetch_def finish_fetch_def send_fetched_def
        end_producer_def receive_def join_halves_def polling_def drop_nth_def demo_fetch_range cid r1 r2 del: One_nat_def)
qed

theorem pipeline_completes_witness:
  "\<exists>s po. run_pipeline demo_drive demo_acts 5 24 10 () db_empty = Some s \<and> pi_result s = Some (Ok po)
     \<and> po_advanced_to po = Some 24 \<and> stored_raw (pi_db s) [demo_raw 9 0]"
proof -
  obtain s po where s: "run_pipeline demo_drive demo_acts 5 24 10 () db_empty = Some s" "pi_result s = Some (Ok po)" "\<not> po_shutdown po"
    using demo_run by blast
  from pipeline_completes[OF _ _ _ s(1) demo_feeds refl s(2,3)] s show ?thesis
    by (auto simp: demo_plan demo_logs_def)
qed

lemma demo_cursor:
  assumes "run_pipeline demo_drive demo_acts 5 24 10 () db_empty = Some s" and "pi_result s = Some (Ok po)" and "\<not> po_shutdown po"
  shows "\<exists>r \<in> set (cursors (pi_db s)). cu_chain_id r = as_i64 1"
proof -
  have cid: "1 = cs_chain_id (dr_source demo_drive)" by (simp add: demo_drive_def demo_chain_def)
  obtain s0 where s0: "pipe_init 5 24 10 () db_empty = Some s0" "s = fold (pipe_step demo_drive) demo_acts s0"
    using assms(1) by (auto simp: run_pipeline_def)
  have ch: "contiguous 5 (spans 5 24 10) (24 + 1)" by (rule contiguous_spans) simp_all
  have pl: "plan_ranges 5 24 10 = Some (spans 5 24 10)" by (simp add: plan_ranges_spans)
  obtain fs where inv: "pipe_inv (stored_and_queued 1) demo_drive 5 (spans 5 24 10) (set (cursors db_empty)) fs s"
    using queued.pipe_run_inv[OF queued.pipe_init_inv[OF s0(1) pl] ch _ cid[symmetric]] unfolding s0(2) by fastforce
  show ?thesis using queued.completed_drive[OF inv ch _ _ assms(2,3)] cid by auto
qed

theorem pipeline_cursor_covers_witness:
  "\<exists>s hi. run_pipeline demo_drive demo_acts 5 24 10 () db_empty = Some s \<and> hi \<in> {14, 24}
     \<and> stored_raw (pi_db s) [demo_raw 9 0]"
proof -
  obtain s po where s: "run_pipeline demo_drive demo_acts 5 24 10 () db_empty = Some s" "pi_result s = Some (Ok po)" "\<not> po_shutdown po"
    using demo_run by blast
  have cid: "1 = cs_chain_id (dr_source demo_drive)" by (simp add: demo_drive_def demo_chain_def)
  obtain r where r: "r \<in> set (cursors (pi_db s))" "cu_chain_id r = as_i64 1" using demo_cursor[OF s] by blast
  have "r \<notin> set (cursors db_empty)" by (simp add: db_empty_def)
  from pipeline_cursor_covers[OF _ _ _ s(1) demo_feeds cid r this] s(1) show ?thesis
    by (auto simp: demo_plan demo_logs_def)
qed

theorem pipeline_terminates_witness:
  "progress demo_drive demo_acts (the (pipe_init 5 24 10 () db_empty)) \<le> 10"
  using pipeline_terminates[OF _ _ demo_init, of demo_drive demo_acts] by (simp add: demo_init demo_plan)

end
