(* ===== verification/Backfill.thy ===== *)
theory Backfill
  imports Pipeline
begin

text \<open>
  \<open>bins/indexer-cli/src/worker.rs\<close> and the \<open>backfill\<close> command: a pool of decode workers and
  a ticker that frees abandoned leases run beside the fetch pipeline on the same database.

  A worker's round is \<open>DecodeWorker::run_once\<close>. For the interleavings with the pipeline and
  with other workers it is cut at its three database boundaries (lease, decode,
  acknowledge); one worker's three steps in a row are \<open>run_once\<close>.
\<close>

section \<open>Workers\<close>

datatype worker = Idle | Holding "work_item lease" | Finished "work_item lease" | Crashed

text \<open>The decoding of a leased item, as \<open>run_once\<close> does it.\<close>

definition decode_item :: "hash_iter \<Rightarrow> (chain_id \<Rightarrow> decoder option) \<Rightarrow> work_item \<Rightarrow> (db, domain_error, nat) m" where
  "decode_item hi decoders it = (case decoders (wi_chain_id it) of
     Some dec \<Rightarrow> decode_range hi dec (wi_chain_id it) (wi_from it) (wi_to it)
   | None \<Rightarrow> ret 0)"

text \<open>An error ends the round with the lease still held in the database; a panic ends the task.\<close>

fun worker_step :: "hash_iter \<Rightarrow> (chain_id \<Rightarrow> decoder option) \<Rightarrow> worker \<Rightarrow> db \<Rightarrow> worker \<times> db" where
  "worker_step hi decoders Idle d = (case pull_any d of
     (Ok None, d') \<Rightarrow> (Idle, d')
   | (Ok (Some l), d') \<Rightarrow> (Holding l, d')
   | (Err e, d') \<Rightarrow> (Idle, d')
   | (Panic, d') \<Rightarrow> (Crashed, d'))"
| "worker_step hi decoders (Holding l) d = (case decode_item hi decoders (le_item l) d of
     (Ok n, d') \<Rightarrow> (Finished l, d')
   | (Err e, d') \<Rightarrow> (Idle, d')
   | (Panic, d') \<Rightarrow> (Crashed, d'))"
| "worker_step hi decoders (Finished l) d = (case ack (le_id l) (le_seq l) d of
     (Ok _, d') \<Rightarrow> (Idle, d')
   | (Err e, d') \<Rightarrow> (Idle, d')
   | (Panic, d') \<Rightarrow> (Crashed, d'))"
| "worker_step hi decoders Crashed d = (Crashed, d)"

text \<open>A round of the loop of \<open>spawn_decode_worker\<close>: what it waits for afterwards, in
  milliseconds; a decode error counts as idle.\<close>

definition decode_worker_round :: "hash_iter \<Rightarrow> (chain_id \<Rightarrow> decoder option) \<Rightarrow> nat \<Rightarrow> nat \<Rightarrow> db \<Rightarrow> nat outcome \<times> db" where
  "decode_worker_round hi decoders poll_ms poll_idle_ms d = (case run_once hi decoders d of
     (Ok (Some rows), d') \<Rightarrow> (Returns poll_ms, d')
   | (Ok None, d') \<Rightarrow> (Returns poll_idle_ms, d')
   | (Err e, d') \<Rightarrow> (Returns poll_idle_ms, d')
   | (Panic, d') \<Rightarrow> (Panics, d'))"

text \<open>A tick of \<open>spawn_reclaim_ticker\<close>: leases older than a minute are freed, errors ignored.\<close>

definition reclaim_tick :: "db \<Rightarrow> db" where
  "reclaim_tick d = snd (reclaim 60 d)"

definition spawn_worker_pool :: "nat \<Rightarrow> worker list" where
  "spawn_worker_pool workers = replicate workers Idle"

text \<open>\<open>drain_queue\<close> polls until this returns true.\<close>

definition queue_drained :: "bool \<Rightarrow> (db, domain_error, bool) m" where
  "queue_drained cancelled = (if cancelled then ret True else bind depth (\<lambda>n. ret (n = 0)))"

section \<open>The system\<close>

record 'c backfill =
  bf_pipe :: "'c pipe"
  bf_workers :: "worker list"

datatype backfill_action = PipeAct pipe_action | WorkerAct nat | ReclaimTick | ClockTick nat

definition on_pipe_db :: "(db \<Rightarrow> db) \<Rightarrow> 'c backfill \<Rightarrow> 'c backfill" where
  "on_pipe_db f s = s\<lparr>bf_pipe := (bf_pipe s)\<lparr>pi_db := f (pi_db (bf_pipe s))\<rparr>\<rparr>"

fun backfill_step :: "'c drive \<Rightarrow> hash_iter \<Rightarrow> (chain_id \<Rightarrow> decoder option) \<Rightarrow> backfill_action \<Rightarrow> 'c backfill \<Rightarrow> 'c backfill" where
  "backfill_step dr hi decoders (PipeAct a) s = s\<lparr>bf_pipe := pipe_step dr a (bf_pipe s)\<rparr>"
| "backfill_step dr hi decoders (WorkerAct i) s =
     (if length (bf_workers s) \<le> i then s
      else let (w, d) = worker_step hi decoders (bf_workers s ! i) (pi_db (bf_pipe s))
           in on_pipe_db (\<lambda>_. d) (s\<lparr>bf_workers := (bf_workers s)[i := w]\<rparr>))"
| "backfill_step dr hi decoders ReclaimTick s = on_pipe_db reclaim_tick s"
| "backfill_step dr hi decoders (ClockTick n) s = on_pipe_db (\<lambda>d. d\<lparr>clock := clock d + n\<rparr>) s"

definition run_backfill :: "'c drive \<Rightarrow> hash_iter \<Rightarrow> (chain_id \<Rightarrow> decoder option) \<Rightarrow> nat \<Rightarrow> backfill_action list
    \<Rightarrow> nat \<Rightarrow> nat \<Rightarrow> nat \<Rightarrow> 'c \<Rightarrow> db \<Rightarrow> 'c backfill option" where
  "run_backfill dr hi decoders workers acts next target step c d =
     map_option (\<lambda>p. fold (backfill_step dr hi decoders) acts \<lparr>bf_pipe = p, bf_workers = spawn_worker_pool workers\<rparr>)
       (pipe_init next target step c d)"

section \<open>A worker's round\<close>

lemma run_once_as_steps:
  "snd (run_once hi decoders d) =
     (let (w1, d1) = worker_step hi decoders Idle d
      in case w1 of Holding l \<Rightarrow>
           (let (w2, d2) = worker_step hi decoders w1 d1
            in case w2 of Finished l' \<Rightarrow> snd (worker_step hi decoders w2 d2) | _ \<Rightarrow> d2)
         | _ \<Rightarrow> d1)"
  by (auto simp: run_once_def decode_item_def bind_def ret_def split: prod.splits res.splits option.splits)


section \<open>Decoded ranges\<close>

text \<open>The tables of a database only gain rows.\<close>

definition tables_grow :: "db \<Rightarrow> db \<Rightarrow> bool" where
  "tables_grow d0 d \<longleftrightarrow> (\<forall>n t. tables d0 n = Some t \<longrightarrow>
     (\<exists>t'. tables d n = Some t' \<and> tb_pk t' = tb_pk t \<and> set (tb_rows t) \<subseteq> set (tb_rows t')))"

definition row_present :: "db \<Rightarrow> event_row \<Rightarrow> bool" where
  "row_present d row \<longleftrightarrow> (\<exists>t tms. tables d (de_table (er_event row)) = Some t
     \<and> typed_key t (typed_row_of (table_has_idx (de_table (er_event row))) (stamp tms row)) \<in> typed_key t ` set (tb_rows t))"

text \<open>Every stored record with a key of \<open>recs\<close> that the decoder recognises has its row.\<close>

definition is_decoded :: "decoder \<Rightarrow> chain_id \<Rightarrow> db \<Rightarrow> raw_record list \<Rightarrow> bool" where
  "is_decoded dec cid d recs \<longleftrightarrow> (\<forall>q \<in> set (raw_records d). raw_key q \<in> (raw_key \<circ> raw_row_of) ` set recs \<longrightarrow>
     (\<forall>row. dc_decode dec (record_of_raw_row cid q) = Ok (Some row) \<longrightarrow> row_present d row))"

definition stored_or_decoded :: "decoder \<Rightarrow> chain_id \<Rightarrow> db \<Rightarrow> fetched_range \<Rightarrow> bool" where
  "stored_or_decoded dec cid d f \<longleftrightarrow> stored_raw d (fr_records f)
     \<and> (fr_records f \<noteq> [] \<longrightarrow> is_queued d (range_item cid f) \<or> is_decoded dec cid d (fr_records f))"

lemma tables_grow_refl [simp]: "tables_grow d d"
  by (simp add: tables_grow_def)

lemma tables_growD:
  assumes "tables_grow d d'" and "tables d n = Some t"
  obtains t' where "tables d' n = Some t'" "tb_pk t' = tb_pk t" "set (tb_rows t) \<subseteq> set (tb_rows t')"
  using assms unfolding tables_grow_def by blast

lemma tables_grow_trans:
  assumes "tables_grow a b" and "tables_grow b c"
  shows "tables_grow a c"
  unfolding tables_grow_def
proof (intro allI impI)
  fix n t assume "tables a n = Some t"
  then obtain t1 where 1: "tables b n = Some t1" "tb_pk t1 = tb_pk t" "set (tb_rows t) \<subseteq> set (tb_rows t1)"
    by (rule tables_growD[OF assms(1)])
  obtain t2 where "tables c n = Some t2" "tb_pk t2 = tb_pk t1" "set (tb_rows t1) \<subseteq> set (tb_rows t2)"
    by (rule tables_growD[OF assms(2) 1(1)])
  with 1 show "\<exists>t'. tables c n = Some t' \<and> tb_pk t' = tb_pk t \<and> set (tb_rows t) \<subseteq> set (tb_rows t')" by auto
qed

lemma tables_grow_cong: "tables a' = tables a \<Longrightarrow> tables b' = tables b \<Longrightarrow> tables_grow a' b' = tables_grow a b"
  by (simp add: tables_grow_def)

lemma event_put_grow: "tables_grow d (event_put t rows d)"
  unfolding tables_grow_def event_put_def
  by (auto split: option.splits intro: insert_nothing_snd_subset[THEN conjunct1, THEN subsetD])

lemma tables_put_grow: "tables_grow d (tables_put g d)"
  unfolding tables_put_def
proof (induction g arbitrary: d)
  case (Cons a g)
  then show ?case by (cases a) (auto intro: tables_grow_trans[OF event_put_grow])
qed simp

lemma row_present_grow:
  assumes "tables_grow d d'" and "row_present d row"
  shows "row_present d' row"
proof -
  let ?r = "\<lambda>tms. typed_row_of (table_has_idx (de_table (er_event row))) (stamp tms row)"
  obtain t tms where t: "tables d (de_table (er_event row)) = Some t" "typed_key t (?r tms) \<in> typed_key t ` set (tb_rows t)"
    using assms(2) by (auto simp: row_present_def)
  obtain t' where t': "tables d' (de_table (er_event row)) = Some t'" "tb_pk t' = tb_pk t" "set (tb_rows t) \<subseteq> set (tb_rows t')"
    by (rule tables_growD[OF assms(1) t(1)])
  have "typed_key t' = typed_key t" by (rule ext) (simp add: typed_key_def t'(2))
  with t(2) t'(3) have "typed_key t' (?r tms) \<in> typed_key t' ` set (tb_rows t')" by auto
  with t'(1) show ?thesis unfolding row_present_def by blast
qed

lemma is_decoded_grow:
  assumes "is_decoded dec cid d recs" and "stored_raw d recs" and "tables_grow d d'"
    and "\<And>q. q \<in> set (raw_records d') \<Longrightarrow> q \<in> set (raw_records d) \<or> raw_key q \<notin> raw_key ` set (raw_records d)"
  shows "is_decoded dec cid d' recs"
  unfolding is_decoded_def
proof (intro ballI impI allI)
  fix q row assume q: "q \<in> set (raw_records d')" "raw_key q \<in> (raw_key \<circ> raw_row_of) ` set recs"
    and row: "dc_decode dec (record_of_raw_row cid q) = Ok (Some row)"
  have "raw_key q \<in> raw_key ` set (raw_records d)" using q(2) assms(2) by (auto simp: stored_raw_def)
  with assms(4)[OF q(1)] have "q \<in> set (raw_records d)" by blast
  with assms(1) q(2) row have "row_present d row" unfolding is_decoded_def by blast
  then show "row_present d' row" by (rule row_present_grow[OF assms(3)])
qed

lemma commit_effect_raw_rows:
  assumes "q \<in> set (raw_records (commit_effect (ingest_batch_of cid f e False) d))"
  shows "q \<in> set (raw_records d) \<or> raw_key q \<notin> raw_key ` set (raw_records d)"
proof -
  have "raw_records (commit_effect (ingest_batch_of cid f e False) d)
      = snd (insert_nothing raw_key (map raw_row_of (fr_records f)) (raw_records d))"
    by (simp add: commit_effect_def ingest_batch_of_def block_put_def raw_put_def)
  moreover obtain n rows where i: "insert_nothing raw_key (map raw_row_of (fr_records f)) (raw_records d) = (n, rows)" by fastforce
  ultimately show ?thesis using insert_nothing_keeps[OF i] assms by auto
qed

lemma commit_effect_grow: "tables_grow d (commit_effect (ingest_batch_of cid f e False) d)"
proof -
  let ?d = "block_put (ax_block_metas (fr_aux f)) (raw_put (fr_records f) d)"
  have "tables (commit_effect (ingest_batch_of cid f e False) d) = tables (tables_put (enrichment_tables (ax_enrichment (fr_aux f))) ?d)"
    by (simp add: commit_effect_def ingest_batch_of_def cursor_put_def queue_put_def pushed_def enrichment_put_tables)
  moreover have "tables ?d = tables d" by (simp add: block_put_def raw_put_def)
  ultimately show ?thesis using tables_put_grow[of ?d] tables_grow_cong by metis
qed

lemma stored_or_decoded_mono:
  assumes "stored_or_decoded dec cid d f" and "tables_grow d d'"
    and "raw_key ` set (raw_records d) \<subseteq> raw_key ` set (raw_records d')"
    and "\<And>q. q \<in> set (raw_records d') \<Longrightarrow> q \<in> set (raw_records d) \<or> raw_key q \<notin> raw_key ` set (raw_records d)"
    and "is_queued d (range_item cid f) \<Longrightarrow> is_queued d' (range_item cid f) \<or> is_decoded dec cid d' (fr_records f)"
  shows "stored_or_decoded dec cid d' f"
  using assms is_decoded_grow[OF _ _ assms(2,4)] unfolding stored_or_decoded_def stored_raw_def by blast

lemma stored_or_decoded_cong:
  assumes "raw_records d' = raw_records d" and "work_queue d' = work_queue d" and "tables d' = tables d"
  shows "stored_or_decoded dec cid d' f = stored_or_decoded dec cid d f"
  using assms by (simp add: stored_or_decoded_def stored_raw_def is_queued_def is_decoded_def row_present_def)

interpretation decoding: range_store cid "stored_or_decoded dec cid" for cid dec
proof
  fix f d out d' assume "commit_range cid f 0 d = (Ok out, d')"
  then show "stored_or_decoded dec cid d' f"
    by (cases rule: commit_range_cases)
      (auto simp: stored_or_decoded_def stored_raw_def is_queued_def commit_effect_raw commit_effect_queue)
next
  fix f d r d' g assume "commit_range cid f 0 d = (r, d')" and g: "stored_or_decoded dec cid d g"
  then show "stored_or_decoded dec cid d' g"
  proof (cases rule: commit_range_cases)
    case (1 out fs)
    have t: "tables_grow d d'" using commit_effect_grow[of d cid f 0] by (simp add: 1 tables_grow_def)
    show ?thesis
    proof (rule stored_or_decoded_mono[OF g t])
      show "raw_key ` set (raw_records d) \<subseteq> raw_key ` set (raw_records d')" by (simp add: 1 commit_effect_raw)
      show "q \<in> set (raw_records d) \<or> raw_key q \<notin> raw_key ` set (raw_records d)" if "q \<in> set (raw_records d')" for q
        using commit_effect_raw_rows[of q cid f 0 d] that by (simp add: 1)
      show "is_queued d' (range_item cid g) \<or> is_decoded dec cid d' (fr_records g)" if "is_queued d (range_item cid g)"
        using that by (simp add: 1 is_queued_def commit_effect_queue)
    qed
  next
    case 2
    with g stored_or_decoded_cong[of d' d dec cid g] show ?thesis by (simp add: stored_fields[OF 2(2)])
  qed
next
  fix h hs d r d' g assume "cursor_advance cid h hs d = (r :: (domain_error, unit) res, d')" and g: "stored_or_decoded dec cid d g"
  then show "stored_or_decoded dec cid d' g"
  proof (cases rule: cursor_advance_cases)
    case (1 fs)
    with g stored_or_decoded_cong[of d' d dec cid g] show ?thesis by (simp add: cursor_put_def)
  next
    case 2
    with g stored_or_decoded_cong[of d' d dec cid g] show ?thesis by (simp add: stored_fields[OF 2(2)])
  qed
qed


section \<open>The queue under the system's steps\<close>

text \<open>Rows keep their id and key; a step adds at most the row of one pushed item, under a new id.\<close>

definition queue_moves :: "work_item option \<Rightarrow> db \<Rightarrow> db \<Rightarrow> bool" where
  "queue_moves new d d' \<longleftrightarrow> queue_next_id d \<le> queue_next_id d'
     \<and> (\<forall>q' \<in> set (work_queue d'). (\<exists>q \<in> set (work_queue d). wq_id q' = wq_id q \<and> queue_key q' = queue_key q)
         \<or> (\<exists>it. new = Some it \<and> q' = queue_row_of (queue_next_id d) it \<and> queue_next_id d < queue_next_id d'))"

text \<open>Queue rows have ids that were handed out, and a lease names the row's range.\<close>

definition queue_ok :: "db \<Rightarrow> bool" where
  "queue_ok d \<longleftrightarrow> (\<forall>q \<in> set (work_queue d). wq_id q < queue_next_id d \<and> item_key (le_item (lease_of q)) = queue_key q)
     \<and> (\<forall>p \<in> set (work_queue d). \<forall>q \<in> set (work_queue d). wq_id p = wq_id q \<longrightarrow> queue_key p = queue_key q)"

definition lease_ok :: "db \<Rightarrow> work_item lease \<Rightarrow> bool" where
  "lease_ok d l \<longleftrightarrow> le_id l < queue_next_id d \<and> wi_chain_id (le_item l) < 2 ^ 64
     \<and> (\<forall>q \<in> set (work_queue d). wq_id q = le_id l \<longrightarrow> queue_key q = item_key (le_item l))"

lemma readable_key: "queue_key p = queue_key q \<Longrightarrow> item_key (le_item (lease_of p)) = item_key (le_item (lease_of q))"
  by (simp add: queue_key_def item_key_def lease_of_def)

lemma queue_moves_ok:
  assumes "queue_moves new d d'" and "queue_ok d"
  shows "queue_ok d'"
  unfolding queue_ok_def
proof (intro conjI ballI impI)
  fix q assume q: "q \<in> set (work_queue d')"
  have src: "(\<exists>y \<in> set (work_queue d). wq_id x = wq_id y \<and> queue_key x = queue_key y) \<or>
      wq_id x = queue_next_id d \<and> queue_next_id d < queue_next_id d' \<and> (\<exists>it. new = Some it \<and> x = queue_row_of (queue_next_id d) it)" if "x \<in> set (work_queue d')" for x
    using assms(1) that unfolding queue_moves_def by (metis queue_row_of_simps(2))
  have mono: "queue_next_id d \<le> queue_next_id d'" using assms(1) by (simp add: queue_moves_def)
  have bound: "wq_id y < queue_next_id d" if "y \<in> set (work_queue d)" for y using assms(2) that unfolding queue_ok_def by blast
  from src[OF q] show "wq_id q < queue_next_id d'"
    using bound mono by (elim disjE bexE conjE) (fastforce dest: bound, simp)
  from src[OF q] show "item_key (le_item (lease_of q)) = queue_key q"
  proof (elim disjE bexE conjE exE)
    fix y assume "y \<in> set (work_queue d)" "queue_key q = queue_key y"
    moreover from this have "item_key (le_item (lease_of y)) = queue_key y" using assms(2) unfolding queue_ok_def by blast
    ultimately show ?thesis using readable_key[of q y] by metis
  qed simp
  fix p assume p: "p \<in> set (work_queue d')" and id: "wq_id p = wq_id q"
  have old: "wq_id y \<noteq> queue_next_id d" if "y \<in> set (work_queue d)" for y using bound[OF that] by simp
  from src[OF p] src[OF q] show "queue_key p = queue_key q"
  proof (elim disjE bexE conjE)
    fix y z assume "y \<in> set (work_queue d)" "z \<in> set (work_queue d)" "wq_id p = wq_id y" "wq_id q = wq_id z"
      and k: "queue_key p = queue_key y" "queue_key q = queue_key z"
    then have "queue_key y = queue_key z" using assms(2) id unfolding queue_ok_def by metis
    with k show ?thesis by metis
  qed (use old id in auto)
qed

lemma queue_moves_lease:
  assumes "queue_moves new d d'" and "lease_ok d l"
  shows "lease_ok d' l"
  using assms unfolding queue_moves_def lease_ok_def by (fastforce dest: order_less_le_trans)

lemma queue_moves_keys:
  "queue_moves new d d' \<Longrightarrow> queue_key ` set (work_queue d') \<subseteq> queue_key ` set (work_queue d) \<union> item_key ` set_option new"
  unfolding queue_moves_def by fastforce

lemma queue_moves_same: "work_queue d' = work_queue d \<Longrightarrow> queue_next_id d \<le> queue_next_id d' \<Longrightarrow> queue_moves new d d'"
  by (auto simp: queue_moves_def)

lemma queue_moves_trans_same:
  "queue_moves new d d1 \<Longrightarrow> work_queue d' = work_queue d1 \<Longrightarrow> queue_next_id d1 \<le> queue_next_id d' \<Longrightarrow> queue_moves new d d'"
  unfolding queue_moves_def by (metis order_trans order_less_le_trans)

text \<open>No transaction hands ids back.\<close>

lemma keeps_ids_event: "keeps (\<lambda>_. True) (event_insert_stmt table part)"
  unfolding event_insert_stmt_def
  by (rule keeps_stmt) (auto simp: db_invariant_def Let_def split: option.splits prod.splits if_splits)

lemma keeps_ids_commit: "keeps (\<lambda>_. True) (commit_ingest batch)"
proof -
  have inv: "db_invariant (\<lambda>_. True)" by (simp add: db_invariant_def)
  have raw: "keeps (\<lambda>_. True) (raw_insert_batch_tx rs)" for rs
    unfolding raw_insert_batch_tx_def
    by (intro keeps_for_each keeps_bind keeps_ret)
      (auto simp: raw_insert_stmt_def dml_def intro!: keeps_stmt inv split: prod.splits)
  have blk: "keeps (\<lambda>_. True) (block_upsert_batch_tx bs)" for bs
    unfolding block_upsert_batch_tx_def
    by (intro keeps_for_each keeps_bind keeps_ret)
      (auto simp: block_upsert_stmt_def intro!: keeps_stmt inv split: prod.splits sum.splits)
  have ev: "keeps (\<lambda>_. True) (event_upsert_batch_tx table rows)" for table rows
    unfolding event_upsert_batch_tx_def
    by (intro keeps_bind keeps_for_each) (auto intro!: keeps_for_each keeps_bind keeps_ids_event)
  have enr: "keeps (\<lambda>_. True) (write_enrichment rows)" for rows
    unfolding write_enrichment_def by (intro keeps_for_each) (auto intro: keeps_bind ev)
  have cur: "keeps (\<lambda>_. True) (cursor_advance_in_tx c h hs)" for c h hs
    unfolding cursor_advance_in_tx_def by (intro keeps_stmt inv) auto
  show ?thesis unfolding commit_ingest_def
    by (intro keeps_transaction keeps_bind inv raw blk enr) (auto intro: cur keeps_push split: option.split prod.split)
qed


text \<open>What the writer does to the queue, the raw records and the tables, whatever it returns.\<close>

lemma commit_range_moves:
  assumes "commit_range cid f 0 d = (r, d')"
  shows "queue_moves (Some (range_item cid f)) d d'" and "tables_grow d d'"
    and "raw_key ` set (raw_records d) \<subseteq> raw_key ` set (raw_records d')"
    and "\<And>q. q \<in> set (raw_records d') \<Longrightarrow> q \<in> set (raw_records d) \<or> raw_key q \<notin> raw_key ` set (raw_records d)"
proof -
  have "keeps (\<lambda>_. True) (commit_range cid f 0)"
    unfolding commit_range_def commit_def by (intro keeps_bind keeps_ids_commit keeps_ret)
  with assms have ids: "queue_next_id d \<le> queue_next_id d'" unfolding keeps_def by blast
  have "queue_moves (Some (range_item cid f)) d d' \<and> tables_grow d d'
     \<and> raw_key ` set (raw_records d) \<subseteq> raw_key ` set (raw_records d')
     \<and> (\<forall>q \<in> set (raw_records d'). q \<in> set (raw_records d) \<or> raw_key q \<notin> raw_key ` set (raw_records d))"
    using assms
  proof (cases rule: commit_range_cases)
    case (1 out fs)
    let ?e = "commit_effect (ingest_batch_of cid f 0 False) d"
    define m where "m = enrichment_put (ax_enrichment (fr_aux f)) (block_put (ax_block_metas (fr_aux f)) (raw_put (fr_records f) d))"
    have m: "work_queue m = work_queue d" "queue_next_id m = queue_next_id d"
      unfolding m_def enrichment_put_tables
      by (simp add: block_put_def raw_put_def) (subst tables_put_eq, simp add: block_put_def raw_put_def)
    have "work_queue ?e = (if fr_records f = [] then work_queue m else work_queue (pushed (range_item cid f) m))"
      "queue_next_id ?e = (if fr_records f = [] then queue_next_id m else queue_next_id (pushed (range_item cid f) m))"
      by (simp_all add: commit_effect_def ingest_batch_of_def cursor_put_def queue_put_def range_item_def m_def)
    then have "queue_moves (Some (range_item cid f)) d d'"
      unfolding queue_moves_def by (auto simp: 1 m pushed_queue) (auto simp: pushed_def m)
    moreover have "tables_grow d d'" using commit_effect_grow[of d cid f 0] by (simp add: 1 tables_grow_def)
    ultimately show ?thesis using commit_effect_raw_rows[of _ cid f 0 d] by (auto simp: 1 commit_effect_raw)
  next
    case 2
    have "tables_grow d d'" by (simp add: tables_grow_def stored_fields[OF 2(2)])
    with ids show ?thesis using queue_moves_same[of d' d] by (simp add: stored_fields[OF 2(2)])
  qed
  then show "queue_moves (Some (range_item cid f)) d d'" and "tables_grow d d'"
    and "raw_key ` set (raw_records d) \<subseteq> raw_key ` set (raw_records d')"
    and "\<And>q. q \<in> set (raw_records d') \<Longrightarrow> q \<in> set (raw_records d) \<or> raw_key q \<notin> raw_key ` set (raw_records d)"
    by blast+
qed

lemma cursor_advance_frame:
  assumes "cursor_advance cid h hs d = (r, d')"
  shows "work_queue d' = work_queue d \<and> raw_records d' = raw_records d \<and> tables d' = tables d \<and> queue_next_id d \<le> queue_next_id d'"
proof -
  have "keeps (\<lambda>_. True) (cursor_advance cid h hs)"
    unfolding cursor_advance_def cursor_advance_in_tx_def by (intro keeps_transaction keeps_stmt) (auto simp: db_invariant_def)
  with assms have "queue_next_id d \<le> queue_next_id d'" unfolding keeps_def by blast
  with assms show ?thesis by (cases rule: cursor_advance_cases) (auto simp: cursor_put_def dest: stored_fields)
qed

lemma commit_consume_moves:
  assumes "commit_consume cid f p d = (r, d')"
  shows "queue_moves (Some (range_item cid f)) d d'" and "tables_grow d d'"
    and "raw_key ` set (raw_records d) \<subseteq> raw_key ` set (raw_records d')"
    and "\<And>q. q \<in> set (raw_records d') \<Longrightarrow> q \<in> set (raw_records d) \<or> raw_key q \<notin> raw_key ` set (raw_records d)"
proof -
  obtain r1 d1 where c: "commit_range cid f 0 d = (r1, d1)" by fastforce
  have "d' = d1 \<or> (\<exists>h hs r2. cursor_advance cid h hs d1 = (r2, d'))"
  proof (cases r1)
    case (Ok out)
    obtain o1 p1 where "prefix_record (fr_from f) (fr_to f) (fr_last_block f) p = (o1, p1)" by fastforce
    with assms c Ok show ?thesis
      by (cases o1) (auto simp: commit_consume_def bind_def ret_def split: option.splits prod.splits res.splits)
  qed (use assms c in \<open>auto simp: commit_consume_def bind_def\<close>)
  then have fr: "work_queue d' = work_queue d1 \<and> raw_records d' = raw_records d1 \<and> tables d' = tables d1 \<and> queue_next_id d1 \<le> queue_next_id d'"
    using cursor_advance_frame by fastforce
  note m = commit_range_moves[OF c]
  show "queue_moves (Some (range_item cid f)) d d'" using m(1) fr by (auto intro: queue_moves_trans_same)
  show "tables_grow d d'" using m(2) fr by (simp add: tables_grow_def)
  show "raw_key ` set (raw_records d) \<subseteq> raw_key ` set (raw_records d')" using m(3) fr by simp
  show "q \<in> set (raw_records d) \<or> raw_key q \<notin> raw_key ` set (raw_records d)" if "q \<in> set (raw_records d')" for q
    using m(4) fr that by simp
qed

text \<open>Decoding an item only adds rows to the tables.\<close>

lemma decode_item_frame:
  assumes "decode_item hi decoders it d = (r, d')"
  shows "raw_records d' = raw_records d \<and> work_queue d' = work_queue d \<and> cursors d' = cursors d
     \<and> tables_grow d d' \<and> queue_next_id d \<le> queue_next_id d'"
proof (cases "decoders (wi_chain_id it)")
  case None
  with assms show ?thesis by (simp add: decode_item_def ret_def)
next
  case (Some dec)
  let ?P = "\<lambda>s. raw_records s = raw_records d \<and> work_queue s = work_queue d \<and> cursors s = cursors d \<and> tables_grow d s"
  have inv: "db_invariant ?P" unfolding db_invariant_def
  proof (intro allI impI)
    fix s t assume "stored s = stored t" and "?P s"
    then show "?P t" using tables_grow_cong[OF refl, of t s d] by (auto dest: stored_fields)
  qed
  have "keeps ?P (event_insert_stmt table part)" for table part
  proof -
    have "?P s' \<and> queue_next_id s \<le> queue_next_id s'"
      if p: "?P s" and step: "(case tables s table of
          None \<Rightarrow> Inl (''relation does not exist: '' @ table)
        | Some t \<Rightarrow>
           (let new = map (typed_row_of (table_has_idx table)) part;
                (n, rows) = insert_nothing (typed_key t) new (tb_rows t);
                s' = s\<lparr>tables := (tables s)(table \<mapsto> t\<lparr>tb_rows := rows\<rparr>)\<rparr>
            in if \<not> columns_ok t new then Inl ''column does not exist or has another type''
               else if tb_tx_fk t \<and> \<not> (\<forall>r \<in> set rows. r \<in> set (tb_rows t) \<or> has_tx s' r)
                    then Inl ''insert violates foreign key constraint receipts_tx_fk''
               else Inr (n, s'))) = Inr (x, s')" for s x s'
    proof -
      from step obtain t where t: "tables s table = Some t"
        and s': "s' = s\<lparr>tables := (tables s)(table \<mapsto> t\<lparr>tb_rows := snd (insert_nothing (typed_key t)
           (map (typed_row_of (table_has_idx table)) part) (tb_rows t))\<rparr>)\<rparr>"
        by (auto simp: Let_def split: option.splits prod.splits if_splits)
      have "tables_grow s s'"
        unfolding s' tables_grow_def using t insert_nothing_snd_subset by fastforce
      with p s' show ?thesis by (auto intro: tables_grow_trans)
    qed
    then show ?thesis unfolding event_insert_stmt_def by (rule keeps_stmt[OF inv])
  qed
  from keeps_decode[OF inv this] have "keeps ?P (decode_range hi dec (wi_chain_id it) (wi_from it) (wi_to it))" .
  moreover have "decode_range hi dec (wi_chain_id it) (wi_from it) (wi_to it) d = (r, d')"
    using assms Some by (simp add: decode_item_def)
  ultimately show ?thesis unfolding keeps_def by fastforce
qed


section \<open>The invariant of the system\<close>

definition range_key :: "chain_id \<Rightarrow> nat \<times> nat \<Rightarrow> int \<times> int \<times> int \<times> string" where
  "range_key cid r = (as_i64 cid, as_i64 (fst r), as_i64 (snd r), kind_str Backfill)"

fun worker_lease :: "worker \<Rightarrow> work_item lease option" where
  "worker_lease (Holding l) = Some l"
| "worker_lease (Finished l) = Some l"
| "worker_lease Idle = None"
| "worker_lease Crashed = None"

text \<open>A worker that has decoded its item has decoded every committed range of that key.\<close>

definition worker_ok :: "decoder \<Rightarrow> chain_id \<Rightarrow> db \<Rightarrow> fetched_range list \<Rightarrow> worker \<Rightarrow> bool" where
  "worker_ok dec cid d fs w \<longleftrightarrow> (\<forall>l. worker_lease w = Some l \<longrightarrow> lease_ok d l)
     \<and> (\<forall>l. w = Finished l \<longrightarrow> (\<forall>f \<in> set fs. range_key cid (rng f) = item_key (le_item l) \<longrightarrow>
          is_decoded dec cid d (fr_records f)))"

text \<open>A range that is not committed yet is neither queued nor in a worker's hands.\<close>

definition fresh :: "chain_id \<Rightarrow> (nat \<times> nat) list \<Rightarrow> fetched_range list \<Rightarrow> db \<Rightarrow> worker list \<Rightarrow> bool" where
  "fresh cid plan fs d ws \<longleftrightarrow> (\<forall>r \<in> set plan. r \<notin> rng ` set fs \<longrightarrow> range_key cid r \<notin> queue_key ` set (work_queue d)
     \<and> (\<forall>w \<in> set ws. \<forall>l. worker_lease w = Some l \<longrightarrow> item_key (le_item l) \<noteq> range_key cid r))"

definition bf_inv :: "'c drive \<Rightarrow> decoder \<Rightarrow> nat \<Rightarrow> (nat \<times> nat) list \<Rightarrow> cursor_row set \<Rightarrow> fetched_range list \<Rightarrow> 'c backfill \<Rightarrow> bool" where
  "bf_inv dr dec start plan rows0 fs s \<longleftrightarrow>
     (let cid = cs_chain_id (dr_source dr); d = pi_db (bf_pipe s)
      in pipe_inv (stored_or_decoded dec cid) dr start plan rows0 fs (bf_pipe s) \<and> queue_ok d
         \<and> (\<forall>w \<in> set (bf_workers s). worker_ok dec cid d fs w)
         \<and> (pi_result (bf_pipe s) = None \<longrightarrow> fresh cid plan fs d (bf_workers s)))"

lemma range_item_key [simp]: "item_key (range_item cid f) = range_key cid (rng f)"
  by (simp add: item_key_def range_item_def range_key_def)

lemma range_key_inj:
  "fst r < 2 ^ 64 \<Longrightarrow> snd r < 2 ^ 64 \<Longrightarrow> fst r' < 2 ^ 64 \<Longrightarrow> snd r' < 2 ^ 64 \<Longrightarrow> range_key cid r = range_key cid r' \<longleftrightarrow> r = r'"
  by (auto simp: range_key_def as_i64_inj prod_eq_iff)

lemma worker_ok_grow:
  assumes "worker_ok dec cid d fs w" and "queue_moves new d d'" and "tables_grow d d'"
    and "\<And>q. q \<in> set (raw_records d') \<Longrightarrow> q \<in> set (raw_records d) \<or> raw_key q \<notin> raw_key ` set (raw_records d)"
    and "\<And>f. f \<in> set fs \<Longrightarrow> stored_raw d (fr_records f)"
  shows "worker_ok dec cid d' fs w"
  using assms(1,5) queue_moves_lease[OF assms(2)] is_decoded_grow[OF _ _ assms(3,4)] unfolding worker_ok_def by blast

lemma pipe_step_db:
  "pi_db (pipe_step dr a s) = pi_db s \<or> (\<exists>f rest r. pi_chan s = f # rest
     \<and> commit_consume (cs_chain_id (dr_source dr)) f (pi_prefix s) (pi_db s) = (r, pi_db (pipe_step dr a s)))"
  by (cases a) (auto simp: pipe_step_def start_fetch_def finish_fetch_def send_fetched_def end_producer_def join_halves_def
      receive_def Let_def split: list.splits option.splits prod.splits res.splits)

lemma pipe_inv_env:
  assumes "pipe_inv kept dr start plan rows0 fs p" and "cursors d' = cursors (pi_db p)" and "\<forall>f \<in> set fs. kept d' f"
  shows "pipe_inv kept dr start plan rows0 fs (p\<lparr>pi_db := d'\<rparr>)"
proof -
  have "cursor_inv cid rows0 plan (p\<lparr>pi_db := d'\<rparr>) = cursor_inv cid rows0 plan p"
    "cursor_at cid start (p\<lparr>pi_db := d'\<rparr>) = cursor_at cid start p" for cid
    by (rule cursor_inv_cong; simp add: assms(2))+
  with assms show ?thesis
    by (simp add: pipe_inv_def flow_inv_def owned_def sending_list_def lossless_def result_inv_def)
qed

lemma pipe_step_moves:
  assumes "pi_chan p = f # rest \<or> pi_db (pipe_step dr a p) = pi_db p"
  shows "queue_moves (Some (range_item (cs_chain_id (dr_source dr)) f)) (pi_db p) (pi_db (pipe_step dr a p))"
    and "tables_grow (pi_db p) (pi_db (pipe_step dr a p))"
    and "\<And>q. q \<in> set (raw_records (pi_db (pipe_step dr a p))) \<Longrightarrow>
        q \<in> set (raw_records (pi_db p)) \<or> raw_key q \<notin> raw_key ` set (raw_records (pi_db p))"
proof -
  consider "pi_db (pipe_step dr a p) = pi_db p" | r where "pi_chan p = f # rest"
      "commit_consume (cs_chain_id (dr_source dr)) f (pi_prefix p) (pi_db p) = (r, pi_db (pipe_step dr a p))"
    using assms pipe_step_db[of dr a p] by fastforce
  then have "queue_moves (Some (range_item (cs_chain_id (dr_source dr)) f)) (pi_db p) (pi_db (pipe_step dr a p))
     \<and> tables_grow (pi_db p) (pi_db (pipe_step dr a p))
     \<and> (\<forall>q \<in> set (raw_records (pi_db (pipe_step dr a p))).
        q \<in> set (raw_records (pi_db p)) \<or> raw_key q \<notin> raw_key ` set (raw_records (pi_db p)))"
  proof cases
    case 1
    then show ?thesis by (simp add: queue_moves_same)
  next
    case (2 r)
    from commit_consume_moves[OF 2(2)] show ?thesis by blast
  qed
  then show "queue_moves (Some (range_item (cs_chain_id (dr_source dr)) f)) (pi_db p) (pi_db (pipe_step dr a p))"
    and "tables_grow (pi_db p) (pi_db (pipe_step dr a p))"
    and "\<And>q. q \<in> set (raw_records (pi_db (pipe_step dr a p))) \<Longrightarrow>
        q \<in> set (raw_records (pi_db p)) \<or> raw_key q \<notin> raw_key ` set (raw_records (pi_db p))" by blast+
qed

lemma fresh_commit:
  assumes fr: "fresh cid plan fs d ws" and ch: "contiguous start plan e" and e: "e < 2 ^ 64" and f: "rng f \<in> set plan"
    and fs': "fs' = fs @ [f]" and moves: "queue_moves (Some (range_item cid f)) d d'"
  shows "fresh cid plan fs' d' ws"
  unfolding fresh_def
proof (intro ballI impI conjI)
  fix r assume r: "r \<in> set plan" "r \<notin> rng ` set fs'"
  have b: "fst x < 2 ^ 64 \<and> snd x < 2 ^ 64" if "x \<in> set plan" for x
    using contiguous_bounds[OF ch] that e by fastforce
  have "range_key cid r \<noteq> range_key cid (rng f)"
    using range_key_inj[of r "rng f" cid] b[OF r(1)] b[OF f] r(2) by (auto simp: fs')
  moreover have "r \<notin> rng ` set fs" using r(2) by (simp add: fs')
  moreover from this have "range_key cid r \<notin> queue_key ` set (work_queue d)"
    using fr r(1) unfolding fresh_def by blast
  ultimately show "range_key cid r \<notin> queue_key ` set (work_queue d')"
    using subsetD[OF queue_moves_keys[OF moves], of "range_key cid r"] by auto
  show "\<forall>l. worker_lease w = Some l \<longrightarrow> item_key (le_item l) \<noteq> range_key cid r" if "w \<in> set ws" for w
    using fr r that unfolding fresh_def fs' by auto
qed

lemma pipe_act_inv:
  assumes inv: "bf_inv dr dec start plan rows0 fs s" and ch: "contiguous start plan e" and e: "e < 2 ^ 64"
  shows "\<exists>fs'. bf_inv dr dec start plan rows0 fs' (s\<lparr>bf_pipe := pipe_step dr a (bf_pipe s)\<rparr>)"
proof -
  let ?cid = "cs_chain_id (dr_source dr)" and ?d = "pi_db (bf_pipe s)" and ?d' = "pi_db (pipe_step dr a (bf_pipe s))"
  define p where "p = bf_pipe s"
  define p' where "p' = pipe_step dr a p"
  have pinv: "pipe_inv (stored_or_decoded dec ?cid) dr start plan rows0 fs p" and q: "queue_ok (pi_db p)"
    and wk: "\<And>w. w \<in> set (bf_workers s) \<Longrightarrow> worker_ok dec ?cid (pi_db p) fs w"
    and fr: "pi_result p = None \<Longrightarrow> fresh ?cid plan fs (pi_db p) (bf_workers s)"
    using inv by (auto simp: bf_inv_def Let_def p_def)
  have raw: "stored_raw (pi_db p) (fr_records f)" if "f \<in> set fs" for f
    using pinv that by (auto simp: pipe_inv_def stored_or_decoded_def)
  obtain fs' where pinv': "pipe_inv (stored_or_decoded dec ?cid) dr start plan rows0 fs' p'"
    and alt: "fs' = fs \<and> (pi_db p' = pi_db p \<or> pi_result p' \<noteq> None)
      \<or> (\<exists>f rest. pi_chan p = f # rest \<and> fs' = fs @ [f] \<and> pi_result p = None)"
    using decoding.pipe_step_inv[OF pinv ch e refl, of a] unfolding p'_def by blast
  have prev: "pi_result p' = None \<Longrightarrow> pi_result p = None" by (auto simp: pipe_step_def p'_def split: if_splits)
  have "bf_inv dr dec start plan rows0 fs' (s\<lparr>bf_pipe := p'\<rparr>)"
  proof (cases "fs' = fs")
    case True
    obtain f where m: "pi_db p' = pi_db p \<or> (\<exists>rest. pi_chan p = f # rest)"
      using pipe_step_db[of dr a p] unfolding p'_def by blast
    then obtain rest where m: "pi_chan p = f # rest \<or> pi_db (pipe_step dr a p) = pi_db p" unfolding p'_def by blast
    note mv = pipe_step_moves[OF m]
    have "worker_ok dec ?cid (pi_db p') fs w" if "w \<in> set (bf_workers s)" for w
      unfolding p'_def by (rule worker_ok_grow[OF wk[OF that] mv(1,2,3) raw])
    moreover have "pi_result p' = None \<Longrightarrow> pi_db p' = pi_db p" using alt True by auto
    ultimately show ?thesis
      using pinv' fr prev queue_moves_ok[OF mv(1) q] unfolding bf_inv_def Let_def True p'_def[symmetric] by simp
  next
    case False
    with alt obtain f rest where f: "pi_chan p = f # rest" "fs' = fs @ [f]" "pi_result p = None" by blast
    note mv = pipe_step_moves[of p f rest dr a, OF disjI1[OF f(1)], folded p'_def]
    have flow': "flow_inv dr plan fs' p'" using pinv' by (simp add: pipe_inv_def)
    have cp: "commits_of_plan plan (map commit_entry fs')" using flow' contiguous_distinct[OF ch] by (rule flow_inv_commits)
    have new: "rng f \<in> set plan" "rng f \<notin> rng ` set fs" using cp by (auto simp: commits_of_plan_def f(2) image_iff)
    have unheld: "item_key (le_item l) \<noteq> range_key ?cid (rng f)" if "w \<in> set (bf_workers s)" "worker_lease w = Some l" for w l
      using fr[OF f(3)] new that unfolding fresh_def by blast
    have "worker_ok dec ?cid (pi_db p') fs' w" if w: "w \<in> set (bf_workers s)" for w
      using worker_ok_grow[OF wk[OF w] mv raw] unheld[OF w] unfolding worker_ok_def f(2)
      by (auto dest: sym)
    moreover have "fresh ?cid plan fs' (pi_db p') (bf_workers s)"
      by (rule fresh_commit[OF fr[OF f(3)] ch e new(1) f(2) mv(1)])
    ultimately show ?thesis
      using pinv' queue_moves_ok[OF mv(1) q] unfolding bf_inv_def Let_def by simp
  qed
  then show ?thesis unfolding p'_def p_def by blast
qed


text \<open>A step beside the pipeline: what it must leave alone.\<close>

lemma beside_inv:
  assumes inv: "bf_inv dr dec start plan rows0 fs s" and cid: "cid = cs_chain_id (dr_source dr)"
    and mv: "queue_moves None (pi_db (bf_pipe s)) d'" and "cursors d' = cursors (pi_db (bf_pipe s))"
    and kept: "\<And>f. f \<in> set fs \<Longrightarrow> stored_or_decoded dec cid d' f"
    and ws: "\<And>w. w \<in> set ws \<Longrightarrow> worker_ok dec cid d' fs w"
    and leases: "\<And>w l. w \<in> set ws \<Longrightarrow> worker_lease w = Some l \<Longrightarrow>
       item_key (le_item l) \<in> queue_key ` set (work_queue (pi_db (bf_pipe s)))
       \<or> (\<exists>w \<in> set (bf_workers s). worker_lease w = Some l)"
  shows "bf_inv dr dec start plan rows0 fs (s\<lparr>bf_workers := ws, bf_pipe := (bf_pipe s)\<lparr>pi_db := d'\<rparr>\<rparr>)"
proof -
  have p: "pipe_inv (stored_or_decoded dec cid) dr start plan rows0 fs ((bf_pipe s)\<lparr>pi_db := d'\<rparr>)"
    using inv kept assms(4) by (intro pipe_inv_env) (auto simp: bf_inv_def Let_def cid)
  have q: "queue_ok d'" using inv queue_moves_ok[OF mv] by (simp add: bf_inv_def Let_def)
  have "fresh cid plan fs d' ws" if "pi_result (bf_pipe s) = None"
  proof -
    have f: "fresh cid plan fs (pi_db (bf_pipe s)) (bf_workers s)" using inv that by (simp add: bf_inv_def Let_def cid)
    show ?thesis unfolding fresh_def
    proof (intro ballI impI conjI)
      fix r assume r: "r \<in> set plan" "r \<notin> rng ` set fs"
      with f have old: "range_key cid r \<notin> queue_key ` set (work_queue (pi_db (bf_pipe s)))"
        "\<And>w l. w \<in> set (bf_workers s) \<Longrightarrow> worker_lease w = Some l \<Longrightarrow> item_key (le_item l) \<noteq> range_key cid r"
        unfolding fresh_def by blast+
      show "range_key cid r \<notin> queue_key ` set (work_queue d')"
        using old(1) subsetD[OF queue_moves_keys[OF mv], of "range_key cid r"] by auto
      show "\<forall>l. worker_lease w = Some l \<longrightarrow> item_key (le_item l) \<noteq> range_key cid r" if "w \<in> set ws" for w
        using leases[OF that] old by metis
    qed
  qed
  with p q ws show ?thesis by (auto simp: bf_inv_def Let_def cid)
qed

lemma queue_moves_map:
  assumes "work_queue d' = map g (work_queue d)" and "queue_next_id d' = queue_next_id d"
    and g: "\<And>x. wq_id (g x) = wq_id x" "\<And>x. queue_key (g x) = queue_key x"
  shows "queue_moves new d d'" and "queue_key ` set (work_queue d') = queue_key ` set (work_queue d)"
proof -
  have "\<exists>q \<in> set (work_queue d). wq_id q' = wq_id q \<and> queue_key q' = queue_key q" if "q' \<in> set (work_queue d')" for q'
  proof -
    from that obtain q where "q \<in> set (work_queue d)" "q' = g q" by (auto simp: assms(1))
    with g show ?thesis by (intro bexI[of _ q]) simp_all
  qed
  then show "queue_moves new d d'" using assms(2) unfolding queue_moves_def by simp
  show "queue_key ` set (work_queue d') = queue_key ` set (work_queue d)" by (simp add: assms(1) image_image g)
qed

lemma pull_any_moves:
  assumes "pull_any d = (r, d')"
  shows "queue_moves None d d' \<and> queue_key ` set (work_queue d') = queue_key ` set (work_queue d)
     \<and> raw_records d' = raw_records d \<and> tables d' = tables d \<and> cursors d' = cursors d"
  using assms
proof (cases rule: pull_any_cases)
  case 1
  then show ?thesis
  proof (cases "ready_row d")
    case (Some q)
    let ?g = "\<lambda>x. if wq_id x = wq_id q then leased (clock d) x else x"
    have "work_queue d' = map ?g (work_queue d)" "queue_next_id d' = queue_next_id d"
      by (simp_all add: 1 pulled_def Some)
    from queue_moves_map[OF this] show ?thesis by (simp add: 1 pulled_def Some)
  qed (auto simp: pulled_def queue_moves_def)
qed (auto simp: queue_moves_def)

lemma pull_any_lease:
  assumes "pull_any d = (Ok (Some l), d')" and q: "queue_ok d"
  shows "lease_ok d' l" and "item_key (le_item l) \<in> queue_key ` set (work_queue d)"
proof -
  obtain row where row: "ready_row d = Some row" "l = lease_of (leased (clock d) row)" and d': "d' = (pulled d)\<lparr>faults := tl (faults d)\<rparr>"
    using assms(1) by (cases rule: pull_any_cases) (auto simp: eq_commute[of "Some l"])
  have mem: "row \<in> set (work_queue d)" using ready_rowD[OF row(1)] by blast
  have key: "item_key (le_item l) = queue_key row" and id: "le_id l = wq_id row" "wq_id row < queue_next_id d"
  proof -
    have "item_key (le_item (lease_of row)) = queue_key row" and lt: "wq_id row < queue_next_id d"
      using q mem unfolding queue_ok_def by blast+
    then show "item_key (le_item l) = queue_key row" and "le_id l = wq_id row" and "wq_id row < queue_next_id d"
      by (simp_all add: row(2))
  qed
  show "item_key (le_item l) \<in> queue_key ` set (work_queue d)" using key mem by simp
  have "queue_key x = queue_key row" if "x \<in> set (work_queue d')" "wq_id x = wq_id row" for x
  proof -
    have "x \<in> (\<lambda>y. if wq_id y = wq_id row then leased (clock d) y else y) ` set (work_queue d)"
      using that(1) by (simp add: d' pulled_def row(1))
    then obtain y where y: "y \<in> set (work_queue d)" "x = (if wq_id y = wq_id row then leased (clock d) y else y)" by blast
    then have "wq_id y = wq_id row" "queue_key x = queue_key y" using that(2) by (auto split: if_splits)
    moreover from this q y(1) mem have "queue_key y = queue_key row" unfolding queue_ok_def by blast
    ultimately show ?thesis by simp
  qed
  moreover have "wi_chain_id (le_item l) < 2 ^ 64"
    by (simp add: row(2) lease_of_def as_u64_def nat_less_iff)
  moreover have "queue_next_id d' = queue_next_id d" by (simp add: d' pulled_def row(1))
  ultimately show "lease_ok d' l" unfolding lease_ok_def using key id by auto
qed

text \<open>A successful decoding decodes every stored record of the leased range.\<close>

lemma decode_item_decodes:
  assumes "decode_item hi decoders it d = (Ok n, d')" and "permutes hi" and "decoders cid = Some dec"
    and "cid < 2 ^ 64" and "wi_chain_id it < 2 ^ 64"
    and key: "range_key cid (rng f) = item_key it" and "fr_to f < 2 ^ 63"
    and recs: "\<And>rec. rec \<in> set (fr_records f) \<Longrightarrow> rr_chain_id rec = cid \<and> fr_from f \<le> rr_height rec \<and> rr_height rec \<le> fr_to f"
  shows "is_decoded dec cid d' (fr_records f)"
  unfolding is_decoded_def
proof (intro ballI impI allI)
  have c: "wi_chain_id it = cid" and ft: "as_i64 (wi_from it) = as_i64 (fr_from f)" "as_i64 (wi_to it) = as_i64 (fr_to f)"
    using key assms(4,5) by (auto simp: range_key_def item_key_def as_i64_inj)
  have dr: "decode_range hi dec cid (wi_from it) (wi_to it) d = (Ok n, d')"
    using assms(1,3) by (simp add: decode_item_def c)
  have rr: "raw_records d' = raw_records d" using decode_item_frame[OF assms(1)] by blast
  fix q row assume q: "q \<in> set (raw_records d')" "raw_key q \<in> (raw_key \<circ> raw_row_of) ` set (fr_records f)"
    and row: "dc_decode dec (record_of_raw_row cid q) = Ok (Some row)"
  then obtain rec where rec: "rec \<in> set (fr_records f)" "raw_key q = raw_key (raw_row_of rec)" by auto
  have "as_i64 (fr_from f) \<le> rw_height q \<and> rw_height q \<le> as_i64 (fr_to f) \<and> rw_chain_id q = as_i64 cid"
    using recs[OF rec(1)] rec(2) assms(7) by (simp add: raw_key_def raw_row_of_def as_i64_small)
  then have "record_of_raw_row cid q \<in> set (range_of cid (wi_from it) (wi_to it) d)"
    using q(1) rr by (simp add: range_of_def in_range_def ft)
  from decode_range_writes[OF dr assms(2) this row] show "row_present d' row" unfolding row_present_def by blast
qed


text \<open>An acknowledgement takes away only ranges that were decoded.\<close>

lemma ack_moves:
  assumes "ack i n d = (r, d')"
  shows "queue_moves None d d' \<and> raw_records d' = raw_records d \<and> tables d' = tables d \<and> cursors d' = cursors d
     \<and> (\<forall>q \<in> set (work_queue d). q \<in> set (work_queue d') \<or> wq_id q = i)"
  using assms by (cases rule: ack_cases) (auto simp: queue_moves_def)

lemma reclaim_moves:
  "queue_moves None d (reclaim_tick d) \<and> queue_key ` set (work_queue (reclaim_tick d)) = queue_key ` set (work_queue d)
     \<and> raw_records (reclaim_tick d) = raw_records d \<and> tables (reclaim_tick d) = tables d \<and> cursors (reclaim_tick d) = cursors d"
proof -
  obtain r d' where c: "reclaim_expired 60 d = (r, d')" by fastforce
  then have d': "reclaim_tick d = d'" by (simp add: reclaim_tick_def reclaim_def)
  from c show ?thesis unfolding d'
  proof (cases rule: reclaim_cases)
    case 1
    let ?g = "\<lambda>q. if expired (clock d) 60 q then unlocked q else q"
    have "work_queue d' = map ?g (work_queue d)" "queue_next_id d' = queue_next_id d" by (simp_all add: 1)
    from queue_moves_map[OF this] show "queue_moves None d d' \<and> queue_key ` set (work_queue d') = queue_key ` set (work_queue d)
     \<and> raw_records d' = raw_records d \<and> tables d' = tables d \<and> cursors d' = cursors d"
      by (simp add: 1 unlocked_def queue_key_def)
  qed (auto simp: queue_moves_def)
qed

lemma stored_or_decoded_same_keys:
  assumes "stored_or_decoded dec cid d f" and "raw_records d' = raw_records d" and "tables_grow d d'"
    and "queue_key ` set (work_queue d') = queue_key ` set (work_queue d)"
  shows "stored_or_decoded dec cid d' f"
  by (rule stored_or_decoded_mono[OF assms(1,3)]) (use assms(2,4) in \<open>auto simp: is_queued_def\<close>)

text \<open>The hypotheses about the surroundings of a drive: the feed's logs lie in their range and
  belong to the chain, and the chain has a decoder.\<close>

definition sound_feed :: "'c drive \<Rightarrow> (nat \<Rightarrow> nat \<Rightarrow> raw_record list) \<Rightarrow> bool" where
  "sound_feed dr logs \<longleftrightarrow> feeds dr logs \<and> (\<forall>lo hi. \<forall>rec \<in> set (logs lo hi).
     rr_chain_id rec = cs_chain_id (dr_source dr) \<and> lo \<le> rr_height rec \<and> rr_height rec \<le> hi)"

definition ranged :: "chain_id \<Rightarrow> fetched_range \<Rightarrow> bool" where
  "ranged cid f \<longleftrightarrow> fr_to f < 2 ^ 63 \<and> (\<forall>rec \<in> set (fr_records f).
     rr_chain_id rec = cid \<and> fr_from f \<le> rr_height rec \<and> rr_height rec \<le> fr_to f)"

definition worker_moves :: "decoder \<Rightarrow> chain_id \<Rightarrow> fetched_range list \<Rightarrow> worker \<Rightarrow> db \<Rightarrow> worker \<Rightarrow> db \<Rightarrow> bool" where
  "worker_moves dec cid fs w d w' d' \<longleftrightarrow> queue_moves None d d' \<and> raw_records d' = raw_records d \<and> cursors d' = cursors d
     \<and> tables_grow d d' \<and> (\<forall>f \<in> set fs. stored_or_decoded dec cid d' f) \<and> worker_ok dec cid d' fs w'
     \<and> (\<forall>l. worker_lease w' = Some l \<longrightarrow> item_key (le_item l) \<in> queue_key ` set (work_queue d) \<or> worker_lease w = Some l)"

lemma idle_moves:
  assumes step: "worker_step hi decoders Idle d = (w', d')" and q: "queue_ok d"
    and kept: "\<And>f. f \<in> set fs \<Longrightarrow> stored_or_decoded dec cid d f"
  shows "worker_moves dec cid fs Idle d w' d'"
proof -
  obtain r where p: "pull_any d = (r, d')" using step by (auto split: prod.splits res.splits option.splits)
  note mv = pull_any_moves[OF p]
  have grow: "tables_grow d d'" using mv by (simp add: tables_grow_def)
  have "stored_or_decoded dec cid d' f" if "f \<in> set fs" for f
    using stored_or_decoded_same_keys[OF kept[OF that] _ grow] mv by blast
  moreover have new: "(\<exists>l. w' = Holding l \<and> pull_any d = (Ok (Some l), d')) \<or> worker_lease w' = None \<and> (\<forall>l. w' \<noteq> Finished l)"
    using step p by (auto split: res.splits option.splits)
  have "worker_ok dec cid d' fs w' \<and> (\<forall>l. worker_lease w' = Some l \<longrightarrow> item_key (le_item l) \<in> queue_key ` set (work_queue d))"
    using new pull_any_lease[OF _ q] unfolding worker_ok_def by (elim disjE exE conjE) auto
  ultimately show ?thesis using mv grow unfolding worker_moves_def by blast
qed

lemma holding_moves:
  assumes step: "worker_step hi decoders (Holding l) d = (w', d')" and wk: "worker_ok dec cid d fs (Holding l)"
    and kept: "\<And>f. f \<in> set fs \<Longrightarrow> stored_or_decoded dec cid d f" and rg: "\<And>f. f \<in> set fs \<Longrightarrow> ranged cid f"
    and hi: "permutes hi" and cid: "cid < 2 ^ 64" and dec: "decoders cid = Some dec"
  shows "worker_moves dec cid fs (Holding l) d w' d'"
proof -
  obtain r where p: "decode_item hi decoders (le_item l) d = (r, d')"
    using step by (auto split: prod.splits res.splits)
  note mv = decode_item_frame[OF p]
  have moves: "queue_moves None d d'" using mv by (intro queue_moves_same) auto
  have k: "stored_or_decoded dec cid d' f" if "f \<in> set fs" for f
    by (rule stored_or_decoded_same_keys[OF kept[OF that]]) (use mv in auto)
  have l: "lease_ok d l" using wk by (simp add: worker_ok_def)
  have w': "w' = Finished l \<and> (\<exists>n. r = Ok n) \<or> worker_lease w' = None" using step p by (auto split: res.splits)
  have "is_decoded dec cid d' (fr_records f)"
    if f: "f \<in> set fs" "range_key cid (rng f) = item_key (le_item l)" and fin: "w' = Finished l" for f
  proof -
    obtain n where n: "decode_item hi decoders (le_item l) d = (Ok n, d')" using w' p fin by auto
    show ?thesis
      by (rule decode_item_decodes[where n = n, OF n hi dec cid])
        (use l f rg[OF f(1)] in \<open>auto simp: lease_ok_def ranged_def\<close>)
  qed
  with w' have "worker_ok dec cid d' fs w'"
    using queue_moves_lease[OF moves l] unfolding worker_ok_def by auto
  with moves mv k w' show ?thesis unfolding worker_moves_def by auto
qed

lemma finished_moves:
  assumes step: "worker_step hi decoders (Finished l) d = (w', d')" and wk: "worker_ok dec cid d fs (Finished l)"
    and kept: "\<And>f. f \<in> set fs \<Longrightarrow> stored_or_decoded dec cid d f"
  shows "worker_moves dec cid fs (Finished l) d w' d'"
proof -
  obtain r where p: "ack (le_id l) (le_seq l) d = (r, d')" using step by (auto split: prod.splits res.splits)
  note mv = ack_moves[OF p]
  have l: "lease_ok d l" and fin: "\<And>f. f \<in> set fs \<Longrightarrow> range_key cid (rng f) = item_key (le_item l) \<Longrightarrow> is_decoded dec cid d (fr_records f)"
    using wk by (auto simp: worker_ok_def)
  have same: "raw_records d' = raw_records d" "tables d' = tables d" using mv by blast+
  have k: "stored_or_decoded dec cid d' f" if f: "f \<in> set fs" for f
  proof (rule stored_or_decoded_mono[OF kept[OF f]])
    show "is_queued d' (range_item cid f) \<or> is_decoded dec cid d' (fr_records f)" if queued: "is_queued d (range_item cid f)"
    proof -
      obtain row where row: "row \<in> set (work_queue d)" "queue_key row = range_key cid (rng f)"
        using queued by (auto simp: is_queued_def)
      show ?thesis
      proof (cases "row \<in> set (work_queue d')")
        case True
        with row(2) have "is_queued d' (range_item cid f)" unfolding is_queued_def range_item_key by (metis image_eqI)
        then show ?thesis ..
      next
        case False
        with mv row(1) have "wq_id row = le_id l" by blast
        with l row have "range_key cid (rng f) = item_key (le_item l)" unfolding lease_ok_def by metis
        with fin[OF f] show ?thesis using same by (simp add: is_decoded_def row_present_def)
      qed
    qed
  qed (use same in \<open>simp_all add: tables_grow_def\<close>)
  moreover have "worker_lease w' = None" using step p by (auto split: res.splits)
  moreover have "worker_ok dec cid d' fs w'" using calculation(2) by (cases w') (auto simp: worker_ok_def)
  ultimately show ?thesis using mv same unfolding worker_moves_def by (simp add: tables_grow_def)
qed

lemma worker_step_moves:
  assumes step: "worker_step hi decoders w d = (w', d')" and q: "queue_ok d" and wk: "worker_ok dec cid d fs w"
    and kept: "\<And>f. f \<in> set fs \<Longrightarrow> stored_or_decoded dec cid d f" and rg: "\<And>f. f \<in> set fs \<Longrightarrow> ranged cid f"
    and hi: "permutes hi" and cid: "cid < 2 ^ 64" and dec: "decoders cid = Some dec"
  shows "worker_moves dec cid fs w d w' d'"
proof (cases w)
  case Idle
  then show ?thesis using idle_moves step q kept by simp
next
  case (Holding l)
  with holding_moves[OF step[unfolded Holding] wk[unfolded Holding] kept rg hi cid dec] show ?thesis by simp
next
  case (Finished l)
  with finished_moves[OF step[unfolded Finished] wk[unfolded Finished] kept] show ?thesis by simp
next
  case Crashed
  with step wk kept show ?thesis unfolding worker_moves_def by (simp add: queue_moves_same)
qed

lemma worker_act_inv:
  assumes inv: "bf_inv dr dec start plan rows0 fs s" and ch: "contiguous start plan e" and e: "e \<le> 2 ^ 63"
    and feed: "sound_feed dr logs" and hi: "permutes hi" and cid: "cid = cs_chain_id (dr_source dr)" "cid < 2 ^ 64"
    and dec: "decoders cid = Some dec"
  shows "bf_inv dr dec start plan rows0 fs (backfill_step dr hi decoders (WorkerAct i) s)"
proof (cases "i < length (bf_workers s)")
  case False
  then show ?thesis using inv by simp
next
  case True
  define d where "d = pi_db (bf_pipe s)"
  define w where "w = bf_workers s ! i"
  obtain w' d' where step: "worker_step hi decoders w d = (w', d')" by fastforce
  have w: "w \<in> set (bf_workers s)" using True by (simp add: w_def)
  have pinv: "pipe_inv (stored_or_decoded dec cid) dr start plan rows0 fs (bf_pipe s)" and q: "queue_ok d"
    and wk: "\<And>x. x \<in> set (bf_workers s) \<Longrightarrow> worker_ok dec cid d fs x"
    using inv by (simp_all add: bf_inv_def Let_def cid d_def)
  have kept: "stored_or_decoded dec cid d f" if "f \<in> set fs" for f
    using pinv that by (simp add: pipe_inv_def d_def)
  have rg: "ranged cid f" if "f \<in> set fs" for f
  proof -
    have flow: "flow_inv dr plan fs (bf_pipe s)" using pinv by (simp add: pipe_inv_def)
    have "rng f \<in> set plan"
      using flow_inv_commits[OF flow contiguous_distinct[OF ch]] that by (auto simp: commits_of_plan_def)
    then have "fr_to f < e" using contiguous_bounds[OF ch] by fastforce
    moreover have "was_fetched dr f" using flow that by (simp add: flow_inv_def)
    moreover from calculation have "fr_records f = logs (fr_from f) (fr_to f)"
      using was_fetched_feeds[of dr f logs] feed e by (simp add: sound_feed_def)
    ultimately show ?thesis using e feed by (auto simp: ranged_def sound_feed_def cid)
  qed
  have facts: "worker_moves dec cid fs w d w' d'"
    by (rule worker_step_moves[OF step q wk[OF w] kept rg hi cid(2) dec])
  note facts = facts[unfolded worker_moves_def]
  have raw: "stored_raw d (fr_records f)" if "f \<in> set fs" for f using kept[OF that] by (simp add: stored_or_decoded_def)
  have others: "worker_ok dec cid d' fs x" if "x \<in> set ((bf_workers s)[i := w'])" for x
  proof (cases "x = w'")
    case True
    then show ?thesis using facts by blast
  next
    case False
    then have "x \<in> set (bf_workers s)" using that set_update_subset_insert[of "bf_workers s" i w'] by blast
    from worker_ok_grow[OF wk[OF this], of None d'] facts raw show ?thesis by auto
  qed
  have "bf_inv dr dec start plan rows0 fs (s\<lparr>bf_workers := (bf_workers s)[i := w'], bf_pipe := (bf_pipe s)\<lparr>pi_db := d'\<rparr>\<rparr>)"
  proof (rule beside_inv[OF inv cid(1)])
    show "item_key (le_item l) \<in> queue_key ` set (work_queue (pi_db (bf_pipe s))) \<or> (\<exists>w \<in> set (bf_workers s). worker_lease w = Some l)"
      if "x \<in> set ((bf_workers s)[i := w'])" "worker_lease x = Some l" for x l
      using facts that w set_update_subset_insert[of "bf_workers s" i w'] unfolding d_def by blast
  qed (use facts others in \<open>auto simp: d_def\<close>)
  then show ?thesis using True step by (simp add: on_pipe_db_def d_def w_def)
qed


lemma quiet_act_inv:
  assumes inv: "bf_inv dr dec start plan rows0 fs s" and "queue_moves None (pi_db (bf_pipe s)) d'"
    and "raw_records d' = raw_records (pi_db (bf_pipe s))" and "tables d' = tables (pi_db (bf_pipe s))"
    and "cursors d' = cursors (pi_db (bf_pipe s))"
    and "queue_key ` set (work_queue d') = queue_key ` set (work_queue (pi_db (bf_pipe s)))"
  shows "bf_inv dr dec start plan rows0 fs (on_pipe_db (\<lambda>_. d') s)"
proof -
  let ?cid = "cs_chain_id (dr_source dr)" and ?d = "pi_db (bf_pipe s)"
  have kept: "stored_or_decoded dec ?cid ?d f" if "f \<in> set fs" for f
    using inv that by (simp add: bf_inv_def Let_def pipe_inv_def)
  have grow: "tables_grow ?d d'" using assms(4) by (simp add: tables_grow_def)
  have "bf_inv dr dec start plan rows0 fs (s\<lparr>bf_workers := bf_workers s, bf_pipe := (bf_pipe s)\<lparr>pi_db := d'\<rparr>\<rparr>)"
  proof (rule beside_inv[OF inv refl assms(2,5)])
    show "stored_or_decoded dec ?cid d' f" if "f \<in> set fs" for f
      by (rule stored_or_decoded_same_keys[OF kept[OF that] assms(3) grow assms(6)])
    show "worker_ok dec ?cid d' fs w" if "w \<in> set (bf_workers s)" for w
    proof (rule worker_ok_grow[OF _ assms(2) grow])
      show "worker_ok dec ?cid ?d fs w" using inv that by (simp add: bf_inv_def Let_def)
      show "stored_raw ?d (fr_records f)" if "f \<in> set fs" for f using kept[OF that] by (simp add: stored_or_decoded_def)
    qed (use assms(3) in simp)
  qed blast
  then show ?thesis by (simp add: on_pipe_db_def)
qed

lemma backfill_step_inv:
  assumes inv: "bf_inv dr dec start plan rows0 fs s" and ch: "contiguous start plan e" and e: "e \<le> 2 ^ 63"
    and feed: "sound_feed dr logs" and hi: "permutes hi" and cid: "cs_chain_id (dr_source dr) < 2 ^ 64"
    and dec: "decoders (cs_chain_id (dr_source dr)) = Some dec"
  shows "\<exists>fs'. bf_inv dr dec start plan rows0 fs' (backfill_step dr hi decoders a s)"
proof (cases a)
  case (PipeAct x)
  have "e < 2 ^ 64" using e by simp
  from pipe_act_inv[OF inv ch this, of x] show ?thesis by (simp add: PipeAct)
next
  case (WorkerAct i)
  have "bf_inv dr dec start plan rows0 fs (backfill_step dr hi decoders (WorkerAct i) s)"
    using worker_act_inv[OF inv ch e feed hi refl cid, of decoders i] dec by simp
  then show ?thesis unfolding WorkerAct by blast
next
  case ReclaimTick
  have "bf_inv dr dec start plan rows0 fs (on_pipe_db (\<lambda>_. reclaim_tick (pi_db (bf_pipe s))) s)"
    by (rule quiet_act_inv[OF inv]) (use reclaim_moves[of "pi_db (bf_pipe s)"] in blast)+
  then show ?thesis by (auto simp: ReclaimTick on_pipe_db_def)
next
  case (ClockTick n)
  let ?d = "pi_db (bf_pipe s)"
  have "bf_inv dr dec start plan rows0 fs (on_pipe_db (\<lambda>_. ?d\<lparr>clock := clock ?d + n\<rparr>) s)"
    by (rule quiet_act_inv[OF inv]) (simp_all add: queue_moves_same)
  then show ?thesis by (auto simp: ClockTick on_pipe_db_def)
qed

lemma backfill_run_inv:
  assumes "bf_inv dr dec start plan rows0 fs s" and "contiguous start plan e" and "e \<le> 2 ^ 63"
    and "sound_feed dr logs" and "permutes hi" and "cs_chain_id (dr_source dr) < 2 ^ 64"
    and "decoders (cs_chain_id (dr_source dr)) = Some dec"
  shows "\<exists>fs'. bf_inv dr dec start plan rows0 fs' (fold (backfill_step dr hi decoders) acts s)"
  using assms(1)
proof (induction acts arbitrary: fs s)
  case (Cons a acts)
  obtain fs' where "bf_inv dr dec start plan rows0 fs' (backfill_step dr hi decoders a s)"
    using backfill_step_inv[OF Cons.prems assms(2-6), of decoders a] assms(7) by blast
  from Cons.IH[OF this] show ?case by simp
qed auto

lemma backfill_init_inv:
  assumes "pipe_init start target step c d = Some p" and "plan_ranges start target step = Some plan" and "queue_ok d"
    and "\<And>r. r \<in> set plan \<Longrightarrow> range_key (cs_chain_id (dr_source dr)) r \<notin> queue_key ` set (work_queue d)"
  shows "bf_inv dr dec start plan (set (cursors d)) [] \<lparr>bf_pipe = p, bf_workers = spawn_worker_pool n\<rparr>"
proof -
  have "pi_db p = d" "pi_result p = None" using assms(1) by (auto simp: pipe_init_def)
  then show ?thesis
    using decoding.pipe_init_inv[OF assms(1,2)] assms(3,4)
    by (auto simp: bf_inv_def Let_def worker_ok_def fresh_def spawn_worker_pool_def)
qed

section \<open>Properties\<close>

lemma fetched_range_kept:
  assumes "sound_feed dr logs" and "\<exists>f. rng f = (lo, hi) \<and> was_fetched dr f \<and> stored_or_decoded dec cid d f" and "hi < 2 ^ 63"
  shows "stored_raw d (logs lo hi) \<and> (logs lo hi \<noteq> [] \<longrightarrow> range_key cid (lo, hi) \<in> queue_key ` set (work_queue d)
     \<or> is_decoded dec cid d (logs lo hi))"
proof -
  from assms(2) obtain f where f: "rng f = (lo, hi)" "was_fetched dr f" "stored_or_decoded dec cid d f" by blast
  then have "fr_records f = logs lo hi" using was_fetched_feeds[OF f(2)] assms(1,3) by (simp add: sound_feed_def)
  then show ?thesis using f by (simp add: stored_or_decoded_def is_queued_def)
qed

lemma backfill_keeps_ranges:
  assumes "0 < step" and "target + step < 2 ^ 63" and "next \<le> target"
    and "run_backfill dr hi decoders workers acts next target step c d = Some s"
    and "sound_feed dr logs" and "permutes hi" and "cid = cs_chain_id (dr_source dr)" and "cid < 2 ^ 64"
    and "decoders cid = Some dec" and "queue_ok d"
    and "\<forall>r \<in> set (spans next target step). range_key cid r \<notin> queue_key ` set (work_queue d)"
    and "db = pi_db (bf_pipe s)"
  shows "(\<forall>row \<in> set (cursors db). cu_chain_id row = as_i64 cid \<longrightarrow> row \<notin> set (cursors d) \<longrightarrow>
       (\<exists>h. cu_last_height row = as_i64 h \<and> h \<in> snd ` set (spans next target step)
         \<and> (\<forall>(lo, hi) \<in> set (spans next target step). hi \<le> h \<longrightarrow> stored_raw db (logs lo hi)
              \<and> (logs lo hi \<noteq> [] \<longrightarrow> range_key cid (lo, hi) \<in> queue_key ` set (work_queue db)
                   \<or> is_decoded dec cid db (logs lo hi)))))
     \<and> (\<forall>po. pi_result (bf_pipe s) = Some (Ok po) \<longrightarrow> \<not> po_shutdown po \<longrightarrow> work_queue db = [] \<longrightarrow>
         (\<forall>(lo, hi) \<in> set (spans next target step). stored_raw db (logs lo hi) \<and> is_decoded dec cid db (logs lo hi)))"
proof -
  let ?plan = "spans next target step"
  have plan: "plan_ranges next target step = Some ?plan" using assms(1,2) by (simp add: plan_ranges_spans)
  have ch: "contiguous next ?plan (target + 1)" using assms(1,3) by (intro contiguous_spans) simp_all
  have e: "target + 1 \<le> 2 ^ 63" "target + 1 < 2 ^ 64" using assms(1,2) by simp_all
  obtain p where p: "pipe_init next target step c d = Some p"
    "s = fold (backfill_step dr hi decoders) acts \<lparr>bf_pipe = p, bf_workers = spawn_worker_pool workers\<rparr>"
    using assms(4) by (auto simp: run_backfill_def)
  have "bf_inv dr dec next ?plan (set (cursors d)) [] \<lparr>bf_pipe = p, bf_workers = spawn_worker_pool workers\<rparr>"
    using assms(7,10,11) by (intro backfill_init_inv[OF p(1) plan]) auto
  from backfill_run_inv[OF this ch e(1) assms(5,6), of decoders acts] assms(7-9) obtain fs
    where "bf_inv dr dec next ?plan (set (cursors d)) fs s" unfolding p(2) by auto
  then have inv: "pipe_inv (stored_or_decoded dec cid) dr next ?plan (set (cursors d)) fs (bf_pipe s)"
    by (simp add: bf_inv_def Let_def assms(7))
  have facts: "stored_raw db (logs lo hi) \<and> (logs lo hi \<noteq> [] \<longrightarrow> range_key cid (lo, hi) \<in> queue_key ` set (work_queue db)
      \<or> is_decoded dec cid db (logs lo hi))"
    if "\<exists>f. rng f = (lo, hi) \<and> was_fetched dr f \<and> stored_or_decoded dec cid (pi_db (bf_pipe s)) f"
      and "(lo, hi) \<in> set ?plan" for lo hi
    using fetched_range_kept[OF assms(5) that(1)] spans_width[OF that(2)] assms(2,12) by simp
  show ?thesis
  proof (intro conjI ballI impI allI)
    fix row assume row: "row \<in> set (cursors db)" "cu_chain_id row = as_i64 cid" "row \<notin> set (cursors d)"
    have "\<exists>h. cu_last_height row = as_i64 h \<and> h \<in> snd ` set ?plan \<and> (\<forall>(lo', hi') \<in> set ?plan. hi' \<le> h \<longrightarrow>
        (\<exists>f. rng f = (lo', hi') \<and> was_fetched dr f \<and> stored_or_decoded dec cid (pi_db (bf_pipe s)) f))"
      by (rule decoding.cursor_covers[OF inv ch e(2)]) (use row assms(7,12) in simp_all)
    then obtain h where h: "cu_last_height row = as_i64 h" "h \<in> snd ` set ?plan"
      and cov: "\<forall>(lo', hi') \<in> set ?plan. hi' \<le> h \<longrightarrow>
        (\<exists>f. rng f = (lo', hi') \<and> was_fetched dr f \<and> stored_or_decoded dec cid (pi_db (bf_pipe s)) f)" by (elim exE conjE)
    show "\<exists>h. cu_last_height row = as_i64 h \<and> h \<in> snd ` set ?plan
         \<and> (\<forall>(lo, hi) \<in> set ?plan. hi \<le> h \<longrightarrow> stored_raw db (logs lo hi)
              \<and> (logs lo hi \<noteq> [] \<longrightarrow> range_key cid (lo, hi) \<in> queue_key ` set (work_queue db)
                   \<or> is_decoded dec cid db (logs lo hi)))"
    proof (intro exI[of _ h] conjI h ballI)
      fix r assume r: "r \<in> set ?plan"
      obtain lo hi where lh: "r = (lo, hi)" by fastforce
      show "case r of (lo, hi) \<Rightarrow> hi \<le> h \<longrightarrow> stored_raw db (logs lo hi)
              \<and> (logs lo hi \<noteq> [] \<longrightarrow> range_key cid (lo, hi) \<in> queue_key ` set (work_queue db)
                   \<or> is_decoded dec cid db (logs lo hi))"
        using facts[of lo hi] bspec[OF cov r] r by (simp add: lh)
    qed
  next
    fix po r assume po: "pi_result (bf_pipe s) = Some (Ok po)" "\<not> po_shutdown po" and empty: "work_queue db = []"
      and r: "r \<in> set ?plan"
    obtain lo hi where lh: "r = (lo, hi)" by fastforce
    have "\<exists>f. rng f = (lo, hi) \<and> was_fetched dr f \<and> stored_or_decoded dec cid (pi_db (bf_pipe s)) f"
      using bspec[OF conjunct2[OF conjunct2[OF decoding.completed_drive[OF inv ch e(2) assms(3) po]]] r] by (simp add: lh)
    from facts[OF this] r empty show "case r of (lo, hi) \<Rightarrow> stored_raw db (logs lo hi) \<and> is_decoded dec cid db (logs lo hi)"
      by (auto simp: lh is_decoded_def)
  qed
qed


lemma demo_sound_feed: "sound_feed demo_drive demo_logs"
  using demo_feeds by (auto simp: sound_feed_def demo_drive_def demo_chain_def demo_logs_def demo_raw_def)

lemma fold_PipeAct: "fold (backfill_step dr hi decoders) (map PipeAct acts) s = s\<lparr>bf_pipe := fold (pipe_step dr) acts (bf_pipe s)\<rparr>"
  by (induction acts arbitrary: s) auto


end
