(* ===== verification/Tip_Loop.thy ===== *)
theory Tip_Loop
  imports Pipeline
begin

text \<open>
  \<open>bins/indexer-cli/src/tip.rs\<close>, \<open>ingest.rs\<close> and \<open>supervisor.rs\<close>: the state machine of the
  live tip, the loop of one chain that resumes at the cursor, probes for reorganisations,
  catches up to the confirmed head and waits for the next event, and the supervisor that
  restarts the loop.

  What the surroundings decide is an argument of an iteration: whether shutdown was
  requested, how the halves of the fetch pipeline interleave, and what ends the wait.
\<close>

section \<open>Tip state\<close>

definition PENDING_RECHECK_SECS :: nat where
  "PENDING_RECHECK_SECS = 2"

record tip_state =
  ts_ws_enabled :: bool
  ts_sub :: "(domain_error, tip_log) res list option"
  ts_pending :: "nat set"
  ts_reconcile :: bool
  ts_reorg_at :: "nat option"

definition tip_new :: "bool \<Rightarrow> tip_state" where
  "tip_new ws_enabled = \<lparr>ts_ws_enabled = ws_enabled, ts_sub = None, ts_pending = {}, ts_reconcile = True, ts_reorg_at = None\<rparr>"

definition ensure_subscribed :: "'c chain_source \<Rightarrow> record_filter \<Rightarrow> tip_state \<Rightarrow> ('c, domain_error, tip_state) m" where
  "ensure_subscribed cs filt t =
     (if \<not> ts_ws_enabled t \<or> ts_sub t \<noteq> None then ret t
      else (\<lambda>c. case cs_subscribe cs filt c of
          (Ok stream, c') \<Rightarrow> (Ok (t\<lparr>ts_sub := Some stream, ts_reconcile := True\<rparr>), c')
        | (Err e, c') \<Rightarrow> (Ok t, c')
        | (Panic, c') \<Rightarrow> (Panic, c')))"

definition must_fetch :: "nat \<Rightarrow> tip_state \<Rightarrow> bool" where
  "must_fetch safe t \<longleftrightarrow> \<not> ts_ws_enabled t \<or> ts_reconcile t \<or> (ts_pending t \<noteq> {} \<and> Min (ts_pending t) \<le> safe)"

definition clear_through :: "nat \<Rightarrow> tip_state \<Rightarrow> tip_state" where
  "clear_through target t = t\<lparr>ts_pending := Set.filter (\<lambda>h. target < h) (ts_pending t)\<rparr>"

definition should_poll_head :: "tip_state \<Rightarrow> bool" where
  "should_poll_head t \<longleftrightarrow> \<not> ts_ws_enabled t \<or> ts_reconcile t \<or> ts_pending t \<noteq> {}"

definition take_reorg_signal :: "tip_state \<Rightarrow> nat option \<times> tip_state" where
  "take_reorg_signal t = (ts_reorg_at t, t\<lparr>ts_reorg_at := None\<rparr>)"

definition tip_wait :: "nat \<Rightarrow> tip_state \<Rightarrow> nat" where
  "tip_wait interval t = (if ts_pending t = {} then interval else min interval PENDING_RECHECK_SECS)"

fun on_ws_event :: "(domain_error, tip_log) res option \<Rightarrow> tip_state \<Rightarrow> tip_state outcome" where
  "on_ws_event (Some (Ok l)) t = Returns
     (if tl_removed l
      then let h = rr_height (tl_record l)
           in t\<lparr>ts_reorg_at := Some (case ts_reorg_at t of None \<Rightarrow> h | Some cur \<Rightarrow> min cur h)\<rparr>
      else t\<lparr>ts_pending := insert (rr_height (tl_record l)) (ts_pending t)\<rparr>)"
| "on_ws_event (Some (Err e)) t = Returns (t\<lparr>ts_sub := None\<rparr>)"
| "on_ws_event None t = Returns (t\<lparr>ts_sub := None\<rparr>)"
| "on_ws_event (Some Panic) t = Panics"

text \<open>An item of the stream is computed by a closure, which may panic. \<open>StreamExt::next\<close> on
  the live stream:\<close>

definition stream_next :: "tip_state \<Rightarrow> (domain_error, tip_log) res option \<times> tip_state" where
  "stream_next t = (case ts_sub t of
     Some (x # rest) \<Rightarrow> (Some x, t\<lparr>ts_sub := Some rest\<rparr>)
   | _ \<Rightarrow> (None, t))"

section \<open>The ingest loop\<close>

definition REORG_PROBE_TICKS :: nat where
  "REORG_PROBE_TICKS = 16"

record caught_up =
  cu_next :: nat
  cu_shutdown :: bool
  cu_behind :: bool

text \<open>The arguments of \<open>ingest_loop\<close>; the chain source, the filter, the concurrency and the
  ledger are in the drive.\<close>

record 'c loop_cfg =
  lc_drive :: "'c drive"
  lc_tables :: "string list"
  lc_confirmations :: nat
  lc_start_block :: nat
  lc_step :: nat
  lc_interval :: nat

text \<open>The locals of the loop. \<open>in_heard\<close> is a history variable, which the code does not have:
  the heights pushed on the current stream since it was opened or the last rollback.\<close>

record 'c ingest =
  in_next :: nat
  in_tip :: tip_state
  in_tick :: nat
  in_wait :: nat
  in_src :: 'c
  in_db :: db
  in_heard :: "nat set"

datatype wake = WakeCancelled | WakeEvent | WakeTimeout

record tick_env =
  te_cancelled :: bool
  te_acts :: "pipe_action list"
  te_wake :: wake

text \<open>How an iteration ends: at once into the next one, out of the loop, at the wait, or still
  inside the drive.\<close>

datatype flow = Again | Leave | Wait | InDrive

definition on_world :: "('c \<times> db, 'e, 'a) m \<Rightarrow> ('c ingest, 'e, 'a) m" where
  "on_world f s = (let (r, w) = f (in_src s, in_db s) in (r, s\<lparr>in_src := fst w, in_db := snd w\<rparr>))"

definition modify :: "('s \<Rightarrow> 's) \<Rightarrow> ('s, 'e, unit) m" where
  "modify f s = (Ok (), f s)"

definition pipeline_m :: "'c drive \<Rightarrow> pipe_action list \<Rightarrow> nat \<Rightarrow> nat \<Rightarrow> nat
    \<Rightarrow> ('c \<times> db, domain_error, pipeline_outcome option) m" where
  "pipeline_m dr acts next target step w =
     (case run_pipeline dr acts next target step (fst w) (snd w) of
        None \<Rightarrow> (Ok None, w)
      | Some s \<Rightarrow> (case pi_result s of
          None \<Rightarrow> (Ok None, (pi_src s, pi_db s))
        | Some (Ok po) \<Rightarrow> (Ok (Some po), (pi_src s, pi_db s))
        | Some (Err e) \<Rightarrow> (Err e, (pi_src s, pi_db s))
        | Some Panic \<Rightarrow> (Panic, (pi_src s, pi_db s))))"

definition catch_up :: "'c loop_cfg \<Rightarrow> pipe_action list \<Rightarrow> nat \<Rightarrow> ('c ingest, domain_error, caught_up option) m" where
  "catch_up cfg acts safe s =
     (let dr = lc_drive cfg; chain = cs_chain_id (dr_source dr); next = in_next s;
          fetch = must_fetch safe (in_tip s);
          target = fetch_target safe next (lc_step cfg) (dr_conc dr) fetch
      in if \<not> fetch
         then bind (on_world (on_db (cursor_advance chain target []))) (\<lambda>_.
              let next' = u64_add target 1
              in ret (Some \<lparr>cu_next = next', cu_shutdown = False, cu_behind = (next' \<le> safe)\<rparr>)) s
         else bind (on_world (pipeline_m dr acts next target (lc_step cfg))) (\<lambda>out. case out of
              None \<Rightarrow> ret None
            | Some po \<Rightarrow>
                let next' = (case po_advanced_to po of None \<Rightarrow> next | Some adv \<Rightarrow> u64_add adv 1)
                in if po_shutdown po
                   then ret (Some \<lparr>cu_next = next', cu_shutdown = True, cu_behind = False\<rparr>)
                   else bind (modify (\<lambda>s. s\<lparr>in_tip := clear_through (saturating_sub next' 1)
                                                 ((in_tip s)\<lparr>ts_reconcile := (next' \<le> safe)\<rparr>)\<rparr>)) (\<lambda>_.
                        ret (Some \<lparr>cu_next = next', cu_shutdown = False, cu_behind = (next' \<le> safe)\<rparr>))) s)"

fun announced :: "(domain_error, tip_log) res option \<Rightarrow> nat set" where
  "announced (Some (Ok l)) = (if tl_removed l then {} else {rr_height (tl_record l)})"
| "announced _ = {}"

text \<open>The parts of an iteration: subscribing, the reorganisation probe, the head poll, the wait.\<close>

definition subscribe_step :: "'c loop_cfg \<Rightarrow> ('c ingest, domain_error, unit) m" where
  "subscribe_step cfg s =
     (case ensure_subscribed (dr_source (lc_drive cfg)) (dr_filter (lc_drive cfg)) (in_tip s) (in_src s) of
        (Ok t, c) \<Rightarrow> (Ok (), s\<lparr>in_tip := t, in_src := c,
            in_heard := (if ts_sub t = ts_sub (in_tip s) then in_heard s else {})\<rparr>)
      | (Err e, c) \<Rightarrow> (Err e, s\<lparr>in_src := c\<rparr>)
      | (Panic, c) \<Rightarrow> (Panic, s\<lparr>in_src := c\<rparr>))"

definition reorg_step :: "'c loop_cfg \<Rightarrow> ('c ingest, domain_error, unit) m" where
  "reorg_step cfg s =
     (let tick = u64_add (in_tick s) 1;
          (signal, t) = take_reorg_signal (in_tip s);
          probe = (signal \<noteq> None \<or> \<not> ts_ws_enabled t \<or> tick mod REORG_PROBE_TICKS = 0);
          s1 = s\<lparr>in_tick := tick, in_tip := t\<rparr>
      in if probe
         then bind (on_world (reorg_check (dr_source (lc_drive cfg)) (lc_tables cfg) (lc_confirmations cfg))) (\<lambda>r. case r of
              None \<Rightarrow> ret ()
            | Some reindex \<Rightarrow> modify (\<lambda>s. s\<lparr>in_next := reindex, in_tip := (in_tip s)\<lparr>ts_reconcile := True\<rparr>, in_heard := {}\<rparr>)) s1
         else (Ok (), s1))"

definition poll_step :: "'c loop_cfg \<Rightarrow> pipe_action list \<Rightarrow> ('c ingest, domain_error, flow) m" where
  "poll_step cfg acts s =
     (if \<not> should_poll_head (in_tip s) then ret Wait s
      else bind (on_world (on_src (cs_head (dr_source (lc_drive cfg))))) (\<lambda>head s.
        let safe = saturating_sub head (lc_confirmations cfg)
        in if in_next s \<le> safe
           then bind (catch_up cfg acts safe) (\<lambda>out. case out of
                None \<Rightarrow> ret InDrive
              | Some caught \<Rightarrow>
                  if cu_shutdown caught then ret Leave
                  else bind (modify (\<lambda>s. s\<lparr>in_next := cu_next caught\<rparr>)) (\<lambda>_.
                       ret (if cu_behind caught then Again else Wait))) s
           else ret Wait s) s)"

definition wait_step :: "'c loop_cfg \<Rightarrow> wake \<Rightarrow> ('c ingest, domain_error, flow) m" where
  "wait_step cfg w s =
     (let s1 = s\<lparr>in_wait := tip_wait (lc_interval cfg) (in_tip s)\<rparr>
      in case w of
        WakeCancelled \<Rightarrow> (Ok Leave, s1)
      | WakeTimeout \<Rightarrow> (Ok Again, s1)
      | WakeEvent \<Rightarrow>
          if ts_sub (in_tip s) = None then (Ok Again, s1)
          else let (ev, t) = stream_next (in_tip s)
               in (case on_ws_event ev t of
                   Panics \<Rightarrow> (Panic, s1)
                 | Returns t' \<Rightarrow> (Ok Again, s1\<lparr>in_tip := t',
                     in_heard := (if ts_sub t' = None then {} else in_heard s \<union> announced ev)\<rparr>)))"

definition ingest_iter :: "'c loop_cfg \<Rightarrow> tick_env \<Rightarrow> ('c ingest, domain_error, flow) m" where
  "ingest_iter cfg e s =
     (if te_cancelled e \<or> dr_exhausted (lc_drive cfg) (in_src s) then ret Leave s
      else bind (subscribe_step cfg) (\<lambda>_.
           bind (reorg_step cfg) (\<lambda>_.
           bind (poll_step cfg (te_acts e)) (\<lambda>f.
             if f = Wait then wait_step cfg (te_wake e) else ret f))) s)"

fun ingest_iters :: "'c loop_cfg \<Rightarrow> tick_env list \<Rightarrow> ('c ingest, domain_error, flow) m" where
  "ingest_iters cfg [] = ret Again"
| "ingest_iters cfg (e # es) = bind (ingest_iter cfg e) (\<lambda>f. if f = Again then ingest_iters cfg es else ret f)"

definition ingest_start :: "'c loop_cfg \<Rightarrow> (height \<times> hash) option \<Rightarrow> 'c \<Rightarrow> db \<Rightarrow> 'c ingest" where
  "ingest_start cfg cursor c d =
     \<lparr>in_next = (case cursor of Some (last_h, _) \<Rightarrow> u64_add last_h 1 | None \<Rightarrow> max (lc_start_block cfg) 1),
      in_tip = tip_new (supports_subscribe (cs_caps (dr_source (lc_drive cfg)))), in_tick = 0, in_wait = 0,
      in_src = c, in_db = d, in_heard = {}\<rparr>"

definition ingest_loop :: "'c loop_cfg \<Rightarrow> tick_env list \<Rightarrow> ('c \<times> db, domain_error, flow) m" where
  "ingest_loop cfg es w =
     bind (on_db (cursor_get (cs_chain_id (dr_source (lc_drive cfg))))) (\<lambda>cursor w.
       let (r, s) = ingest_iters cfg es (ingest_start cfg cursor (fst w) (snd w))
       in (r, (in_src s, in_db s))) w"

section \<open>The supervisor\<close>

text \<open>An attempt rebuilds the chain source and runs the loop; \<open>ae_built\<close> is what \<open>build_chain\<close>
  gave.\<close>

record 'c attempt_env =
  ae_cancelled :: bool
  ae_built :: "(domain_error, 'c) res"
  ae_ticks :: "tick_env list"
  ae_sleep_cancelled :: bool

definition run_chain_once :: "'c loop_cfg \<Rightarrow> 'c attempt_env \<Rightarrow> (db, domain_error, flow) m" where
  "run_chain_once cfg a d = (case ae_built a of
     Ok c \<Rightarrow> (let (r, w) = ingest_loop cfg (ae_ticks a) (c, d) in (r, snd w))
   | Err e \<Rightarrow> (Err e, d)
   | Panic \<Rightarrow> (Panic, d))"

text \<open>The sleeps between the attempts, in seconds, and the database in the end. An attempt that
  has not ended leaves the supervisor waiting for it.\<close>

fun supervise :: "'c loop_cfg \<Rightarrow> 'c attempt_env list \<Rightarrow> nat \<Rightarrow> db \<Rightarrow> nat list \<times> db" where
  "supervise cfg [] backoff d = ([], d)"
| "supervise cfg (a # rest) backoff d =
     (if ae_cancelled a then ([], d)
      else case run_chain_once cfg a d of
          (Ok f, d') \<Rightarrow> ([], d')
        | (_, d') \<Rightarrow>
            if ae_sleep_cancelled a then ([], d')
            else let (sleeps, d'') = supervise cfg rest (min (backoff * 2) 30) d' in (backoff # sleeps, d''))"

definition supervised_ingest :: "'c loop_cfg \<Rightarrow> 'c attempt_env list \<Rightarrow> db \<Rightarrow> nat list \<times> db" where
  "supervised_ingest cfg attempts d = supervise cfg attempts 1 d"

section \<open>What the cursor covers\<close>

text \<open>The feed by block: a range holds the logs of its blocks, in order.\<close>

definition block_feed :: "'c drive \<Rightarrow> (nat \<Rightarrow> raw_record list) \<Rightarrow> bool" where
  "block_feed dr logs \<longleftrightarrow> feeds dr (\<lambda>lo hi. concat (map logs [lo..<Suc hi]))
     \<and> (\<forall>b. \<forall>rec \<in> set (logs b). rr_chain_id rec = cs_chain_id (dr_source dr) \<and> rr_height rec = b)"

definition covered :: "(nat \<Rightarrow> raw_record list) \<Rightarrow> nat \<Rightarrow> nat \<Rightarrow> db \<Rightarrow> bool" where
  "covered logs lo hi d \<longleftrightarrow> (\<forall>b. lo \<le> b \<longrightarrow> b < hi \<longrightarrow> stored_raw d (logs b))"

definition cursor_covered :: "chain_id \<Rightarrow> (nat \<Rightarrow> raw_record list) \<Rightarrow> nat \<Rightarrow> db \<Rightarrow> bool" where
  "cursor_covered cid logs lo d \<longleftrightarrow> (\<forall>r \<in> set (cursors d). cu_chain_id r = as_i64 cid \<longrightarrow>
     (\<exists>h. cu_last_height r = as_i64 h \<and> h < 2 ^ 62 \<and> covered logs lo (h + 1) d))"

definition raw_grows :: "db \<Rightarrow> db \<Rightarrow> bool" where
  "raw_grows d d' \<longleftrightarrow> raw_key ` set (raw_records d) \<subseteq> raw_key ` set (raw_records d')"

lemma raw_grows_refl [simp]: "raw_grows d d" by (simp add: raw_grows_def)

lemma raw_grows_trans [trans]: "raw_grows d e \<Longrightarrow> raw_grows e f \<Longrightarrow> raw_grows d f" by (auto simp: raw_grows_def)

lemma stored_raw_grows: "stored_raw d recs \<Longrightarrow> raw_grows d d' \<Longrightarrow> stored_raw d' recs"
  by (auto simp: stored_raw_def raw_grows_def)

lemma covered_refl [simp]: "covered logs n n d" by (simp add: covered_def)

lemma covered_grows: "covered logs lo hi d \<Longrightarrow> raw_grows d d' \<Longrightarrow> covered logs lo hi d'"
  using stored_raw_grows by (auto simp: covered_def)

lemma covered_join: "covered logs lo mid d \<Longrightarrow> covered logs mid hi d \<Longrightarrow> covered logs lo hi d"
  unfolding covered_def by (meson linorder_not_less)

lemma cursor_covered_cong:
  "cursors d' = cursors d \<Longrightarrow> raw_grows d d' \<Longrightarrow> cursor_covered cid logs lo d \<Longrightarrow> cursor_covered cid logs lo d'"
  unfolding cursor_covered_def using covered_grows by metis

lemma raw_grows_stored: "stored d' = stored d \<Longrightarrow> raw_grows d d'"
  by (drule stored_fields(3)) (simp add: raw_grows_def)

lemma raw_grows_commit:
  assumes "commit_range cid f e d = (r, d')"
  shows "raw_grows d d'"
  using assms
proof (cases rule: commit_range_cases)
  case (1 out fs)
  then show ?thesis by (auto simp: raw_grows_def commit_effect_raw)
qed (rule raw_grows_stored)

lemma raw_grows_cursor:
  assumes "cursor_advance cid h hs d = (r, d')"
  shows "raw_grows d d'"
  using assms
proof (cases rule: cursor_advance_cases)
  case (1 fs)
  then show ?thesis by (simp add: raw_grows_def cursor_put_def)
qed (rule raw_grows_stored)

lemma raw_grows_consume: "raw_grows d (snd (commit_consume cid f p d))"
proof -
  obtain r1 d1 where c: "commit_range cid f 0 d = (r1, d1)" by fastforce
  then have g: "raw_grows d d1" by (rule raw_grows_commit)
  then have "raw_grows d d2" if "cursor_advance cid h hs d1 = (r, d2)" for h hs r d2
    using raw_grows_cursor[OF that] by (rule raw_grows_trans)
  with g c show ?thesis
    by (cases r1) (auto simp: commit_consume_def bind_def ret_def split: prod.splits outcome.splits option.splits res.splits)
qed

lemma raw_grows_pipe_step: "raw_grows (pi_db s) (pi_db (pipe_step dr a s))"
proof (cases a)
  case Receive
  then show ?thesis
    using raw_grows_consume[of "pi_db s" "cs_chain_id (dr_source dr)" "hd (pi_chan s)" "pi_prefix s"]
    by (auto simp: pipe_step_def receive_def split: list.splits prod.splits res.splits)
qed (auto simp: pipe_step_def start_fetch_def finish_fetch_def send_fetched_def end_producer_def join_halves_def Let_def
    split: list.splits prod.splits res.splits option.splits)

lemma raw_grows_pipe_run: "raw_grows (pi_db s) (pi_db (fold (pipe_step dr) acts s))"
  by (induction acts arbitrary: s) (auto intro: raw_grows_trans[OF raw_grows_pipe_step])

lemma contiguous_covers_block:
  "contiguous s sp e \<Longrightarrow> hi \<in> snd ` set sp \<Longrightarrow> s \<le> b \<Longrightarrow> b \<le> hi \<Longrightarrow> \<exists>lo' hi'. (lo', hi') \<in> set sp \<and> lo' \<le> b \<and> b \<le> hi' \<and> hi' \<le> hi"
proof (induction s sp e rule: contiguous.induct)
  case (2 s lo h r e)
  show ?case
  proof (cases "b \<le> h")
    case True
    have "h \<le> hi" using 2(2,3) contiguous_bounds[of "h + 1" r e] by fastforce
    with True 2(2,4) show ?thesis by auto
  next
    case False
    with 2 show ?thesis by (cases "hi = h") auto
  qed
qed simp

lemma fetched_range_stored:
  assumes "\<exists>f. rng f = (lo, hi) \<and> was_fetched dr f \<and> stored_and_queued cid d f" and "lo \<le> b" "b \<le> hi" "hi < 2 ^ 63"
    and "block_feed dr logs"
  shows "stored_raw d (logs b)"
proof -
  let ?logs = "concat (map logs [lo..<Suc hi])"
  obtain f where f: "rng f = (lo, hi)" "was_fetched dr f" "stored_and_queued cid d f" using assms(1) by blast
  have "fr_records f = ?logs" using was_fetched_feeds[OF f(2)] assms(4,5) f(1) by (auto simp: block_feed_def)
  with f(3) have "stored_raw d ?logs" by (simp add: stored_and_queued_def)
  moreover have "set (logs b) \<subseteq> set ?logs" using assms(2,3) by (auto simp del: upt_Suc intro!: bexI[of _ b])
  ultimately show ?thesis by (auto simp: stored_raw_def)
qed

lemma fetched_spans_cover:
  assumes "target < 2 ^ 62" and "block_feed dr logs" and ch: "contiguous next (spans next target step) (target + 1)"
    and hi: "hi \<in> snd ` set (spans next target step)"
    and fs: "\<forall>(lo', hi') \<in> set (spans next target step). hi' \<le> hi \<longrightarrow>
        (\<exists>f. rng f = (lo', hi') \<and> was_fetched dr f \<and> stored_and_queued cid d f)"
  shows "covered logs next (hi + 1) d"
  unfolding covered_def
proof (intro allI impI)
  fix b assume "next \<le> b" "b < hi + 1"
  then obtain lo' hi' where r: "(lo', hi') \<in> set (spans next target step)" "lo' \<le> b" "b \<le> hi'" "hi' \<le> hi"
    using contiguous_covers_block[OF ch hi, of b] by auto
  from bspec[OF fs r(1)] r(4) have f: "\<exists>f. rng f = (lo', hi') \<and> was_fetched dr f \<and> stored_and_queued cid d f" by simp
  have "hi' < 2 ^ 63" using spans_width[OF r(1)] assms(1) by simp
  from fetched_range_stored[OF f r(2,3) this assms(2)] show "stored_raw d (logs b)" .
qed

lemma drive_covers:
  assumes "0 < step" and "target < 2 ^ 62" "step < 2 ^ 62" and "next \<le> target"
    and "run_pipeline dr acts next target step c d = Some s" and "block_feed dr logs"
    and "cid = cs_chain_id (dr_source dr)" and "covered logs st next d" and "cursor_covered cid logs st d"
  shows "cursor_covered cid logs st (pi_db s)"
    and "pi_result s = Some (Ok po) \<Longrightarrow> \<not> po_shutdown po \<Longrightarrow>
      po_advanced_to po = Some target \<and> covered logs st (target + 1) (pi_db s)"
proof -
  let ?plan = "spans next target step" and ?logs = "\<lambda>lo hi. concat (map logs [lo..<Suc hi])"
  have plan: "plan_ranges next target step = Some ?plan" using assms(1-3) by (simp add: plan_ranges_spans)
  have ch: "contiguous next ?plan (target + 1)" using assms(1,4) by (intro contiguous_spans) simp_all
  have e: "target + 1 < 2 ^ 64" "target < 2 ^ 62" using assms(2) by simp_all
  obtain s0 where s0: "pipe_init next target step c d = Some s0" "s = fold (pipe_step dr) acts s0"
    using assms(5) by (auto simp: run_pipeline_def)
  obtain fs where inv: "pipe_inv (stored_and_queued cid) dr next ?plan (set (cursors d)) fs s"
    using queued.pipe_run_inv[OF queued.pipe_init_inv[OF s0(1) plan] ch e(1) assms(7)[symmetric]] unfolding s0(2) by blast
  have "pi_db s0 = d" using s0(1) by (auto simp: pipe_init_def)
  then have grow: "raw_grows d (pi_db s)" using raw_grows_pipe_run[of s0 dr acts] s0(2) by simp
  have old: "covered logs st next (pi_db s)" using assms(8) grow by (rule covered_grows)
  have new: "covered logs next (hi + 1) (pi_db s)"
    if hi: "hi \<in> snd ` set ?plan" and fs: "\<forall>(lo', hi') \<in> set ?plan. hi' \<le> hi \<longrightarrow>
        (\<exists>f. rng f = (lo', hi') \<and> was_fetched dr f \<and> stored_and_queued cid (pi_db s) f)" for hi
    by (rule fetched_spans_cover[OF assms(2,6) ch hi fs])
  show "cursor_covered cid logs st (pi_db s)"
    unfolding cursor_covered_def
  proof (intro ballI impI)
    fix r assume r: "r \<in> set (cursors (pi_db s))" "cu_chain_id r = as_i64 cid"
    show "\<exists>h. cu_last_height r = as_i64 h \<and> h < 2 ^ 62 \<and> covered logs st (h + 1) (pi_db s)"
    proof (cases "r \<in> set (cursors d)")
      case True
      with assms(9) r obtain h where "cu_last_height r = as_i64 h" "h < 2 ^ 62" "covered logs st (h + 1) d"
        by (auto simp: cursor_covered_def)
      then show ?thesis using covered_grows[OF _ grow] by blast
    next
      case False
      obtain hi where hi: "cu_last_height r = as_i64 hi" "hi \<in> snd ` set ?plan"
        and fs: "\<forall>(lo', hi') \<in> set ?plan. hi' \<le> hi \<longrightarrow>
            (\<exists>f. rng f = (lo', hi') \<and> was_fetched dr f \<and> stored_and_queued cid (pi_db s) f)"
        using queued.cursor_covers[OF inv ch e(1) r(1) r(2)[unfolded assms(7)] False] by (elim exE conjE)
      have "hi < 2 ^ 62" using hi(2) contiguous_bounds[OF ch] e(2) by fastforce
      with hi(1) covered_join[OF old new[OF hi(2) fs]] show ?thesis by blast
    qed
  qed
  assume po: "pi_result s = Some (Ok po)" "\<not> po_shutdown po"
  note fin = queued.completed_drive[OF inv ch e(1) assms(4) po]
  have all: "\<forall>(lo', hi') \<in> set ?plan. hi' \<le> target \<longrightarrow>
      (\<exists>f. rng f = (lo', hi') \<and> was_fetched dr f \<and> stored_and_queued cid (pi_db s) f)"
    using conjunct2[OF conjunct2[OF fin]] by fast
  have "?plan \<noteq> []" using ch assms(4) by (cases ?plan) auto
  then have "target \<in> snd ` set ?plan" using contiguous_take_end[OF ch] by (metis add_right_cancel image_eqI last_in_set)
  from covered_join[OF old new[OF this all]] fin
  show "po_advanced_to po = Some target \<and> covered logs st (target + 1) (pi_db s)" by simp
qed


section \<open>The loop\<close>

text \<open>Heights fit the signed columns of the database and the window of an iteration is small.\<close>

definition bounded :: "'c loop_cfg \<Rightarrow> bool" where
  "bounded cfg \<longleftrightarrow> 0 < lc_step cfg \<and> 0 < dr_conc (lc_drive cfg) \<and> lc_step cfg * dr_conc (lc_drive cfg) < 2 ^ 62
     \<and> (\<forall>c h c'. cs_head (dr_source (lc_drive cfg)) c = (Ok h, c') \<longrightarrow> h < 2 ^ 62)"

abbreviation loop_chain :: "'c loop_cfg \<Rightarrow> chain_id" where
  "loop_chain cfg \<equiv> cs_chain_id (dr_source (lc_drive cfg))"

abbreviation first_block :: "'c loop_cfg \<Rightarrow> nat" where
  "first_block cfg \<equiv> max (lc_start_block cfg) 1"

definition tip_inv :: "'c loop_cfg \<Rightarrow> (nat \<Rightarrow> raw_record list) \<Rightarrow> 'c ingest \<Rightarrow> bool" where
  "tip_inv cfg logs s \<longleftrightarrow> covered logs (first_block cfg) (in_next s) (in_db s)
     \<and> cursor_covered (loop_chain cfg) logs (first_block cfg) (in_db s)
     \<and> in_heard s \<subseteq> ts_pending (in_tip s) \<union> {..<in_next s} \<and> finite (ts_pending (in_tip s)) \<and> in_next s \<le> 2 ^ 62"

text \<open>Two assumptions on an iteration, on its state after the reorganisation probe. A rollback
  does not restart above the place the loop had reached. And when the loop trusts the stream
  (no reconciliation is due), every block with logs that is confirmed and not yet swept has
  been pushed.\<close>

definition orderly_tick :: "'c loop_cfg \<Rightarrow> (nat \<Rightarrow> raw_record list) \<Rightarrow> 'c ingest \<Rightarrow> bool" where
  "orderly_tick cfg logs s \<longleftrightarrow> (\<forall>s1 s2. subscribe_step cfg s = (Ok (), s1) \<longrightarrow> reorg_step cfg s1 = (Ok (), s2) \<longrightarrow>
     in_next s2 \<le> in_next s
     \<and> (\<forall>head c. cs_head (dr_source (lc_drive cfg)) (in_src s2) = (Ok head, c) \<longrightarrow>
          ts_ws_enabled (in_tip s2) \<longrightarrow> \<not> ts_reconcile (in_tip s2) \<longrightarrow>
          (\<forall>b. in_next s2 \<le> b \<longrightarrow> b \<le> head - lc_confirmations cfg \<longrightarrow> logs b \<noteq> [] \<longrightarrow> b \<in> in_heard s2)))"

lemma subscribe_step_frame:
  assumes "subscribe_step cfg s = (r, s1)"
  shows "in_db s1 = in_db s" "in_next s1 = in_next s" "ts_pending (in_tip s1) = ts_pending (in_tip s)"
    "in_heard s1 \<subseteq> in_heard s" "tip_inv cfg logs s \<Longrightarrow> tip_inv cfg logs s1"
  using assms
  by (auto simp: subscribe_step_def ensure_subscribed_def ret_def tip_inv_def split: res.splits prod.splits if_splits)

lemma reorg_check_effect:
  assumes "reorg_check cs tbls conf (c, d) = (r, (c', d'))"
  shows "(\<exists>from d1 fs. r = Ok (Some from) \<and> stored d1 = stored d \<and> d' = (rollback_effect (cs_chain_id cs) from tbls d1)\<lparr>faults := fs\<rparr>)
     \<or> stored d' = stored d \<and> (\<forall>from. r \<noteq> Ok (Some from))"
  using reorg_check_outcome[OF assms] by blast

lemma covered_rollback:
  assumes "block_feed dr logs" and "covered logs st n d" and "m \<le> n" and "n \<le> 2 ^ 62" and "raw_records d1 = raw_records d"
  shows "covered logs st m ((rollback_effect (cs_chain_id (dr_source dr)) m tbls d1)\<lparr>faults := fs\<rparr>)"
  unfolding covered_def stored_raw_def
proof (intro allI impI ballI)
  fix b rec assume b: "st \<le> b" "b < m" and rec: "rec \<in> set (logs b)"
  have "raw_key (raw_row_of rec) \<in> raw_key ` set (raw_records d)"
    using assms(2,3) b rec by (auto simp: covered_def stored_raw_def)
  then obtain q where q: "q \<in> set (raw_records d)" "raw_key q = raw_key (raw_row_of rec)" by force
  moreover have "rr_height rec = b" using assms(1) rec by (auto simp: block_feed_def)
  ultimately have "rw_height q = as_i64 b" by (simp add: raw_key_def raw_row_of_def)
  then have "rw_height q < as_i64 m" using b assms(3,4) by (simp add: as_i64_small)
  with q assms(5) show "raw_key (raw_row_of rec) \<in> raw_key ` set (raw_records ((rollback_effect (cs_chain_id (dr_source dr)) m tbls d1)\<lparr>faults := fs\<rparr>))"
    by (auto simp: rollback_effect_def image_iff intro!: bexI[of _ q])
qed

lemma reorg_step_inv:
  assumes inv: "tip_inv cfg logs s" and feed: "block_feed (lc_drive cfg) logs"
    and step: "reorg_step cfg s = (r, s2)" and orderly: "r = Ok () \<Longrightarrow> in_next s2 \<le> in_next s"
  shows "cursor_covered (loop_chain cfg) logs (first_block cfg) (in_db s2)" and "is_ok r \<Longrightarrow> tip_inv cfg logs s2"
proof -
  let ?cs = "dr_source (lc_drive cfg)"
  obtain r1 c' d' where k: "reorg_check ?cs (lc_tables cfg) (lc_confirmations cfg) (in_src s, in_db s) = (r1, (c', d'))"
    by (metis surj_pair)
  have same: "covered logs st n d'" "cursor_covered (loop_chain cfg) logs st d'"
    if "stored d' = stored (in_db s)" "covered logs st n (in_db s)" "cursor_covered (loop_chain cfg) logs st (in_db s)" for st n
    using that covered_grows[OF _ raw_grows_stored] cursor_covered_cong[OF stored_fields(2) raw_grows_stored] by blast+
  have roll: "cursor_covered (loop_chain cfg) logs (first_block cfg) d' \<and> covered logs (first_block cfg) from d'"
    if e: "stored d1 = stored (in_db s)" "d' = (rollback_effect (loop_chain cfg) from (lc_tables cfg) d1)\<lparr>faults := fs\<rparr>"
      and le: "from \<le> in_next s" for "from" d1 fs
  proof -
    have cov: "covered logs (first_block cfg) from d'"
      unfolding e(2) using covered_rollback[OF feed _ le _ stored_fields(3)[OF e(1)]] inv by (simp add: tip_inv_def)
    then have "covered logs (first_block cfg) (from - 1 + 1) d'" by (cases "from") (auto simp: covered_def)
    moreover have "from - 1 < 2 ^ 62" using le inv by (cases "from") (auto simp: tip_inv_def)
    ultimately show ?thesis using cov e(2) by (auto simp: cursor_covered_def rollback_effect_def split: if_splits)
  qed
  have "cursor_covered (loop_chain cfg) logs (first_block cfg) (in_db s2) \<and> (is_ok r \<longrightarrow> tip_inv cfg logs s2)"
  proof (cases "\<exists>from. r1 = Ok (Some from)")
    case True
    then obtain "from" where fr: "r1 = Ok (Some from)" by blast
    with reorg_check_effect[OF k] obtain d1 fs where e: "stored d1 = stored (in_db s)"
      "d' = (rollback_effect (loop_chain cfg) from (lc_tables cfg) d1)\<lparr>faults := fs\<rparr>" by auto
    from step k fr consider "r = Ok ()" "in_next s2 = from" "in_db s2 = d'" "in_heard s2 = {}"
        "ts_pending (in_tip s2) = ts_pending (in_tip s)"
      | "r = Ok ()" "in_next s2 = in_next s" "in_db s2 = in_db s" "in_heard s2 = in_heard s" "ts_pending (in_tip s2) = ts_pending (in_tip s)"
      by (auto simp: reorg_step_def take_reorg_signal_def bind_def on_world_def modify_def Let_def split: if_splits)
    then show ?thesis
    proof cases
      case 1
      with orderly roll[OF e] inv show ?thesis by (auto simp: tip_inv_def)
    next
      case 2
      with inv show ?thesis by (simp add: tip_inv_def)
    qed
  next
    case False
    with reorg_check_effect[OF k] have st: "stored d' = stored (in_db s)" by auto
    from step k False have "in_next s2 = in_next s" "in_db s2 \<in> {in_db s, d'}" "in_heard s2 = in_heard s"
        "ts_pending (in_tip s2) = ts_pending (in_tip s)"
      by (auto simp: reorg_step_def take_reorg_signal_def bind_def on_world_def modify_def ret_def Let_def
          split: if_splits res.splits option.splits)
    with inv same[OF st] show ?thesis by (auto simp: tip_inv_def)
  qed
  then show "cursor_covered (loop_chain cfg) logs (first_block cfg) (in_db s2)" and "is_ok r \<Longrightarrow> tip_inv cfg logs s2" by auto
qed

lemma must_fetch_pending: "finite (ts_pending t) \<Longrightarrow> b \<in> ts_pending t \<Longrightarrow> b \<le> safe \<Longrightarrow> must_fetch safe t"
  unfolding must_fetch_def using Min_le[of "ts_pending t" b] by (metis empty_iff le_trans)

definition window_end :: "'c loop_cfg \<Rightarrow> bool \<Rightarrow> nat \<Rightarrow> nat \<Rightarrow> nat" where
  "window_end cfg fetch safe next = (if fetch then min safe (next + lc_step cfg * dr_conc (lc_drive cfg) - 1) else safe)"

lemma fetch_target_window:
  assumes "bounded cfg" and "next \<le> safe" and "safe < 2 ^ 62"
  shows "fetch_target safe next (lc_step cfg) (dr_conc (lc_drive cfg)) fetch = window_end cfg fetch safe next"
    and "next \<le> window_end cfg fetch safe next" and "window_end cfg fetch safe next \<le> safe"
proof -
  let ?w = "lc_step cfg * dr_conc (lc_drive cfg)"
  have pos: "0 < ?w" and w: "?w < 2 ^ 62" using assms(1) by (auto simp: bounded_def)
  then have w64: "next + ?w < 2 ^ 64" "?w < 2 ^ 64" using assms(2,3) by simp_all
  have "1 \<le> next + ?w" using pos by linarith
  with w64 have "u64_sub (u64_add next (u64_mul (lc_step cfg) (dr_conc (lc_drive cfg)))) 1 = next + ?w - 1"
    by (simp only: u64_mul_exact u64_add_exact u64_sub_exact)
  then show "fetch_target safe next (lc_step cfg) (dr_conc (lc_drive cfg)) fetch = window_end cfg fetch safe next"
    by (simp add: fetch_target_def window_end_def)
  show "next \<le> window_end cfg fetch safe next" "window_end cfg fetch safe next \<le> safe"
    using assms(2) le_add_diff[of 1 ?w "next"] pos by (simp_all add: window_end_def Suc_le_eq add.commute)
qed

text \<open>Advancing the cursor over a stretch that needs no fetch.\<close>

lemma advance_covered:
  assumes a: "cursor_advance cid target [] d = (r, d')" and "target < 2 ^ 62"
    and c: "covered logs st (target + 1) d'" and cur: "cursor_covered cid logs st d"
  shows "cursor_covered cid logs st d'"
  using a
proof (cases rule: cursor_advance_cases)
  case (1 fs)
  then have cu: "cursors d' = put_row cu_chain_id \<lparr>cu_chain_id = as_i64 cid, cu_last_height = as_i64 target, cu_last_hash = []\<rparr> (cursors d)"
    by (simp add: cursor_put_def)
  have "cu_last_height q = as_i64 target" if "q \<in> set (cursors d')" "cu_chain_id q = as_i64 cid" for q
    using that by (auto simp: cu put_row_mem)
  then show ?thesis using c assms(2) unfolding cursor_covered_def by blast
next
  case 2
  with cur raw_grows_cursor[OF a] show ?thesis using cursor_covered_cong[OF stored_fields(2)] by blast
qed

lemma bounded_step: "bounded cfg \<Longrightarrow> 0 < lc_step cfg \<and> lc_step cfg < 2 ^ 62"
proof -
  assume b: "bounded cfg"
  then have "lc_step cfg \<le> lc_step cfg * dr_conc (lc_drive cfg)" "lc_step cfg * dr_conc (lc_drive cfg) < 2 ^ 62"
    by (simp_all add: bounded_def)
  then have "lc_step cfg < 2 ^ 62" by (rule le_less_trans)
  then show ?thesis using b by (simp add: bounded_def)
qed

text \<open>What a sweep up to \<open>target\<close> leaves behind.\<close>

definition swept :: "'c loop_cfg \<Rightarrow> (nat \<Rightarrow> raw_record list) \<Rightarrow> nat \<Rightarrow> nat \<Rightarrow> (domain_error, caught_up option) res \<Rightarrow> 'c ingest \<Rightarrow> bool" where
  "swept cfg logs safe target r s' \<longleftrightarrow> cursor_covered (loop_chain cfg) logs (first_block cfg) (in_db s')
     \<and> (\<forall>caught. r = Ok (Some caught) \<longrightarrow> \<not> cu_shutdown caught \<longrightarrow>
          cu_next caught = target + 1 \<and> tip_inv cfg logs (s'\<lparr>in_next := cu_next caught\<rparr>) \<and> (cu_behind caught \<longleftrightarrow> cu_next caught \<le> safe))"

lemma catch_up_skips:
  assumes inv: "tip_inv cfg logs s" and target: "in_next s \<le> target" "target \<le> safe" "target < 2 ^ 62"
    and quiet: "\<forall>b. in_next s \<le> b \<longrightarrow> b \<le> safe \<longrightarrow> logs b = []" and none: "\<not> must_fetch safe (in_tip s)"
    and t1: "fetch_target safe (in_next s) (lc_step cfg) (dr_conc (lc_drive cfg)) False = target"
    and step: "catch_up cfg acts safe s = (r, s')"
  shows "swept cfg logs safe target r s'"
proof -
  let ?st = "first_block cfg"
  have nxt: "u64_add target 1 = target + 1" "u64_add target (Suc 0) = Suc target"
    using target(3) u64_add_exact[of target 1] by simp_all
  have cov: "covered logs ?st (in_next s) (in_db s)" "cursor_covered (loop_chain cfg) logs ?st (in_db s)"
    and heard: "in_heard s \<subseteq> ts_pending (in_tip s) \<union> {..<in_next s}" and fin: "finite (ts_pending (in_tip s))"
    using inv by (auto simp: tip_inv_def)
  obtain r1 d1 where a: "cursor_advance (loop_chain cfg) target [] (in_db s) = (r1, d1)" by fastforce
  have "covered logs (in_next s) (target + 1) d1" using quiet target(2) by (auto simp: covered_def stored_raw_def)
  from covered_join[OF covered_grows[OF cov(1) raw_grows_cursor[OF a]] this]
  have c1: "covered logs ?st (target + 1) d1" .
  from advance_covered[OF a target(3) this cov(2)] step none a c1 heard fin target show ?thesis unfolding swept_def
    by (cases r1) (auto simp: catch_up_def Let_def t1 bind_def on_world_def on_db_def ret_def nxt tip_inv_def)
qed

lemma catch_up_drives:
  assumes inv: "tip_inv cfg logs s" and target: "in_next s \<le> target" "target < 2 ^ 62" and bnd: "bounded cfg"
    and feed: "block_feed (lc_drive cfg) logs" and fetch: "must_fetch safe (in_tip s)"
    and t1: "fetch_target safe (in_next s) (lc_step cfg) (dr_conc (lc_drive cfg)) True = target"
    and step: "catch_up cfg acts safe s = (r, s')"
  shows "swept cfg logs safe target r s'"
proof -
  let ?dr = "lc_drive cfg" and ?st = "first_block cfg"
  have nxt: "u64_add target 1 = target + 1" "u64_add target (Suc 0) = Suc target"
    using target(2) u64_add_exact[of target 1] by simp_all
  have cov: "covered logs ?st (in_next s) (in_db s)" "cursor_covered (loop_chain cfg) logs ?st (in_db s)"
    and heard: "in_heard s \<subseteq> ts_pending (in_tip s) \<union> {..<in_next s}" and fin: "finite (ts_pending (in_tip s))"
    using inv by (auto simp: tip_inv_def)
  obtain r1 c1 d1 where p: "pipeline_m ?dr acts (in_next s) target (lc_step cfg) (in_src s, in_db s) = (r1, (c1, d1))"
    by (metis surj_pair)
  have facts: "cursor_covered (loop_chain cfg) logs ?st d1"
    "r1 = Ok (Some po) \<Longrightarrow> \<not> po_shutdown po \<Longrightarrow> po_advanced_to po = Some target \<and> covered logs ?st (target + 1) d1" for po
    using p drive_covers[OF _ target(2) _ target(1) _ feed refl cov, of "lc_step cfg" acts "in_src s"] bounded_step[OF bnd] cov(2)
    by (auto simp: pipeline_m_def split: option.splits res.splits)
  show ?thesis
  proof (cases "\<exists>po. r1 = Ok (Some po) \<and> \<not> po_shutdown po")
    case False
    with step fetch p facts(1) show ?thesis unfolding swept_def
      by (cases r1) (auto simp: catch_up_def Let_def t1 bind_def on_world_def ret_def split: option.splits)
  next
    case True
    then obtain po where po: "r1 = Ok (Some po)" "\<not> po_shutdown po" by blast
    have "r = Ok (Some \<lparr>cu_next = target + 1, cu_shutdown = False, cu_behind = (target + 1 \<le> safe)\<rparr>)"
      "s' = s\<lparr>in_src := c1, in_db := d1, in_tip := clear_through target ((in_tip s)\<lparr>ts_reconcile := (target + 1 \<le> safe)\<rparr>)\<rparr>"
      using step fetch p po facts(2)[OF po]
      by (simp_all add: catch_up_def Let_def t1 bind_def on_world_def ret_def nxt modify_def)
    moreover have "in_heard s \<subseteq> Set.filter (\<lambda>h. target < h) (ts_pending (in_tip s)) \<union> {..<target + 1}"
      using heard target(1) by auto
    ultimately show ?thesis using facts(1) facts(2)[OF po] fin target(2) unfolding swept_def by (simp add: tip_inv_def clear_through_def)
  qed
qed

lemma catch_up_inv:
  assumes inv: "tip_inv cfg logs s" and bnd: "bounded cfg" and feed: "block_feed (lc_drive cfg) logs"
    and safe: "in_next s \<le> safe" "safe < 2 ^ 62"
    and quiet: "\<not> must_fetch safe (in_tip s) \<Longrightarrow> \<forall>b. in_next s \<le> b \<longrightarrow> b \<le> safe \<longrightarrow> logs b = []"
    and step: "catch_up cfg acts safe s = (r, s')"
  shows "cursor_covered (loop_chain cfg) logs (first_block cfg) (in_db s')"
    and "r = Ok (Some caught) \<Longrightarrow> \<not> cu_shutdown caught \<Longrightarrow>
      cu_next caught = window_end cfg (must_fetch safe (in_tip s)) safe (in_next s) + 1
      \<and> tip_inv cfg logs (s'\<lparr>in_next := cu_next caught\<rparr>) \<and> (cu_behind caught \<longleftrightarrow> cu_next caught \<le> safe)"
proof -
  let ?fetch = "must_fetch safe (in_tip s)"
  define target where "target = window_end cfg ?fetch safe (in_next s)"
  note tgt = fetch_target_window[OF bnd safe, of ?fetch, folded target_def]
  have t62: "target < 2 ^ 62" using tgt(3) safe(2) by simp
  have "swept cfg logs safe target r s'"
  proof (cases ?fetch)
    case False
    with catch_up_skips[OF inv tgt(2,3) t62 quiet[OF False] False _ step] tgt(1) show ?thesis by simp
  next
    case True
    with catch_up_drives[OF inv tgt(2) t62 bnd feed True _ step] tgt(1) show ?thesis by simp
  qed
  then show "cursor_covered (loop_chain cfg) logs (first_block cfg) (in_db s')"
    and "r = Ok (Some caught) \<Longrightarrow> \<not> cu_shutdown caught \<Longrightarrow>
      cu_next caught = window_end cfg ?fetch safe (in_next s) + 1
      \<and> tip_inv cfg logs (s'\<lparr>in_next := cu_next caught\<rparr>) \<and> (cu_behind caught \<longleftrightarrow> cu_next caught \<le> safe)"
    by (auto simp: swept_def target_def)
qed

lemma poll_step_inv:
  assumes inv: "tip_inv cfg logs s" and bnd: "bounded cfg" and feed: "block_feed (lc_drive cfg) logs"
    and heard: "\<And>head c b. cs_head (dr_source (lc_drive cfg)) (in_src s) = (Ok head, c) \<Longrightarrow> ts_ws_enabled (in_tip s) \<Longrightarrow>
      \<not> ts_reconcile (in_tip s) \<Longrightarrow> in_next s \<le> b \<Longrightarrow> b \<le> head - lc_confirmations cfg \<Longrightarrow> logs b \<noteq> [] \<Longrightarrow> b \<in> in_heard s"
    and step: "poll_step cfg acts s = (r, s')"
  shows "cursor_covered (loop_chain cfg) logs (first_block cfg) (in_db s')
     \<and> (r = Ok Again \<or> r = Ok Wait \<longrightarrow> tip_inv cfg logs s')"
proof (cases "should_poll_head (in_tip s)")
  case False
  with step inv show ?thesis by (auto simp: poll_step_def ret_def tip_inv_def)
next
  case True
  obtain r1 c where h: "cs_head (dr_source (lc_drive cfg)) (in_src s) = (r1, c)" by fastforce
  let ?s1 = "s\<lparr>in_src := c\<rparr>"
  have inv1: "tip_inv cfg logs ?s1" using inv by (simp add: tip_inv_def)
  show ?thesis
  proof (cases "\<exists>head. r1 = Ok head \<and> in_next s \<le> head - lc_confirmations cfg")
    case False
    with True step h inv inv1 show ?thesis
      by (cases r1) (auto simp: poll_step_def bind_def on_world_def on_src_def ret_def Let_def tip_inv_def)
  next
    case head: True
    then obtain head where hd: "r1 = Ok head" "in_next s \<le> head - lc_confirmations cfg" by blast
    let ?safe = "head - lc_confirmations cfg"
    have "head < 2 ^ 62" using bnd h hd(1) unfolding bounded_def by blast
    then have safe: "?safe < 2 ^ 62" by simp
    have quiet: "\<forall>b. in_next s \<le> b \<longrightarrow> b \<le> ?safe \<longrightarrow> logs b = []" if nf: "\<not> must_fetch ?safe (in_tip s)"
    proof (intro allI impI, rule ccontr)
      fix b assume b: "in_next s \<le> b" "b \<le> ?safe" "logs b \<noteq> []"
      have "b \<in> in_heard s" using nf b h hd(1) by (intro heard) (auto simp: must_fetch_def)
      then have "b \<in> ts_pending (in_tip s)" "finite (ts_pending (in_tip s))" using inv b(1) by (auto simp: tip_inv_def)
      with must_fetch_pending b(2) nf show False by blast
    qed
    obtain r2 s2 where c2: "catch_up cfg acts ?safe ?s1 = (r2, s2)" by fastforce
    note facts = catch_up_inv[OF inv1 bnd feed _ safe _ c2]
    have ps: "poll_step cfg acts s = (case r2 of
        Ok None \<Rightarrow> (Ok InDrive, s2)
      | Ok (Some caught) \<Rightarrow> if cu_shutdown caught then (Ok Leave, s2)
          else (Ok (if cu_behind caught then Again else Wait), s2\<lparr>in_next := cu_next caught\<rparr>)
      | Err e \<Rightarrow> (Err e, s2) | Panic \<Rightarrow> (Panic, s2))"
      using True h hd c2
      by (auto simp: poll_step_def bind_def on_world_def on_src_def ret_def Let_def modify_def split: res.splits option.splits)
    have cc: "cursor_covered (loop_chain cfg) logs (first_block cfg) (in_db s2)"
      by (rule facts(1)) (use hd quiet in auto)
    have nx: "tip_inv cfg logs (s2\<lparr>in_next := cu_next caught\<rparr>)"
      if "r2 = Ok (Some caught)" "\<not> cu_shutdown caught" for caught
      using facts(2)[OF _ _ that] hd quiet by auto
    show ?thesis
      using step ps cc nx by (auto split: res.splits option.splits if_splits)
  qed
qed

lemma on_ws_event_frame:
  assumes "on_ws_event ev t = Returns t'"
  shows "ts_pending t' = ts_pending t \<union> announced ev"
  using assms by (cases "(ev, t)" rule: on_ws_event.cases) (auto simp: Let_def)

lemma wait_step_inv:
  assumes inv: "tip_inv cfg logs s" and step: "wait_step cfg w s = (r, s')"
  shows "in_db s' = in_db s" and "is_ok r \<Longrightarrow> tip_inv cfg logs s'"
proof -
  have pend: "ts_pending (snd (stream_next (in_tip s))) = ts_pending (in_tip s)"
    by (auto simp: stream_next_def split: option.splits list.splits)
  have fin: "finite (announced ev)" for ev by (cases ev rule: announced.cases) auto
  show "in_db s' = in_db s"
    using step by (auto simp: wait_step_def Let_def split: wake.splits if_splits prod.splits outcome.splits)
  show "tip_inv cfg logs s'" if "is_ok r"
    using step inv that pend fin
    by (auto simp: wait_step_def Let_def tip_inv_def split: wake.splits if_splits prod.splits outcome.splits
        dest!: on_ws_event_frame)
qed

lemma ingest_iter_inv:
  assumes inv: "tip_inv cfg logs s" and bnd: "bounded cfg" and feed: "block_feed (lc_drive cfg) logs"
    and ord: "orderly_tick cfg logs s" and step: "ingest_iter cfg e s = (r, s')"
  shows "cursor_covered (loop_chain cfg) logs (first_block cfg) (in_db s') \<and> (r = Ok Again \<longrightarrow> tip_inv cfg logs s')"
proof (cases "te_cancelled e \<or> dr_exhausted (lc_drive cfg) (in_src s)")
  case True
  with step inv show ?thesis by (auto simp: ingest_iter_def ret_def tip_inv_def)
next
  case False
  obtain r1 s1 where a: "subscribe_step cfg s = (r1, s1)" by fastforce
  obtain r2 s2 where b: "reorg_step cfg s1 = (r2, s2)" by fastforce
  obtain r3 s3 where c: "poll_step cfg (te_acts e) s2 = (r3, s3)" by fastforce
  obtain r4 s4 where d: "wait_step cfg (te_wake e) s3 = (r4, s4)" by fastforce
  note frame = subscribe_step_frame[OF a]
  have i1: "tip_inv cfg logs s1" using frame(5) inv .
  have c1: "cursor_covered (loop_chain cfg) logs (first_block cfg) (in_db s1)" using i1 by (simp add: tip_inv_def)
  have run: "ingest_iter cfg e s = (case r1 of Ok _ \<Rightarrow> (case r2 of Ok _ \<Rightarrow> (case r3 of
        Ok f \<Rightarrow> if f = Wait then (r4, s4) else (Ok f, s3) | Err e \<Rightarrow> (Err e, s3) | Panic \<Rightarrow> (Panic, s3))
      | Err e \<Rightarrow> (Err e, s2) | Panic \<Rightarrow> (Panic, s2)) | Err e \<Rightarrow> (Err e, s1) | Panic \<Rightarrow> (Panic, s1))"
    using False a b c d by (auto simp: ingest_iter_def bind_def ret_def split: res.splits)
  show ?thesis
  proof (cases "is_ok r1")
    case False
    with step run c1 show ?thesis by (auto split: res.splits)
  next
    case True
    then have r1: "r1 = Ok ()" by (cases r1) auto
    have le: "in_next s2 \<le> in_next s1" if "r2 = Ok ()"
      using ord a b r1 that frame(2) by (simp add: orderly_tick_def)
    note reo = reorg_step_inv[OF i1 feed b le]
    show ?thesis
    proof (cases "is_ok r2")
      case False
      with step run r1 reo(1) show ?thesis by (auto split: res.splits)
    next
      case True
      then have r2: "r2 = Ok ()" by (cases r2) auto
      have i2: "tip_inv cfg logs s2" using reo(2) True by blast
      have pl: "cursor_covered (loop_chain cfg) logs (first_block cfg) (in_db s3) \<and> (r3 = Ok Again \<or> r3 = Ok Wait \<longrightarrow> tip_inv cfg logs s3)"
        by (rule poll_step_inv[OF i2 bnd feed _ c]) (use ord a b r1 r2 in \<open>auto simp: orderly_tick_def\<close>)
      have wt: "in_db s4 = in_db s3 \<and> (is_ok r4 \<longrightarrow> tip_inv cfg logs s4)" if "r3 = Ok Wait"
        using wait_step_inv[OF _ d] pl that by blast
      show ?thesis using step run r1 r2 pl wt by (auto split: res.splits if_splits)
    qed
  qed
qed

section \<open>Runs\<close>

fun orderly :: "'c loop_cfg \<Rightarrow> (nat \<Rightarrow> raw_record list) \<Rightarrow> tick_env list \<Rightarrow> 'c ingest \<Rightarrow> bool" where
  "orderly cfg logs [] s \<longleftrightarrow> True"
| "orderly cfg logs (e # es) s \<longleftrightarrow> orderly_tick cfg logs s
     \<and> (\<forall>s'. ingest_iter cfg e s = (Ok Again, s') \<longrightarrow> orderly cfg logs es s')"

fun orderly_attempts :: "'c loop_cfg \<Rightarrow> (nat \<Rightarrow> raw_record list) \<Rightarrow> 'c attempt_env list \<Rightarrow> db \<Rightarrow> bool" where
  "orderly_attempts cfg logs [] d \<longleftrightarrow> True"
| "orderly_attempts cfg logs (a # rest) d \<longleftrightarrow>
     (\<forall>c cursor d'. ae_built a = Ok c \<longrightarrow> cursor_get (loop_chain cfg) d = (Ok cursor, d') \<longrightarrow>
        orderly cfg logs (ae_ticks a) (ingest_start cfg cursor c d'))
     \<and> orderly_attempts cfg logs rest (snd (run_chain_once cfg a d))"

lemma ingest_iters_covered:
  assumes "tip_inv cfg logs s" and "bounded cfg" and "block_feed (lc_drive cfg) logs"
    and "orderly cfg logs es s" and "ingest_iters cfg es s = (r, s')"
  shows "cursor_covered (loop_chain cfg) logs (first_block cfg) (in_db s')"
  using assms(1,4,5)
proof (induction es arbitrary: s)
  case Nil
  then show ?case by (simp add: ret_def tip_inv_def)
next
  case (Cons e es)
  obtain r1 s1 where i: "ingest_iter cfg e s = (r1, s1)" by fastforce
  note facts = ingest_iter_inv[OF Cons.prems(1) assms(2,3) _ i]
  show ?case
  proof (cases "r1 = Ok Again")
    case True
    then have "tip_inv cfg logs s1" "orderly cfg logs es s1" using facts Cons.prems(2) i by auto
    moreover have "ingest_iters cfg es s1 = (r, s')" using Cons.prems(3) i True by (simp add: bind_def)
    ultimately show ?thesis by (rule Cons.IH)
  next
    case False
    then have "s' = s1" using Cons.prems(3) i by (auto simp: bind_def ret_def split: res.splits if_splits)
    then show ?thesis using facts Cons.prems(2) by simp
  qed
qed

lemma cursor_get_cases:
  assumes "cursor_get chain s = (r, s')"
  obtains "r = Ok (map_option (\<lambda>r. (as_u64 (cu_last_height r), cu_last_hash r)) (find (\<lambda>r. cu_chain_id r = as_i64 chain) (cursors s)))"
      "s' = s\<lparr>faults := tl (faults s)\<rparr>"
  | e where "r = Err e" "s' = s\<lparr>faults := tl (faults s)\<rparr>"
  using assms unfolding cursor_get_def by (rule db_select_cases) (auto intro: that)

lemma cursor_get_covered:
  assumes "cursor_get chain s = (r, s')" and "cursor_covered cid logs lo s"
  shows "cursor_covered cid logs lo s'"
proof -
  have "stored s' = stored s" by (rule cursor_get_cases[OF assms(1)]) simp_all
  then show ?thesis using cursor_covered_cong[OF stored_fields(2) raw_grows_stored] assms(2) by blast
qed

lemma ingest_start_inv:
  assumes "cursor_covered (loop_chain cfg) logs (first_block cfg) d" and "cursor_get (loop_chain cfg) d = (Ok cursor, d')"
    and "lc_start_block cfg < 2 ^ 62"
  shows "tip_inv cfg logs (ingest_start cfg cursor c d')"
proof -
  have cc: "cursor_covered (loop_chain cfg) logs (first_block cfg) d'" using assms(2,1) by (rule cursor_get_covered)
  have d': "cursors d' = cursors d" by (rule cursor_get_cases[OF assms(2)]) simp_all
  have cur: "cursor = map_option (\<lambda>r. (as_u64 (cu_last_height r), cu_last_hash r))
       (find (\<lambda>r. cu_chain_id r = as_i64 (loop_chain cfg)) (cursors d))"
    by (rule cursor_get_cases[OF assms(2)]) simp_all
  show ?thesis
  proof (cases "find (\<lambda>r. cu_chain_id r = as_i64 (loop_chain cfg)) (cursors d)")
    case None
    then show ?thesis using cc cur assms(3) by (simp add: tip_inv_def ingest_start_def tip_new_def)
  next
    case (Some q)
    then have q: "q \<in> set (cursors d)" "cu_chain_id q = as_i64 (loop_chain cfg)" by (auto simp: find_Some_iff)
    then have "q \<in> set (cursors d')" by (simp add: d')
    with cc q(2) obtain h where h: "cu_last_height q = as_i64 h" "h < 2 ^ 62" "covered logs (first_block cfg) (h + 1) d'"
      by (auto simp: cursor_covered_def)
    have "as_u64 (cu_last_height q) = h" using h by (simp add: as_u64_as_i64)
    moreover have "u64_add h 1 = h + 1" using h(2) by (intro u64_add_exact) simp
    ultimately show ?thesis using cc cur Some h by (simp add: tip_inv_def ingest_start_def tip_new_def)
  qed
qed

lemma run_chain_once_covered:
  assumes "bounded cfg" and "block_feed (lc_drive cfg) logs" and "lc_start_block cfg < 2 ^ 62"
    and "cursor_covered (loop_chain cfg) logs (first_block cfg) d"
    and "\<And>c cursor d'. ae_built a = Ok c \<Longrightarrow> cursor_get (loop_chain cfg) d = (Ok cursor, d') \<Longrightarrow>
        orderly cfg logs (ae_ticks a) (ingest_start cfg cursor c d')"
  shows "cursor_covered (loop_chain cfg) logs (first_block cfg) (snd (run_chain_once cfg a d))"
proof (cases "ae_built a")
  case (Ok c)
  obtain r0 d0 where g: "cursor_get (loop_chain cfg) d = (r0, d0)" by fastforce
  then have c0: "cursor_covered (loop_chain cfg) logs (first_block cfg) d0" using assms(4) by (rule cursor_get_covered)
  show ?thesis
  proof (cases r0)
    case (Ok cursor)
    obtain r s where i: "ingest_iters cfg (ae_ticks a) (ingest_start cfg cursor c d0) = (r, s)" by fastforce
    have "cursor_covered (loop_chain cfg) logs (first_block cfg) (in_db s)"
      using ingest_iters_covered[OF ingest_start_inv[OF assms(4) g[unfolded Ok] assms(3)] assms(1,2)
          assms(5)[OF \<open>ae_built a = Ok c\<close> g[unfolded Ok]] i] .
    with \<open>ae_built a = Ok c\<close> Ok g i show ?thesis by (simp add: run_chain_once_def ingest_loop_def bind_def on_db_def)
  qed (use \<open>ae_built a = Ok c\<close> g c0 in \<open>simp_all add: run_chain_once_def ingest_loop_def bind_def on_db_def\<close>)
qed (use assms(4) in \<open>simp_all add: run_chain_once_def\<close>)

section \<open>Properties\<close>

text \<open>
  C10. The cursor of a supervised chain never runs ahead of the stored logs. Take any sequence of
  attempts of the supervisor, each with any number of iterations of the ingest loop, with
  any interleaving in the fetch pipeline, any failure of the source or of a statement, any
  panic, rollback and cancellation. Assume that the source answers a range with the logs of
  its blocks; that a rollback never restarts above the place the loop had reached; and that
  whenever the loop trusts the websocket, the confirmed blocks with logs that it has not
  swept have been pushed on the current stream. Then every block from the configured start
  to the chain's cursor has all its logs stored. A source without subscriptions meets the
  last assumption trivially.
\<close>

theorem supervised_cursor_covers:
  assumes "bounded cfg" and "block_feed (lc_drive cfg) logs" and "lc_start_block cfg < 2 ^ 62"
    and "cursor_covered (loop_chain cfg) logs (first_block cfg) d"
    and "orderly_attempts cfg logs attempts d"
    and "supervised_ingest cfg attempts d = (sleeps, d')"
    and "r \<in> set (cursors d')" and "cu_chain_id r = as_i64 (loop_chain cfg)"
  shows "\<exists>h. cu_last_height r = as_i64 h \<and> (\<forall>b. first_block cfg \<le> b \<longrightarrow> b \<le> h \<longrightarrow> stored_raw d' (logs b))"
proof -
  have "cursor_covered (loop_chain cfg) logs (first_block cfg) (snd (supervise cfg attempts b d))" for b
    using assms(4,5)
  proof (induction attempts arbitrary: b d)
    case (Cons a rest)
    have once: "cursor_covered (loop_chain cfg) logs (first_block cfg) (snd (run_chain_once cfg a d))"
      by (rule run_chain_once_covered[OF assms(1-3) Cons.prems(1)]) (use Cons.prems(2) in simp)
    from Cons.IH[OF once] Cons.prems once show ?case
      by (auto split: prod.splits res.splits) (metis snd_conv)+
  qed simp
  then have "cursor_covered (loop_chain cfg) logs (first_block cfg) d'" using assms(6) by (metis supervised_ingest_def snd_conv)
  with assms(7,8) show ?thesis unfolding cursor_covered_def covered_def by (metis less_add_one le_less_trans)
qed

text \<open>
  The supervisor restarts a failing chain with an exponential back-off capped at thirty
  seconds: the sleeps between attempts are 1, 2, 4, 8, 16, 30, 30, and so on, one after each
  failed attempt but possibly the last, whatever the attempts do.
\<close>

theorem supervisor_backoff:
  "fst (supervised_ingest cfg attempts d) = map (\<lambda>i. min 30 (2 ^ i)) [0..<length (fst (supervised_ingest cfg attempts d))]
   \<and> length (fst (supervised_ingest cfg attempts d)) \<le> length attempts"
proof -
  have "fst (supervise cfg attempts (min 30 (2 ^ k)) d) =
      map (\<lambda>i. min 30 (2 ^ i)) [k..<k + length (fst (supervise cfg attempts (min 30 (2 ^ k)) d))]
    \<and> length (fst (supervise cfg attempts (min 30 (2 ^ k)) d)) \<le> length attempts" for k
  proof (induction attempts arbitrary: k d)
    case (Cons a rest)
    have nxt: "min (min 30 (2 ^ k) * 2) 30 = min 30 (2 ^ Suc k :: nat)" by (simp add: min_def)
    obtain r1 d1 where o1: "run_chain_once cfg a d = (r1, d1)" by fastforce
    obtain sl d2 where sup: "supervise cfg rest (min 30 (2 ^ Suc k)) d1 = (sl, d2)" by fastforce
    from Cons.IH[of "Suc k" d1] sup
    have "sl = map (\<lambda>i. min 30 (2 ^ i)) [Suc k..<Suc k + length sl]" "length sl \<le> length rest"
      by (simp_all del: upt_Suc power_Suc)
    moreover have "[k..<k + Suc (length sl)] = k # [Suc k..<Suc k + length sl]"
      using upt_conv_Cons[of k "k + Suc (length sl)"] by simp
    ultimately have "min 30 (2 ^ k) # sl = map (\<lambda>i. min 30 (2 ^ i)) [k..<k + Suc (length sl)]" "length sl \<le> length rest"
      by (simp_all del: upt_Suc)
    with o1 sup show ?case by (cases r1) (simp_all add: nxt del: upt_Suc power_Suc)
  qed simp
  from this[of 0] show ?thesis by (simp add: supervised_ingest_def)
qed

section \<open>A run of the loop\<close>

text \<open>A drive over a single range, without faults.\<close>

definition one_range_acts :: "pipe_action list" where
  "one_range_acts = [StartFetch, FinishFetch 0, SendFetched, EndProducer, Receive, Join]"

lemma one_range_record:
  assumes "lo \<le> hi" and "hi + 1 < 2 ^ 64"
  shows "\<exists>p. prefix_record lo hi None (prefix_new lo) = (Returns (Some (hi, [])), p) \<and> pt_advanced_to p = Some hi"
proof -
  have "u64_add hi (Suc 0) = Suc hi" using u64_add_exact[of hi 1] assms(2) by simp
  then show ?thesis using assms
    by (simp add: prefix_record_def prefix_new_def waiting_insert_def waiting_remove_def best_update_def best_hash_def prefix_drain.simps)
qed

lemma one_range_drive:
  assumes "plan_ranges lo hi step = Some [(lo, hi)]" and "lo \<le> hi" and "hi + 1 < 2 ^ 64" and "faults d = []"
    and f: "fetch_range (dr_source dr) (dr_filter dr) lo hi c = (Ok f, c')" "fr_aux f = aux_data_default" "fr_last_block f = None"
    and "\<not> dr_exhausted dr c'"
  obtains d' where "pipeline_m dr one_range_acts lo hi step (c, d) =
      (Ok (Some \<lparr>po_advanced_to = Some hi, po_records = length (fr_records f), po_shutdown = False\<rparr>), (c', d'))"
    "faults d' = []" "cursors d' = put_row cu_chain_id
       \<lparr>cu_chain_id = as_i64 (cs_chain_id (dr_source dr)), cu_last_height = as_i64 hi, cu_last_hash = []\<rparr> (cursors d)"
    "raw_key ` set (raw_records d') = raw_key ` set (raw_records d) \<union> (raw_key \<circ> raw_row_of) ` set (fr_records f)"
proof -
  let ?cid = "cs_chain_id (dr_source dr)"
  have rf: "rng f = (lo, hi)" using f(1) by (rule fetch_range_rng)
  obtain p where p: "prefix_record lo hi None (prefix_new lo) = (Returns (Some (hi, [])), p)" "pt_advanced_to p = Some hi"
    using one_range_record[OF assms(2,3)] by blast
  obtain o1 d1 where c1: "commit_range ?cid f 0 d = (Ok o1, d1)" "faults d1 = []"
    using runsE[OF runs_commit_plain[OF f(2)] assms(4)] by blast
  have r1: "raw_key ` set (raw_records d1) = raw_key ` set (raw_records d) \<union> (raw_key \<circ> raw_row_of) ` set (fr_records f)"
    and io: "io_records o1 = length (fr_records f)"
    using c1(1) by (cases rule: commit_range_cases; simp add: commit_effect_raw)+
  have k1: "cursors d1 = cursors d" using c1(1) by (rule commit_range_cursors)
  have "runs (cursor_advance ?cid hi [])" unfolding cursor_advance_def by (intro runs_transaction) simp
  then obtain x d2 where c2: "cursor_advance ?cid hi [] d1 = (Ok x, d2)" "faults d2 = []" using runsE c1(2) by blast
  have k2: "raw_records d2 = raw_records d1 \<and> cursors d2 = put_row cu_chain_id
       \<lparr>cu_chain_id = as_i64 ?cid, cu_last_height = as_i64 hi, cu_last_hash = []\<rparr> (cursors d1)"
    using c2(1) by (cases rule: cursor_advance_cases) (auto simp: cursor_put_def)
  have cc: "commit_consume ?cid f (prefix_new lo) d = (Ok (p, length (fr_records f)), d2)"
    using c1 c2 p rf f(3) io by (simp add: commit_consume_def bind_def ret_def)
  have "pipeline_m dr one_range_acts lo hi step (c, d) =
      (Ok (Some \<lparr>po_advanced_to = Some hi, po_records = length (fr_records f), po_shutdown = False\<rparr>), (c', d2))"
    using assms(1,8) f(1) cc p(2)
    by (simp add: pipeline_m_def run_pipeline_def pipe_init_def one_range_acts_def pipe_step_def start_fetch_def finish_fetch_def
        send_fetched_def end_producer_def receive_def join_halves_def polling_def drop_nth_def)
  with that c2(2) k2 k1 r1 show thesis by simp
qed

text \<open>A chain with logs in the blocks 5, 10 and 12. The head is at block 10 when the loop first
  asks and at block 12 afterwards; the subscription pushes the log of block 12.\<close>

definition tip_logs :: "nat \<Rightarrow> raw_record list" where
  "tip_logs b = (if b \<in> {5, 10, 12} then [demo_raw b 0] else [])"

definition tip_source :: "bool \<Rightarrow> nat chain_source" where
  "tip_source ws = \<lparr>cs_chain_id = 1, cs_head = (\<lambda>c. (Ok (if c = 0 then 10 else 12), c + 1)),
     cs_fetch_records = (\<lambda>_ lo hi. ret (concat (map tip_logs [lo..<Suc hi]))),
     cs_fetch_aux = (\<lambda>_. ret aux_data_default), cs_block_hash = (\<lambda>_. ret None),
     cs_subscribe = (\<lambda>_. ret [Ok \<lparr>tl_record = demo_raw 12 0, tl_removed = False\<rparr>]),
     cs_plan = plan_profile_default, cs_caps = \<lparr>supports_reorg = False, supports_subscribe = ws\<rparr>\<rparr>"

definition tip_cfg :: "bool \<Rightarrow> nat loop_cfg" where
  "tip_cfg ws = \<lparr>lc_drive = \<lparr>dr_source = tip_source ws, dr_filter = \<lparr>rf_addresses = [], rf_selectors = []\<rparr>,
       dr_conc = 1, dr_exhausted = (\<lambda>_. False)\<rparr>,
     lc_tables = [], lc_confirmations = 2, lc_start_block = 1, lc_step = 50, lc_interval = 12\<rparr>"

definition tip_env :: "wake \<Rightarrow> tick_env" where
  "tip_env w = \<lparr>te_cancelled = False, te_acts = one_range_acts, te_wake = w\<rparr>"

lemma tip_cfg_simps [simp]:
  "lc_drive (tip_cfg ws) = \<lparr>dr_source = tip_source ws, dr_filter = \<lparr>rf_addresses = [], rf_selectors = []\<rparr>,
       dr_conc = 1, dr_exhausted = (\<lambda>_. False)\<rparr>"
  "lc_confirmations (tip_cfg ws) = 2" "lc_start_block (tip_cfg ws) = 1" "lc_step (tip_cfg ws) = 50" "lc_tables (tip_cfg ws) = []"
  "lc_interval (tip_cfg ws) = 12" "cs_chain_id (tip_source ws) = 1"
  by (simp_all add: tip_cfg_def tip_source_def)

lemma tip_block_feed: "block_feed (lc_drive (tip_cfg ws)) tip_logs"
  by (simp add: block_feed_def feeds_def tip_source_def ret_def) (simp add: tip_logs_def demo_raw_def)

lemma tip_bounded: "bounded (tip_cfg ws)"
  by (simp add: bounded_def tip_source_def)

lemma tip_drive:
  obtains d where "pipeline_m (lc_drive (tip_cfg ws)) one_range_acts 1 8 50 (1, db_empty) =
      (Ok (Some \<lparr>po_advanced_to = Some 8, po_records = 1, po_shutdown = False\<rparr>), (1, d))" "faults d = []"
    "cursors d = [\<lparr>cu_chain_id = 1, cu_last_height = 8, cu_last_hash = []\<rparr>]"
    "raw_key ` set (raw_records d) = {raw_key (raw_row_of (demo_raw 5 0))}"
proof -
  let ?f = "\<lparr>fr_from = 1, fr_to = 8, fr_records = [demo_raw 5 0], fr_aux = aux_data_default, fr_last_block = None\<rparr>"
  have "concat (map tip_logs [1..<Suc 8]) = [demo_raw 5 0]" by (simp add: upt_rec tip_logs_def eval_nat_numeral)
  then have f: "fetch_range (tip_source ws) \<lparr>rf_addresses = [], rf_selectors = []\<rparr> 1 8 1 = (Ok ?f, 1)"
    by (simp add: fetch_range_def tip_source_def bind_def ret_def aux_data_default_def max_by_key_def del: upt_Suc)
  have pl: "plan_ranges 1 8 50 = Some [(1, 8)]" by (simp add: plan_ranges_spans spans.simps)
  show thesis
    by (rule one_range_drive[of 1 8 50 db_empty "lc_drive (tip_cfg ws)" 1 ?f 1])
      (use pl f that in \<open>auto simp: db_empty_def put_row_def as_i64_def\<close>)
qed

lemma tip_start: "cursor_get 1 db_empty = (Ok None, db_empty)"
  by (simp add: cursor_get_def db_result_def select_no_faults db_empty_def)

lemma tip_catch_up:
  assumes "in_next s = 1" and "in_src s = 1" and "in_db s = db_empty" and "ts_reconcile (in_tip s)" and "ts_pending (in_tip s) = {}"
    and "pipeline_m (lc_drive (tip_cfg ws)) one_range_acts 1 8 50 (1, db_empty) =
      (Ok (Some \<lparr>po_advanced_to = Some 8, po_records = 1, po_shutdown = False\<rparr>), (1, d))"
  shows "catch_up (tip_cfg ws) one_range_acts 8 s = (Ok (Some \<lparr>cu_next = 9, cu_shutdown = False, cu_behind = False\<rparr>),
     s\<lparr>in_db := d, in_tip := (in_tip s)\<lparr>ts_reconcile := False\<rparr>\<rparr>)"
proof -
  have t: "fetch_target 8 1 50 1 True = 8" by (simp add: fetch_target_def u64_sub_def u64_add_def u64_mul_def)
  have mf: "must_fetch 8 (in_tip s)" using assms(4) by (simp add: must_fetch_def)
  have n: "u64_add 8 1 = 9" by (simp add: u64_add_def)
  show ?thesis
    using assms
    by (simp add: catch_up_def mf t bind_def on_world_def ret_def modify_def n clear_through_def del: One_nat_def)
qed

text \<open>
  C11. The tip loop skips blocks that were mined before the subscription and not yet confirmed
  then. The loop subscribes while the head is at block 10 and sweeps to block 8, two
  confirmations below. A push for block 12 makes it look at the head again, and since that
  push is not confirmed it moves the cursor to block 10 without a fetch: the log of block 10,
  which the source would have returned, is not stored, and the loop goes on at block 11.
\<close>

theorem ws_gap_is_skipped:
  "\<exists>c d. ingest_loop (tip_cfg True) [tip_env WakeEvent, tip_env WakeTimeout] (0, db_empty) = (Ok Again, (c, d))
     \<and> cursors d = [\<lparr>cu_chain_id = 1, cu_last_height = 10, cu_last_hash = []\<rparr>]
     \<and> fst (cs_fetch_records (tip_source True) filt 10 10 c) = Ok [demo_raw 10 0] \<and> \<not> stored_raw d [demo_raw 10 0]"
proof -
  obtain d where p: "pipeline_m (lc_drive (tip_cfg True)) one_range_acts 1 8 50 (1, db_empty) =
      (Ok (Some \<lparr>po_advanced_to = Some 8, po_records = 1, po_shutdown = False\<rparr>), (1, d))" and d: "faults d = []"
    "cursors d = [\<lparr>cu_chain_id = 1, cu_last_height = 8, cu_last_hash = []\<rparr>]"
    "raw_key ` set (raw_records d) = {raw_key (raw_row_of (demo_raw 5 0))}"
    by (rule tip_drive)
  have "runs (cursor_advance 1 10 [])" unfolding cursor_advance_def by (intro runs_transaction) simp
  then obtain x d2 where a: "cursor_advance 1 10 [] d = (Ok x, d2)" using runsE d(1) by blast
  then have d2: "cursors d2 = [\<lparr>cu_chain_id = 1, cu_last_height = 10, cu_last_hash = []\<rparr>] \<and> raw_records d2 = raw_records d"
    by (cases rule: cursor_advance_cases) (auto simp: cursor_put_def d(2) put_row_def as_i64_def)
  let ?t1 = "\<lparr>ts_ws_enabled = True, ts_sub = Some [Ok \<lparr>tl_record = demo_raw 12 0, tl_removed = False\<rparr>], ts_pending = {},
      ts_reconcile = True, ts_reorg_at = None\<rparr>"
  let ?s1 = "\<lparr>in_next = 1, in_tip = ?t1, in_tick = 1, in_wait = 0, in_src = 1, in_db = db_empty, in_heard = {}\<rparr>"
  let ?t2 = "?t1\<lparr>ts_sub := Some [], ts_pending := {12}, ts_reconcile := False\<rparr>"
  let ?s2 = "\<lparr>in_next = 9, in_tip = ?t2, in_tick = 1, in_wait = 12, in_src = 1, in_db = d, in_heard = {12}\<rparr>"
  have "catch_up (tip_cfg True) one_range_acts 8 ?s1 = (Ok (Some \<lparr>cu_next = 9, cu_shutdown = False, cu_behind = False\<rparr>),
     ?s1\<lparr>in_db := d, in_tip := ?t1\<lparr>ts_reconcile := False\<rparr>\<rparr>)"
    using tip_catch_up[of ?s1 True d] p by simp
  then have i1: "ingest_iter (tip_cfg True) (tip_env WakeEvent) (ingest_start (tip_cfg True) None 0 db_empty) = (Ok Again, ?s2)"
    by (simp add: ingest_iter_def ingest_start_def tip_env_def subscribe_step_def ensure_subscribed_def reorg_step_def
        take_reorg_signal_def poll_step_def should_poll_head_def wait_step_def stream_next_def tip_new_def tip_source_def
        bind_def on_world_def on_src_def ret_def modify_def REORG_PROBE_TICKS_def u64_add_def tip_wait_def demo_raw_def del: One_nat_def)
  let ?s3 = "\<lparr>in_next = 11, in_tip = ?t2, in_tick = 2, in_wait = 2, in_src = 2, in_db = d2, in_heard = {12}\<rparr>"
  have "catch_up (tip_cfg True) one_range_acts 10 (?s2\<lparr>in_tick := 2, in_src := 2\<rparr>) =
      (Ok (Some \<lparr>cu_next = 11, cu_shutdown = False, cu_behind = False\<rparr>), ?s2\<lparr>in_tick := 2, in_src := 2, in_db := d2\<rparr>)"
    using a by (simp add: catch_up_def must_fetch_def fetch_target_def bind_def on_world_def on_db_def ret_def u64_add_def)
  then have i2: "ingest_iter (tip_cfg True) (tip_env WakeTimeout) ?s2 = (Ok Again, ?s3)"
    by (simp add: ingest_iter_def tip_env_def subscribe_step_def ensure_subscribed_def reorg_step_def
        take_reorg_signal_def poll_step_def should_poll_head_def wait_step_def tip_source_def
        bind_def on_world_def on_src_def ret_def modify_def REORG_PROBE_TICKS_def u64_add_def tip_wait_def
        PENDING_RECHECK_SECS_def del: One_nat_def)
  have "ingest_loop (tip_cfg True) [tip_env WakeEvent, tip_env WakeTimeout] (0, db_empty) = (Ok Again, (2, d2))"
    using i1 i2 by (simp add: ingest_loop_def bind_def on_db_def tip_start ret_def del: One_nat_def)
  moreover have "fst (cs_fetch_records (tip_source True) filt 10 10 c) = Ok [demo_raw 10 0]" for c
    by (simp add: tip_source_def ret_def tip_logs_def)
  moreover have "\<not> stored_raw d2 [demo_raw 10 0]"
    using d(3) d2 by (simp add: stored_raw_def raw_key_def raw_row_of_def demo_raw_def as_i64_def)
  ultimately show ?thesis using d2 by blast
qed

theorem supervised_cursor_covers_witness:
  "\<exists>d'. supervised_ingest (tip_cfg False) [\<lparr>ae_cancelled = False, ae_built = Ok 0, ae_ticks = [tip_env WakeTimeout], ae_sleep_cancelled = False\<rparr>] db_empty
       = ([], d') \<and> cursors d' = [\<lparr>cu_chain_id = 1, cu_last_height = 8, cu_last_hash = []\<rparr>] \<and> stored_raw d' [demo_raw 5 0]"
proof -
  let ?as = "[\<lparr>ae_cancelled = False, ae_built = Ok (0 :: nat), ae_ticks = [tip_env WakeTimeout], ae_sleep_cancelled = False\<rparr>]"
  obtain d where p: "pipeline_m (lc_drive (tip_cfg False)) one_range_acts 1 8 50 (1, db_empty) =
      (Ok (Some \<lparr>po_advanced_to = Some 8, po_records = 1, po_shutdown = False\<rparr>), (1, d))"
    and d: "cursors d = [\<lparr>cu_chain_id = 1, cu_last_height = 8, cu_last_hash = []\<rparr>]" by (rule tip_drive)
  let ?t1 = "\<lparr>ts_ws_enabled = False, ts_sub = None, ts_pending = {}, ts_reconcile = True, ts_reorg_at = None\<rparr>"
  let ?s1 = "\<lparr>in_next = 1, in_tip = ?t1, in_tick = 1, in_wait = 0, in_src = 1, in_db = db_empty, in_heard = {}\<rparr>"
  let ?s2 = "\<lparr>in_next = 9, in_tip = ?t1\<lparr>ts_reconcile := False\<rparr>, in_tick = 1, in_wait = 12, in_src = 1, in_db = d, in_heard = {}\<rparr>"
  have "catch_up (tip_cfg False) one_range_acts 8 ?s1 = (Ok (Some \<lparr>cu_next = 9, cu_shutdown = False, cu_behind = False\<rparr>),
     ?s1\<lparr>in_db := d, in_tip := ?t1\<lparr>ts_reconcile := False\<rparr>\<rparr>)"
    using tip_catch_up[of ?s1 False d] p by simp
  then have "ingest_iter (tip_cfg False) (tip_env WakeTimeout) (ingest_start (tip_cfg False) None 0 db_empty) = (Ok Again, ?s2)"
    by (simp add: ingest_iter_def ingest_start_def tip_env_def subscribe_step_def ensure_subscribed_def reorg_step_def
        take_reorg_signal_def poll_step_def should_poll_head_def wait_step_def tip_new_def tip_source_def reorg_check_def
        bind_def on_world_def on_src_def ret_def modify_def u64_add_def tip_wait_def del: One_nat_def)
  then have run: "supervised_ingest (tip_cfg False) ?as db_empty = ([], d)"
    by (simp add: supervised_ingest_def run_chain_once_def ingest_loop_def bind_def on_db_def tip_start ret_def del: One_nat_def)
  have fresh: "cursor_covered 1 tip_logs 1 db_empty" by (simp add: cursor_covered_def db_empty_def)
  have ord: "orderly_attempts (tip_cfg False) tip_logs ?as db_empty"
    using tip_start
    by (simp add: orderly_tick_def ingest_start_def tip_new_def subscribe_step_def ensure_subscribed_def reorg_step_def
        take_reorg_signal_def tip_source_def reorg_check_def bind_def on_world_def ret_def)
  have "\<exists>h. cu_last_height (hd (cursors d)) = as_i64 h \<and> (\<forall>b. first_block (tip_cfg False) \<le> b \<longrightarrow> b \<le> h \<longrightarrow> stored_raw d (tip_logs b))"
    by (rule supervised_cursor_covers[OF tip_bounded tip_block_feed _ _ ord run]) (use fresh in \<open>simp_all add: d as_i64_def\<close>)
  then obtain h where h: "(8 :: int) = as_i64 h" "\<forall>b. 1 \<le> b \<longrightarrow> b \<le> h \<longrightarrow> stored_raw d (tip_logs b)" by (auto simp: d)
  have "5 \<le> h" using h(1) by (auto simp: as_i64_def Let_def split: if_splits)
  with h(2) have "stored_raw d (tip_logs 5)" by simp
  then have "stored_raw d [demo_raw 5 0]" by (simp add: tip_logs_def)
  with run d show ?thesis by blast
qed

end
