(* ===== verification/Rpc_Chain.thy ===== *)
theory Rpc_Chain
  imports Evm_Decoder Backfill Tip_Loop
begin

text \<open>
  The JSON-RPC client as the chain source of the ingest loop: \<open>impl ChainSource for
  RpcLogSource\<close> of \<open>crates/source/src/client.rs\<close>, and the contract that the theorems on
  pipelines, backfills and the tip loop assume of a source, shown for this client.
\<close>

section \<open>The port\<close>

text \<open>A fetch whose loop does not end has no outcome to return; \<open>rpc_fetch_returns\<close> shows that
  this is not the case for heights in range.\<close>

definition rpc_chain_source :: "aux_sched \<Rightarrow> 'n rpc_source \<Rightarrow> 'n rpc chain_source" where
  "rpc_chain_source sched src = \<lparr>cs_chain_id = rs_chain_id src, cs_head = head src,
     cs_fetch_records = (\<lambda>filt from to s. case fetch_records src filt from to s of Some out \<Rightarrow> out | None \<Rightarrow> (Panic, s)),
     cs_fetch_aux = fetch_aux sched src, cs_block_hash = block_hash src, cs_subscribe = subscribe src,
     cs_plan = rs_plan src, cs_caps = caps src\<rparr>"

section \<open>The logs of a block\<close>

text \<open>The records of the logs that the chain has at a block.\<close>

definition block_records :: "chain_id \<Rightarrow> (nat \<Rightarrow> eth_log list) \<Rightarrow> nat \<Rightarrow> raw_record list" where
  "block_records cid at b = (case map_logs cid (at b) of Ok recs \<Rightarrow> recs | _ \<Rightarrow> [])"

text \<open>A log carries the number of its block, if it carries one.\<close>

definition numbered :: "(nat \<Rightarrow> eth_log list) \<Rightarrow> bool" where
  "numbered at \<longleftrightarrow> (\<forall>b. \<forall>l \<in> set (at b). lg_block_number l = None \<or> lg_block_number l = Some b)"

lemma map_logs_append:
  "map_logs cid (xs @ ys) = Ok recs \<longleftrightarrow> (\<exists>a b. map_logs cid xs = Ok a \<and> map_logs cid ys = Ok b \<and> recs = a @ b)"
  by (induction xs arbitrary: recs) (auto simp: and_then_Ok map_ok_Ok)

lemma map_logs_blocks:
  "map_logs cid (concat (map at bs)) = Ok recs \<Longrightarrow> recs = concat (map (block_records cid at) bs)"
  by (induction bs arbitrary: recs) (auto simp: map_logs_append block_records_def)

lemma map_logs_record:
  assumes "map_logs cid ls = Ok recs" "r \<in> set recs"
  shows "rr_chain_id r = cid \<and> (\<exists>l \<in> set ls. lg_block_number l = Some (rr_height r))"
  using assms
proof (induction ls arbitrary: recs)
  case (Cons l ls)
  then obtain x xs where x: "map_log cid l = Ok x" "map_logs cid ls = Ok xs" "recs = x # xs"
    by (auto simp: and_then_Ok map_ok_Ok)
  have "rr_chain_id x = cid \<and> lg_block_number l = Some (rr_height x)"
    using x(1) by (auto simp: map_log_def split: option.splits)
  then show ?case using x Cons.IH[OF x(2)] Cons.prems(2) by auto
qed simp

lemma block_records_fields:
  assumes "numbered at" "r \<in> set (block_records cid at b)"
  shows "rr_chain_id r = cid \<and> rr_height r = b"
proof -
  obtain recs where "map_logs cid (at b) = Ok recs" "r \<in> set recs"
    using assms(2) by (cases "map_logs cid (at b)") (auto simp: block_records_def)
  from map_logs_record[OF this] show ?thesis using assms(1) by (fastforce simp: numbered_def)
qed

section \<open>Fetching through the port\<close>

lemma rpc_fetch_returns:
  assumes "base_filter filt = Returns base" and "to + max (max_getlogs_blocks (rs_plan src)) 1 < 2 ^ 64" and "complete_pages src base at"
  shows "\<exists>r s'. fetch_records src filt from to s = Some (r, s') \<and> (\<forall>recs. r = Ok recs \<longrightarrow> map_logs (rs_chain_id src) (logs_in at from to) = Ok recs)"
proof -
  obtain pending where p: "valid_spans pending" "logs_of_spans at pending = logs_in at from to"
    "fetch_records src filt from to s = map_option (\<lambda>(r, s').
         (map_err source_error_to_domain (and_then r (map_logs (rs_chain_id src))), s')) (fetch_loop src base pending [] s)"
    using fetch_records_seeded[OF assms(1,2)] by metis
  from fetch_loop_complete[OF assms(3) p(1), of "[]" s] p show ?thesis by auto
qed

lemma rpc_keeps_contract:
  assumes "base_filter (dr_filter dr) = Returns base" and "max_getlogs_blocks (rs_plan src) < 2 ^ 32"
    and "complete_pages src base at" and "numbered at" and "dr_source dr = rpc_chain_source sched src"
  shows "block_feed dr (block_records (rs_chain_id src) at)
     \<and> sound_feed dr (\<lambda>lo hi. concat (map (block_records (rs_chain_id src) at) [lo..<Suc hi]))"
proof -
  let ?logs = "block_records (rs_chain_id src) at"
  have feeds: "feeds dr (\<lambda>lo hi. concat (map ?logs [lo..<Suc hi]))"
    unfolding feeds_def
  proof (intro allI impI)
    fix lo hi s recs s' assume hi: "hi < (2 :: nat) ^ 63" and f: "cs_fetch_records (dr_source dr) (dr_filter dr) lo hi s = (Ok recs, s')"
    have "hi + max (max_getlogs_blocks (rs_plan src)) 1 < 2 ^ 64" using hi assms(2) by simp
    from rpc_fetch_returns[OF assms(1) this assms(3), of lo s] f assms(5)
    have "map_logs (rs_chain_id src) (logs_in at lo hi) = Ok recs" by (auto simp: rpc_chain_source_def)
    then show "recs = concat (map ?logs [lo..<Suc hi])" unfolding logs_in_def by (rule map_logs_blocks)
  qed
  have rec: "rr_chain_id r = cs_chain_id (dr_source dr) \<and> rr_height r = b" if "r \<in> set (?logs b)" for r b
    using block_records_fields[OF assms(4) that] assms(5) by (simp add: rpc_chain_source_def)
  then have "block_feed dr ?logs" using feeds by (simp add: block_feed_def)
  moreover have "sound_feed dr (\<lambda>lo hi. concat (map ?logs [lo..<Suc hi]))"
    using feeds rec unfolding sound_feed_def by fastforce
  ultimately show ?thesis by blast
qed

text \<open>
  C6. The JSON-RPC client keeps the contract of a chain source. Against a provider whose pages are
  complete below its result cap and whose logs carry their block's number, a successful fetch
  through the port returns, for any range of heights below \<open>2 ^ 63\<close> and in any state of the
  client, the records of exactly the blocks of the range, in order and of this chain. This is
  the feed that the theorems on the pipeline, the backfill and the tip loop assume.
\<close>

theorem rpc_source_feeds:
  assumes "base_filter (dr_filter dr) = Returns base" and "max_getlogs_blocks (rs_plan src) < 2 ^ 32"
    and "complete_pages src base at" and "numbered at" and "dr_source dr = rpc_chain_source sched src"
  shows "block_feed dr (block_records (rs_chain_id src) at)
     \<and> sound_feed dr (\<lambda>lo hi. concat (map (block_records (rs_chain_id src) at) [lo..<Suc hi]))"
  using assms by (rule rpc_keeps_contract)

definition demo_rpc_drive :: "nat rpc drive" where
  "demo_rpc_drive = \<lparr>dr_source = rpc_chain_source demo_sched demo_source, dr_filter = demo_filter, dr_conc = 2,
     dr_exhausted = (\<lambda>s. quota_exhausted (ledger s))\<rparr>"

theorem rpc_source_feeds_witness: "block_feed demo_rpc_drive (\<lambda>b. [demo_record b])"
proof -
  have "block_feed demo_rpc_drive (block_records (rs_chain_id demo_source) (\<lambda>h. [demo_log h]))"
    by (rule conjunct1[OF rpc_source_feeds[where base = "\<lparr>lf_addresses = [], lf_topic0 = []\<rparr>" and sched = demo_sched]])
      (use demo_base_filter demo_complete in \<open>simp_all add: demo_rpc_drive_def numbered_def demo_log_def plan_profile_default_def\<close>)
  moreover have "block_records (rs_chain_id demo_source) (\<lambda>h. [demo_log h]) = (\<lambda>b. [demo_record b])"
    by (simp add: block_records_def fun_eq_iff del: One_nat_def)
  ultimately show ?thesis by simp
qed

end
