(* ===== verification/Query.thy ===== *)
theory Query
  imports Migrator
begin

text \<open>
  The read side, \<open>crates/db-query\<close>: the SQL that a \<open>QuerySpec\<close> becomes, its bind values, the
  keyset cursor, pages and counts (\<open>PgEventQueryRepository\<close>).

  A statement is given by its parts, with its text (\<open>render_select\<close>) and its meaning on the
  tables (\<open>select_rows\<close>). What Postgres computes from column values other than the integer
  meta columns is a parameter, and so is the order of rows that the \<open>ORDER BY\<close> leaves open.
\<close>

section \<open>Errors\<close>

datatype query_error = QSqlx string | QInvalid string

fun query_error_to_domain :: "query_error \<Rightarrow> domain_error" where
  "query_error_to_domain (QInvalid m) = Invalid m"
| "query_error_to_domain (QSqlx e) = Storage (''database error: '' @ e)"

section \<open>The keyset cursor\<close>

text \<open>\<open>str::split_once\<close> with a character.\<close>

fun split_once :: "char \<Rightarrow> string \<Rightarrow> (string \<times> string) option" where
  "split_once sep [] = None"
| "split_once sep (c # cs) = (if c = sep then Some ([], cs) else map_option (\<lambda>(a, b). (c # a, b)) (split_once sep cs))"

definition format_cursor :: "int \<Rightarrow> int \<Rightarrow> string" where
  "format_cursor height idx = show_int height @ '':'' @ show_int idx"

definition parse_cursor :: "string \<Rightarrow> (query_error, int \<times> int) res" where
  "parse_cursor c = (let bad = Err (QInvalid ''bad cursor'') in
     case split_once CHR '':'' c of
       None \<Rightarrow> bad
     | Some (h, i) \<Rightarrow>
         (case parse_i64 h of
            None \<Rightarrow> bad
          | Some hv \<Rightarrow> (case parse_i64 i of None \<Rightarrow> bad | Some iv \<Rightarrow> Ok (hv, iv))))"

section \<open>SQL construction\<close>

definition meta_col_type :: "string \<Rightarrow> column_type option" where
  "meta_col_type name =
     (if name \<in> {''chain_id'', ''height'', ''idx''} then Some CInt64
      else if name = ''block_time'' then Some CTimestamp
      else if name \<in> {''block_hash'', ''tx_id''} then Some CBytes
      else None)"

definition AUX_TABLES :: "string list" where
  "AUX_TABLES = [''transactions'', ''receipts'']"

text \<open>A string literal of SQL.\<close>

definition squoted :: "string \<Rightarrow> string" where
  "squoted s = [CHR 0x27] @ s @ [CHR 0x27]"

definition row_json :: "string \<Rightarrow> (string \<times> column_type) list \<Rightarrow> bool \<Rightarrow> string" where
  "row_json alias cols has_idx =
     (let parts = [squoted ''chain_id'' @ '', '' @ alias @ ''.chain_id'',
                   squoted ''height'' @ '', '' @ alias @ ''.height'',
                   squoted ''block_hash'' @ '', '' @ squoted ''0x'' @ '' || encode('' @ alias @ ''.block_hash, '' @ squoted ''hex'' @ '')'',
                   squoted ''block_time'' @ '', '' @ alias @ ''.block_time'',
                   squoted ''tx_id'' @ '', '' @ squoted ''0x'' @ '' || encode('' @ alias @ ''.tx_id, '' @ squoted ''hex'' @ '')'']
                @ (if has_idx then [squoted ''idx'' @ '', '' @ alias @ ''.idx''] else [])
                @ map (\<lambda>(name, ty). squoted name @ '', '' @ json_projection alias name ty) cols
      in ''jsonb_build_object('' @ join '', '' parts @ '')'')"

datatype bind_val = BInt int | BBytes bytes | BBool bool | BText string

definition safe_table :: "string \<Rightarrow> (query_error, string) res" where
  "safe_table name = (if is_valid_ident name then Ok name else Err (QInvalid (''bad table name: '' @ name)))"

fun op_sql :: "filter_op \<Rightarrow> string" where
  "op_sql OpEq = ''=''"
| "op_sql OpNe = ''<>''"
| "op_sql OpGt = ''>''"
| "op_sql OpGte = ''>=''"
| "op_sql OpLt = ''<''"
| "op_sql OpLte = ''<=''"

text \<open>\<open>str::parse::<bool>\<close>.\<close>

definition parse_bool :: "string \<Rightarrow> bool option" where
  "parse_bool s = (if s = ''true'' then Some True else if s = ''false'' then Some False else None)"

fun bind_value :: "column_type \<Rightarrow> string \<Rightarrow> (query_error, string \<times> bind_val) res" where
  "bind_value CInt64 raw = (case parse_i64 raw of
     Some i \<Rightarrow> Ok (cast_suffix CInt64, BInt i) | None \<Rightarrow> Err (QInvalid ''expected an integer''))"
| "bind_value CBool raw = (case parse_bool raw of
     Some b \<Rightarrow> Ok (cast_suffix CBool, BBool b) | None \<Rightarrow> Err (QInvalid ''expected a boolean''))"
| "bind_value CAddress raw = (case hex_decode raw of
     Panics \<Rightarrow> Panic | Returns (Some bs) \<Rightarrow> Ok (cast_suffix CAddress, BBytes bs)
   | Returns None \<Rightarrow> Err (QInvalid ''expected 0x-hex bytes''))"
| "bind_value CBytes raw = (case hex_decode raw of
     Panics \<Rightarrow> Panic | Returns (Some bs) \<Rightarrow> Ok (cast_suffix CBytes, BBytes bs)
   | Returns None \<Rightarrow> Err (QInvalid ''expected 0x-hex bytes''))"
| "bind_value CJson raw = Err (QInvalid ''jsonb columns are not filterable'')"
| "bind_value ty raw = Ok (cast_suffix ty, BText raw)"

section \<open>The repository\<close>

text \<open>Table name to its decoded columns.\<close>

type_synonym query_tables = "string \<Rightarrow> (string \<times> column_type) list option"

definition query_new :: "event_schema list \<Rightarrow> query_tables" where
  "query_new schemas = fold (\<lambda>s m. m(es_table s \<mapsto> map (\<lambda>c. (cd_name c, cd_ty c)) (es_columns s))) schemas Map.empty"

definition col_type :: "query_tables \<Rightarrow> string \<Rightarrow> string \<Rightarrow> column_type option" where
  "col_type tbls table col = (case meta_col_type col of
     Some t \<Rightarrow> Some t
   | None \<Rightarrow> (case tbls table of None \<Rightarrow> None | Some cols \<Rightarrow> map_option snd (find (\<lambda>(n, _). n = col) cols)))"

definition validate_table :: "query_tables \<Rightarrow> query_spec \<Rightarrow> (domain_error, string) res" where
  "validate_table tbls spec = (case map_err query_error_to_domain (safe_table (sp_table spec)) of
     Ok table \<Rightarrow>
       if \<not> table_has_idx table
       then Err (Invalid ''receipts are queried via their transaction, not standalone'')
       else if tbls table = None then Err (Invalid (''unknown table '' @ squoted table))
       else Ok table
   | Err e \<Rightarrow> Err e
   | Panic \<Rightarrow> Panic)"

text \<open>A condition of the \<open>WHERE\<close> clause; the numbers are placeholders.\<close>

datatype cond =
    FilterCond string filter_op nat string
  | KeysetCond bool nat

fun render_cond :: "cond \<Rightarrow> string" where
  "render_cond (FilterCond column op n cast) = ''t.'' @ quoted column @ '' '' @ op_sql op @ '' $'' @ show_nat n @ cast"
| "render_cond (KeysetCond descending n) =
     ''(t.height, t.idx) '' @ (if descending then ''<'' else ''>'') @ '' ($'' @ show_nat n @ '', $'' @ show_nat (n + 1) @ '')''"

fun filters_loop :: "query_tables \<Rightarrow> string \<Rightarrow> qfilter list \<Rightarrow> cond list \<Rightarrow> bind_val list
    \<Rightarrow> (domain_error, cond list \<times> bind_val list) res" where
  "filters_loop tbls table [] conds binds = Ok (conds, binds)"
| "filters_loop tbls table (f # fs) conds binds = (case col_type tbls table (qf_column f) of
     None \<Rightarrow> Err (Invalid (''unknown filter column '' @ squoted (qf_column f)))
   | Some ty \<Rightarrow> (case map_err query_error_to_domain (bind_value ty (qf_value f)) of
       Ok (cast, b) \<Rightarrow> filters_loop tbls table fs
         (conds @ [FilterCond (qf_column f) (qf_op f) (length binds + 1) cast]) (binds @ [b])
     | Err e \<Rightarrow> Err e
     | Panic \<Rightarrow> Panic))"

definition build_filters :: "query_tables \<Rightarrow> string \<Rightarrow> qfilter list \<Rightarrow> (domain_error, cond list \<times> bind_val list) res" where
  "build_filters tbls table filters = filters_loop tbls table filters [] []"

text \<open>The joined aux tables of a statement: alias, table and columns.\<close>

definition aux_joins :: "query_tables \<Rightarrow> query_spec \<Rightarrow> (string \<times> string \<times> (string \<times> column_type) list) list" where
  "aux_joins tbls spec = (if sp_table spec \<in> set AUX_TABLES then []
     else concat (map (\<lambda>(alias, aux, incl). if \<not> incl then []
            else (case tbls aux of None \<Rightarrow> [] | Some cols \<Rightarrow> [(alias, aux, cols)]))
          [(''tx'', ''transactions'', sp_include_tx spec), (''rc'', ''receipts'', sp_include_receipt spec)]))"

definition nested_json :: "string \<times> string \<times> (string \<times> column_type) list \<Rightarrow> string" where
  "nested_json j = (case j of (alias, aux, cols) \<Rightarrow>
     squoted (if aux = ''transactions'' then ''transaction'' else ''receipt'') @ '', CASE WHEN '' @ alias
       @ ''.tx_id IS NULL THEN NULL ELSE '' @ row_json alias cols (table_has_idx aux) @ '' END'')"

definition render_join :: "string \<times> string \<times> (string \<times> column_type) list \<Rightarrow> string" where
  "render_join j = (case j of (alias, aux, cols) \<Rightarrow>
     '' LEFT JOIN '' @ aux @ '' '' @ alias @ '' ON '' @ alias @ ''.chain_id = t.chain_id AND '' @ alias @ ''.tx_id = t.tx_id'')"

definition row_expr :: "(string \<times> column_type) list \<Rightarrow> (string \<times> string \<times> (string \<times> column_type) list) list \<Rightarrow> string" where
  "row_expr cols joins = (let row = row_json ''t'' cols True in
     if joins = [] then row
     else row @ '' || jsonb_build_object('' @ join '', '' (map nested_json joins) @ '')'')"

record select_query =
  sq_row :: string
  sq_table :: string
  sq_joins :: "(string \<times> string \<times> (string \<times> column_type) list) list"
  sq_conds :: "cond list"
  sq_descending :: bool
  sq_limit :: nat

definition where_clause :: "cond list \<Rightarrow> string" where
  "where_clause conds = (if conds = [] then [] else '' WHERE '' @ join '' AND '' (map render_cond conds))"

definition render_select :: "select_query \<Rightarrow> string" where
  "render_select q = ''SELECT ('' @ sq_row q @ '')::text AS j, t.height, t.idx FROM '' @ sq_table q @ '' t''
     @ concat (map render_join (sq_joins q)) @ where_clause (sq_conds q)
     @ '' ORDER BY '' @ (if sq_descending q then ''t.height DESC, t.idx DESC'' else ''t.height, t.idx'')
     @ '' LIMIT '' @ show_nat (sq_limit q)"

definition page_size :: "query_spec \<Rightarrow> nat" where
  "page_size spec = min (max (sp_first spec) 1) 1000"

definition build_query :: "query_tables \<Rightarrow> query_spec \<Rightarrow> (domain_error, select_query \<times> bind_val list) res" where
  "build_query tbls spec = (case validate_table tbls spec of
     Ok table \<Rightarrow> (case build_filters tbls table (sp_filters spec) of
       Ok (conds, binds) \<Rightarrow>
         (case (case sp_after spec of None \<Rightarrow> Ok None | Some c \<Rightarrow> map_ok Some (map_err query_error_to_domain (parse_cursor c))) of
            Ok after \<Rightarrow>
              let (conds', binds') = (case after of
                     None \<Rightarrow> (conds, binds)
                   | Some (b, l) \<Rightarrow> (conds @ [KeysetCond (sp_descending spec) (length binds + 1)], binds @ [BInt b, BInt l]));
                  joins = aux_joins tbls spec
              in Ok (\<lparr>sq_row = row_expr (the (tbls table)) joins, sq_table = table, sq_joins = joins, sq_conds = conds',
                      sq_descending = sp_descending spec, sq_limit = page_size spec + 1\<rparr>, binds')
          | Err e \<Rightarrow> Err e
          | Panic \<Rightarrow> Panic)
     | Err e \<Rightarrow> Err e
     | Panic \<Rightarrow> Panic)
   | Err e \<Rightarrow> Err e
   | Panic \<Rightarrow> Panic)"

section \<open>What Postgres does\<close>

text \<open>
  Comparisons of the integer meta columns are computed; other comparisons, the text of a
  projected row and the order in which a scan delivers rows are parameters.
\<close>

record pg_eval =
  pe_compare :: "string \<Rightarrow> filter_op \<Rightarrow> string \<Rightarrow> bind_val \<Rightarrow> typed_row \<Rightarrow> bool"
  pe_text :: "string \<Rightarrow> typed_row \<Rightarrow> typed_row option list \<Rightarrow> string"
  pe_scan :: "(typed_row \<times> typed_row option list) list \<Rightarrow> (typed_row \<times> typed_row option list) list"

fun int_cmp :: "filter_op \<Rightarrow> int \<Rightarrow> int \<Rightarrow> bool" where
  "int_cmp OpEq a b \<longleftrightarrow> a = b"
| "int_cmp OpNe a b \<longleftrightarrow> a \<noteq> b"
| "int_cmp OpGt a b \<longleftrightarrow> a > b"
| "int_cmp OpGte a b \<longleftrightarrow> a \<ge> b"
| "int_cmp OpLt a b \<longleftrightarrow> a < b"
| "int_cmp OpLte a b \<longleftrightarrow> a \<le> b"

definition compare_column :: "pg_eval \<Rightarrow> string \<Rightarrow> filter_op \<Rightarrow> string \<Rightarrow> bind_val \<Rightarrow> typed_row \<Rightarrow> bool" where
  "compare_column pe column op cast b row = (case b of
     BInt v \<Rightarrow>
       if column = ''chain_id'' then int_cmp op (tr_chain_id row) v
       else if column = ''height'' then int_cmp op (tr_height row) v
       else if column = ''idx'' then (case tr_idx row of None \<Rightarrow> False | Some i \<Rightarrow> int_cmp op i v)
       else pe_compare pe column op cast b row
   | _ \<Rightarrow> pe_compare pe column op cast b row)"

text \<open>The order of positions, a missing index last.\<close>

definition row_pos :: "typed_row \<Rightarrow> int \<times> nat \<times> int" where
  "row_pos r = (tr_height r, case tr_idx r of None \<Rightarrow> (1, 0) | Some i \<Rightarrow> (0, i))"

fun cond_holds :: "pg_eval \<Rightarrow> bind_val list \<Rightarrow> typed_row \<Rightarrow> cond \<Rightarrow> bool" where
  "cond_holds pe binds row (FilterCond column op n cast) \<longleftrightarrow> compare_column pe column op cast (binds ! (n - 1)) row"
| "cond_holds pe binds row (KeysetCond descending n) \<longleftrightarrow> (case (binds ! (n - 1), binds ! n) of
     (BInt h, BInt i) \<Rightarrow>
       (if descending
        then tr_height row < h \<or> tr_height row = h \<and> (case tr_idx row of None \<Rightarrow> False | Some j \<Rightarrow> j < i)
        else h < tr_height row \<or> tr_height row = h \<and> (case tr_idx row of None \<Rightarrow> False | Some j \<Rightarrow> i < j))
   | _ \<Rightarrow> False)"

definition table_rows :: "db \<Rightarrow> string \<Rightarrow> typed_row list" where
  "table_rows d t = (case tables d t of None \<Rightarrow> [] | Some u \<Rightarrow> tb_rows u)"

definition left_join :: "db \<Rightarrow> string \<Rightarrow> (typed_row \<times> typed_row option list) list \<Rightarrow> (typed_row \<times> typed_row option list) list" where
  "left_join d aux rows = concat (map (\<lambda>(r, acc).
     let ms = filter (\<lambda>a. tr_chain_id a = tr_chain_id r \<and> tr_tx_id a = tr_tx_id r) (table_rows d aux)
     in if ms = [] then [(r, acc @ [None])] else map (\<lambda>a. (r, acc @ [Some a])) ms) rows)"

definition joined_rows :: "db \<Rightarrow> select_query \<Rightarrow> (typed_row \<times> typed_row option list) list" where
  "joined_rows d q = fold (\<lambda>(_, aux, _). left_join d aux) (sq_joins q) (map (\<lambda>r. (r, [])) (table_rows d (sq_table q)))"

definition select_rows :: "pg_eval \<Rightarrow> select_query \<Rightarrow> bind_val list \<Rightarrow> db \<Rightarrow> (typed_row \<times> typed_row option list) list" where
  "select_rows pe q binds d =
     (let hits = pe_scan pe (filter (\<lambda>(r, _). list_all (cond_holds pe binds r) (sq_conds q)) (joined_rows d q));
          ordered = sort_key (\<lambda>(r, _). row_pos r) hits
      in take (sq_limit q) (if sq_descending q then rev ordered else ordered))"

definition query_result :: "(db, db_error, 'a) m \<Rightarrow> (db, domain_error, 'a) m" where
  "query_result f s = (let (r, s') = f s
     in (map_err (\<lambda>e. query_error_to_domain (case e of Sqlx m \<Rightarrow> QSqlx m | Encode m \<Rightarrow> QSqlx m)) r, s'))"

section \<open>Pages and counts\<close>

definition page_of :: "nat \<Rightarrow> (string \<times> int \<times> int option) list \<Rightarrow> string page outcome" where
  "page_of first rows =
     (let has_next = first < length rows; taken = take first rows
      in if list_ex (\<lambda>(_, _, i). i = None) taken then Panics
         else Returns \<lparr>pg_items = map fst taken,
            pg_end_cursor = (if has_next \<and> taken \<noteq> [] then (case last taken of (_, h, i) \<Rightarrow> Some (format_cursor h (the i))) else None),
            pg_has_next = has_next\<rparr>)"

definition query :: "pg_eval \<Rightarrow> query_tables \<Rightarrow> query_spec \<Rightarrow> (db, domain_error, string page) m" where
  "query pe tbls spec = (case build_query tbls spec of
     Err e \<Rightarrow> throw e
   | Panic \<Rightarrow> (\<lambda>d. (Panic, d))
   | Ok (q, binds) \<Rightarrow>
       bind (query_result (stmt (\<lambda>d. if tables d (sq_table q) = None then Inl (''relation does not exist'')
               else Inr (select_rows pe q binds d, d)))) (\<lambda>rows.
         case page_of (page_size spec) (map (\<lambda>(r, joined). (pe_text pe (sq_row q) r joined, tr_height r, tr_idx r)) rows) of
           Panics \<Rightarrow> (\<lambda>d. (Panic, d))
         | Returns p \<Rightarrow> ret p))"

definition count_query :: "pg_eval \<Rightarrow> query_tables \<Rightarrow> query_spec \<Rightarrow> (db, domain_error, nat) m" where
  "count_query pe tbls spec = (case validate_table tbls spec of
     Err e \<Rightarrow> throw e
   | Panic \<Rightarrow> (\<lambda>d. (Panic, d))
   | Ok table \<Rightarrow> (case build_filters tbls table (sp_filters spec) of
       Err e \<Rightarrow> throw e
     | Panic \<Rightarrow> (\<lambda>d. (Panic, d))
     | Ok (conds, binds) \<Rightarrow>
         query_result (stmt (\<lambda>d. if tables d table = None then Inl (''relation does not exist'')
           else Inr (length (filter (\<lambda>r. list_all (cond_holds pe binds r) conds) (table_rows d table)), d)))))"

definition count_sql :: "string \<Rightarrow> cond list \<Rightarrow> string" where
  "count_sql table conds = ''SELECT count(*) FROM '' @ table @ '' t'' @ where_clause conds"

section \<open>The cursor codec\<close>

lemma split_once_app: "sep \<notin> set a \<Longrightarrow> split_once sep (a @ sep # b) = Some (a, b)"
  by (induction a) auto

lemma colon_not_in_int: "CHR '':'' \<notin> set (show_int i)"
proof -
  have "\<not> is_ascii_digit CHR '':''" by (simp add: is_ascii_digit_def char_code_def)
  then show ?thesis using show_nat_digits by (auto simp: show_int_def)
qed

lemma parse_format_cursor:
  assumes "- (2 ^ 63) \<le> h" "h < 2 ^ 63" "- (2 ^ 63) \<le> i" "i < 2 ^ 63"
  shows "parse_cursor (format_cursor h i) = Ok (h, i)"
  using assms split_once_app[OF colon_not_in_int, of h "show_int i"]
  by (simp add: parse_cursor_def format_cursor_def parse_i64_show_int)

lemma parse_i64_range: "parse_i64 s = Some i \<Longrightarrow> - (2 ^ 63) \<le> i \<and> i < 2 ^ 63"
  by (auto simp: parse_i64_def Let_def split: list.splits if_splits option.splits prod.splits)

text \<open>
  The page cursor is a codec: parsing what \<open>format_cursor\<close> writes for any position of the
  signed 64-bit columns gives that position back; and whatever \<open>parse_cursor\<close> accepts is such
  a position, which printing and parsing again preserves.
\<close>

theorem cursor_round_trip:
  "(\<forall>h i. - (2 ^ 63) \<le> h \<longrightarrow> h < 2 ^ 63 \<longrightarrow> - (2 ^ 63) \<le> i \<longrightarrow> i < 2 ^ 63 \<longrightarrow> parse_cursor (format_cursor h i) = Ok (h, i))
   \<and> (\<forall>c h i. parse_cursor c = Ok (h, i) \<longrightarrow> parse_cursor (format_cursor h i) = Ok (h, i))"
proof -
  have "parse_cursor (format_cursor h i) = Ok (h, i)" if c: "parse_cursor c = Ok (h, i)" for c h i
  proof -
    obtain a b where "parse_i64 a = Some h" "parse_i64 b = Some i"
      using c by (auto simp: parse_cursor_def Let_def split: option.splits)
    then show ?thesis using parse_format_cursor parse_i64_range by blast
  qed
  then show ?thesis using parse_format_cursor by blast
qed

theorem cursor_round_trip_witness:
  "parse_cursor (format_cursor 123 (-45)) = Ok (123, -45) \<and> format_cursor 123 (-45) = ''123:-45''"
proof -
  have "parse_cursor (format_cursor 123 (-45)) = Ok (123, -45)" using cursor_round_trip by simp
  moreover have "format_cursor 123 (-45) = ''123:-45''"
    by code_simp
  ultimately show ?thesis by simp
qed

section \<open>Filters and the text of a query\<close>

lemma bind_value_cast: "bind_value ty raw = Ok (cast, b) \<Longrightarrow> cast = cast_suffix ty"
  by (cases "(ty, raw)" rule: bind_value.cases) (auto split: option.splits outcome.splits)

definition bound_filter :: "query_tables \<Rightarrow> string \<Rightarrow> qfilter \<Rightarrow> nat \<Rightarrow> cond \<Rightarrow> bind_val \<Rightarrow> bool" where
  "bound_filter tbls table f n c b \<longleftrightarrow> (\<exists>ty. col_type tbls table (qf_column f) = Some ty
     \<and> bind_value ty (qf_value f) = Ok (cast_suffix ty, b) \<and> c = FilterCond (qf_column f) (qf_op f) n (cast_suffix ty))"

lemma filters_loop_Ok:
  assumes "filters_loop tbls table fs conds binds = Ok (conds', binds')"
  shows "\<exists>cs bs. conds' = conds @ cs \<and> binds' = binds @ bs \<and> length cs = length fs \<and> length bs = length fs
     \<and> (\<forall>k < length fs. bound_filter tbls table (fs ! k) (length binds + k + 1) (cs ! k) (bs ! k))"
  using assms
proof (induction fs arbitrary: conds binds)
  case (Cons f fs)
  then obtain ty cast b where t: "col_type tbls table (qf_column f) = Some ty" "bind_value ty (qf_value f) = Ok (cast, b)"
    and rest: "filters_loop tbls table fs (conds @ [FilterCond (qf_column f) (qf_op f) (length binds + 1) cast]) (binds @ [b]) = Ok (conds', binds')"
    by (cases "col_type tbls table (qf_column f)"; cases "bind_value (the (col_type tbls table (qf_column f))) (qf_value f)") auto
  from Cons.IH[OF rest] obtain cs bs where ih: "conds' = conds @ FilterCond (qf_column f) (qf_op f) (length binds + 1) cast # cs"
    "binds' = binds @ b # bs" "length cs = length fs" "length bs = length fs"
    "\<forall>k < length fs. bound_filter tbls table (fs ! k) (length binds + 1 + k + 1) (cs ! k) (bs ! k)" by auto
  have first: "bound_filter tbls table f (length binds + 1) (FilterCond (qf_column f) (qf_op f) (length binds + 1) cast) b"
    using t bind_value_cast[OF t(2)] by (auto simp: bound_filter_def)
  have "bound_filter tbls table ((f # fs) ! k) (length binds + k + 1)
      ((FilterCond (qf_column f) (qf_op f) (length binds + 1) cast # cs) ! k) ((b # bs) ! k)" if "k < length (f # fs)" for k
    using that ih(5) first by (cases k) auto
  with ih show ?case
    by (intro exI[of _ "FilterCond (qf_column f) (qf_op f) (length binds + 1) cast # cs"] exI[of _ "b # bs"]) auto
qed simp

lemma build_filters_Ok:
  assumes "build_filters tbls table fs = Ok (conds, binds)"
  shows "length conds = length fs" "length binds = length fs"
    "\<And>k. k < length fs \<Longrightarrow> bound_filter tbls table (fs ! k) (k + 1) (conds ! k) (binds ! k)"
  using filters_loop_Ok[of tbls table fs "[]" "[]" conds binds] assms by (auto simp: build_filters_def)

lemma build_query_Ok:
  assumes "build_query tbls spec = Ok (q, binds)"
  obtains conds fb where "validate_table tbls spec = Ok (sp_table spec)"
    "build_filters tbls (sp_table spec) (sp_filters spec) = Ok (conds, fb)"
    "sq_row q = row_expr (the (tbls (sp_table spec))) (aux_joins tbls spec)" "sq_table q = sp_table spec"
    "sq_joins q = aux_joins tbls spec" "sq_descending q = sp_descending spec" "sq_limit q = page_size spec + 1"
    "case sp_after spec of
       None \<Rightarrow> sq_conds q = conds \<and> binds = fb
     | Some c \<Rightarrow> \<exists>h i. parse_cursor c = Ok (h, i) \<and> sq_conds q = conds @ [KeysetCond (sp_descending spec) (length fb + 1)]
         \<and> binds = fb @ [BInt h, BInt i]"
proof -
  have v: "t = sp_table spec" if "validate_table tbls spec = Ok t" for t
    using that by (auto simp: validate_table_def safe_table_def split: if_splits)
  obtain t where t: "validate_table tbls spec = Ok t"
    using assms by (cases "validate_table tbls spec") (auto simp: build_query_def)
  obtain conds fb where f: "build_filters tbls t (sp_filters spec) = Ok (conds, fb)"
    using assms t by (cases "build_filters tbls t (sp_filters spec)") (auto simp: build_query_def)
  show thesis
  proof (cases "sp_after spec")
    case None
    with assms t f v[OF t] that[of conds fb] show thesis by (auto simp: build_query_def Let_def)
  next
    case (Some c)
    then obtain h i where "parse_cursor c = Ok (h, i)"
      using assms t f by (cases "parse_cursor c") (auto simp: build_query_def Let_def)
    with Some assms t f v[OF t] that[of conds fb] show thesis by (auto simp: build_query_def Let_def)
  qed
qed

text \<open>Two queries of the same shape: only filter values and the position to resume at differ.\<close>

definition same_shape :: "query_spec \<Rightarrow> query_spec \<Rightarrow> bool" where
  "same_shape a b \<longleftrightarrow> sp_table a = sp_table b \<and> map (\<lambda>f. (qf_column f, qf_op f)) (sp_filters a) = map (\<lambda>f. (qf_column f, qf_op f)) (sp_filters b)
     \<and> (sp_after a = None \<longleftrightarrow> sp_after b = None) \<and> sp_include_tx a = sp_include_tx b \<and> sp_include_receipt a = sp_include_receipt b
     \<and> sp_descending a = sp_descending b \<and> page_size a = page_size b"

lemma build_filters_shape:
  assumes "build_filters tbls t fs = Ok (c, b)" and "build_filters tbls t fs' = Ok (c', b')"
    and "map (\<lambda>f. (qf_column f, qf_op f)) fs = map (\<lambda>f. (qf_column f, qf_op f)) fs'"
  shows "c = c'" and "length b = length b'"
proof -
  have len: "length fs = length fs'" using arg_cong[OF assms(3), of length] by simp
  have "qf_column (fs ! k) = qf_column (fs' ! k) \<and> qf_op (fs ! k) = qf_op (fs' ! k)" if "k < length fs" for k
    using arg_cong[OF assms(3), of "\<lambda>l. l ! k"] that len by simp
  then have "c ! k = c' ! k" if "k < length fs" for k
    using build_filters_Ok(3)[OF assms(1), of k] build_filters_Ok(3)[OF assms(2), of k] that len by (auto simp: bound_filter_def)
  then show "c = c'" using build_filters_Ok(1)[OF assms(1)] build_filters_Ok(1)[OF assms(2)] len by (auto intro: nth_equalityI)
  show "length b = length b'" using build_filters_Ok(2)[OF assms(1)] build_filters_Ok(2)[OF assms(2)] len by simp
qed

lemma col_type_known:
  assumes "col_type tbls table col = Some ty"
  shows "meta_col_type col \<noteq> None \<or> col \<in> fst ` set (the (tbls table))"
proof (cases "meta_col_type col")
  case None
  then obtain cols x where c: "tbls table = Some cols" "find (\<lambda>(n, _). n = col) cols = Some x"
    using assms by (auto simp: col_type_def split: option.splits)
  then have "x \<in> set cols" "fst x = col" by (auto simp: find_Some_iff case_prod_beta)
  with c(1) show ?thesis by force
qed simp

fun cond_columns :: "cond \<Rightarrow> string set" where
  "cond_columns (FilterCond c _ _ _) = {c}"
| "cond_columns (KeysetCond _ _) = {''height'', ''idx''}"

lemma query_shape:
  assumes "build_query tbls a = Ok (q, binds)" and "build_query tbls b = Ok (q', binds')" and "same_shape a b"
  shows "render_select q = render_select q' \<and> length binds = length binds'"
proof -
  obtain c fb where a: "validate_table tbls a = Ok (sp_table a)" "build_filters tbls (sp_table a) (sp_filters a) = Ok (c, fb)"
    "sq_row q = row_expr (the (tbls (sp_table a))) (aux_joins tbls a)" "sq_table q = sp_table a"
    "sq_joins q = aux_joins tbls a" "sq_descending q = sp_descending a" "sq_limit q = page_size a + 1"
    and an: "case sp_after a of None \<Rightarrow> sq_conds q = c \<and> binds = fb
       | Some x \<Rightarrow> \<exists>h i. parse_cursor x = Ok (h, i) \<and> sq_conds q = c @ [KeysetCond (sp_descending a) (length fb + 1)]
         \<and> binds = fb @ [BInt h, BInt i]"
    by (rule build_query_Ok[OF assms(1)])
  obtain c' fb' where bv: "validate_table tbls b = Ok (sp_table b)" and b: "build_filters tbls (sp_table b) (sp_filters b) = Ok (c', fb')"
    "sq_row q' = row_expr (the (tbls (sp_table b))) (aux_joins tbls b)" "sq_table q' = sp_table b"
    "sq_joins q' = aux_joins tbls b" "sq_descending q' = sp_descending b" "sq_limit q' = page_size b + 1"
    and bn: "case sp_after b of None \<Rightarrow> sq_conds q' = c' \<and> binds' = fb'
       | Some x \<Rightarrow> \<exists>h i. parse_cursor x = Ok (h, i) \<and> sq_conds q' = c' @ [KeysetCond (sp_descending b) (length fb' + 1)]
         \<and> binds' = fb' @ [BInt h, BInt i]"
    by (rule build_query_Ok[OF assms(2)])
  have eq: "sp_table a = sp_table b" "sp_descending a = sp_descending b" "page_size a = page_size b" "aux_joins tbls a = aux_joins tbls b"
    using assms(3) by (simp_all add: same_shape_def aux_joins_def)
  have cc: "c = c'" "length fb = length fb'"
    using build_filters_shape[OF a(2)[unfolded eq(1)] b(1)] assms(3) by (simp_all add: same_shape_def)
  have conds: "sq_conds q = sq_conds q' \<and> length binds = length binds'"
  proof (cases "sp_after a")
    case None
    with assms(3) have "sp_after b = None" by (simp add: same_shape_def)
    with None an bn cc show ?thesis by simp
  next
    case (Some x)
    with assms(3) obtain y where "sp_after b = Some y" by (auto simp: same_shape_def)
    with Some an bn cc eq(2) show ?thesis by auto
  qed
  then show ?thesis using a b eq by (simp add: render_select_def)
qed

lemma query_columns_known:
  assumes "build_query tbls a = Ok (q, binds)" and x: "x \<in> set (sq_conds q)" "col \<in> cond_columns x"
  shows "meta_col_type col \<noteq> None \<or> col \<in> fst ` set (the (tbls (sq_table q)))"
proof -
  obtain c fb where a: "build_filters tbls (sp_table a) (sp_filters a) = Ok (c, fb)" "sq_table q = sp_table a"
    and an: "case sp_after a of None \<Rightarrow> sq_conds q = c \<and> binds = fb
       | Some x \<Rightarrow> \<exists>h i. parse_cursor x = Ok (h, i) \<and> sq_conds q = c @ [KeysetCond (sp_descending a) (length fb + 1)]
         \<and> binds = fb @ [BInt h, BInt i]"
    by (rule build_query_Ok[OF assms(1)])
  show ?thesis
  proof (cases "x \<in> set c")
    case True
    then obtain k where k: "k < length (sp_filters a)" "x = c ! k"
      using build_filters_Ok(1)[OF a(1)] by (metis in_set_conv_nth)
    obtain ty where "col_type tbls (sp_table a) (qf_column (sp_filters a ! k)) = Some ty" "col = qf_column (sp_filters a ! k)"
      using build_filters_Ok(3)[OF a(1) k(1)] x(2) k(2) by (auto simp: bound_filter_def)
    then show ?thesis using a(2) col_type_known by auto
  next
    case False
    then have "x = KeysetCond (sp_descending a) (length fb + 1)" using x(1) an by (cases "sp_after a") auto
    then show ?thesis using x(2) by (auto simp: meta_col_type_def)
  qed
qed

text \<open>
  C26. User input never reaches the text of a query. Two accepted queries of the same shape,
  whatever their filter values and cursors, have the same SQL text and equally many bind
  values. The text's table is a valid identifier the repository knows, and the columns of
  its conditions are meta columns or decoded columns of that table.
\<close>

theorem query_text_ignores_values:
  assumes "build_query tbls a = Ok (q, binds)" and "build_query tbls b = Ok (q', binds')" and "same_shape a b"
  shows "render_select q = render_select q' \<and> length binds = length binds'
     \<and> is_valid_ident (sq_table q) \<and> tbls (sq_table q) \<noteq> None
     \<and> (\<forall>c \<in> set (sq_conds q). \<forall>col \<in> cond_columns c. meta_col_type col \<noteq> None \<or> col \<in> fst ` set (the (tbls (sq_table q))))"
proof -
  obtain c fb where "validate_table tbls a = Ok (sp_table a)" "sq_table q = sp_table a" by (rule build_query_Ok[OF assms(1)])
  then have "is_valid_ident (sq_table q)" "tbls (sq_table q) \<noteq> None"
    by (auto simp: validate_table_def safe_table_def split: if_splits)
  with query_shape[OF assms] query_columns_known[OF assms(1)] show ?thesis by blast
qed

section \<open>Joins\<close>

definition tx_unique :: "db \<Rightarrow> string \<Rightarrow> bool" where
  "tx_unique d aux \<longleftrightarrow> distinct (map (\<lambda>r. (tr_chain_id r, tr_tx_id r)) (table_rows d aux))"

lemma filter_at_most_one:
  assumes "distinct (map f xs)"
  shows "filter (\<lambda>a. f a = k) xs = [] \<or> (\<exists>a. filter (\<lambda>a. f a = k) xs = [a])"
  using assms
proof (induction xs)
  case (Cons x xs)
  have "filter (\<lambda>a. f a = k) xs = []" if k: "f x = k"
  proof -
    have "f a \<noteq> k" if "a \<in> set xs" for a
      using Cons.prems k that by (metis distinct.simps(2) imageI image_set list.map(2))
    then show ?thesis by (simp add: filter_empty_conv)
  qed
  with Cons show ?case by auto
qed simp

lemma left_join_fst: "tx_unique d aux \<Longrightarrow> map fst (left_join d aux rows) = map fst rows"
proof -
  assume u: "tx_unique d aux"
  have one: "map fst (let ms = filter (\<lambda>a. tr_chain_id a = tr_chain_id r \<and> tr_tx_id a = tr_tx_id r) (table_rows d aux)
     in if ms = [] then [(r, acc @ [None])] else map (\<lambda>a. (r, acc @ [Some a])) ms) = [r]" for r acc
    using filter_at_most_one[OF u[unfolded tx_unique_def], of "(tr_chain_id r, tr_tx_id r)"] by auto
  show ?thesis unfolding left_join_def
    by (induction rows) (auto simp: one simp del: map_concat)
qed

lemma joined_rows_fst:
  assumes "\<forall>(_, aux, _) \<in> set (sq_joins q). tx_unique d aux"
  shows "map fst (joined_rows d q) = table_rows d (sq_table q)"
proof -
  have "map fst (fold (\<lambda>(_, aux, _). left_join d aux) js rows) = map fst rows"
    if "\<forall>(_, aux, _) \<in> set js. tx_unique d aux" for js :: "(string \<times> string \<times> (string \<times> column_type) list) list" and rows
    using that by (induction js arbitrary: rows) (auto simp: left_join_fst)
  with assms show ?thesis by (simp add: joined_rows_def comp_def)
qed

lemma joined_rows_aux:
  assumes "sq_joins q = aux_joins tbls spec" and "tx_unique d ''transactions''" and "tx_unique d ''receipts''"
  shows "map fst (joined_rows d q) = table_rows d (sq_table q)"
proof (rule joined_rows_fst)
  have "\<forall>(_, aux, _) \<in> set (aux_joins tbls spec). aux = ''transactions'' \<or> aux = ''receipts''"
    by (auto simp: aux_joins_def split: option.splits if_splits)
  then show "\<forall>(_, aux, _) \<in> set (sq_joins q). tx_unique d aux" using assms by fastforce
qed

section \<open>Pages\<close>

lemma sort_key_perm:
  assumes "mset xs = mset ys" and "distinct (map f xs)"
  shows "sort_key f xs = sort_key f ys"
proof (rule properties_for_sort_key)
  show "mset (sort_key f ys) = mset xs" using assms(1) by simp
  have d: "distinct (map f ys)" using assms mset_eq_imp_distinct_iff[of "map f xs" "map f ys"] by simp
  fix k assume "k \<in> set (sort_key f ys)"
  then have k: "k \<in> set ys" "k \<in> set xs" using assms(1) by (simp, metis mset_eq_setD set_sort)
  have "filter (\<lambda>x. f k = f x) zs = [k]" if "distinct (map f zs)" "k \<in> set zs" for zs
    using that by (induction zs) (auto simp: filter_empty_conv, metis imageI)
  from this[OF d k(1)] this[OF assms(2) k(2)]
  show "filter (\<lambda>x. f k = f x) (sort_key f ys) = filter (\<lambda>x. f k = f x) xs" by (simp add: filter_sort)
qed simp

lemma filter_after_nth:
  assumes "sorted_wrt P L" and "\<And>x y. P x y \<Longrightarrow> \<not> P y x" and "j < length L"
  shows "filter (P (L ! j)) L = drop (Suc j) L"
proof -
  have irr: "\<not> P x x" for x using assms(2) by blast
  have split: "L = take j L @ L ! j # drop (Suc j) L" using assms(3) by (rule id_take_nth_drop)
  have s: "sorted_wrt P (take j L @ L ! j # drop (Suc j) L)" using assms(1) split by simp
  then have "\<forall>x \<in> set (take j L). \<not> P (L ! j) x" "\<forall>x \<in> set (drop (Suc j) L). P (L ! j) x"
    using assms(2) unfolding sorted_wrt_append by auto
  then have "filter (P (L ! j)) (take j L @ L ! j # drop (Suc j) L) = drop (Suc j) L"
    using irr by (simp add: filter_empty_conv filter_id_conv)
  then show ?thesis using split by simp
qed

definition comes_before :: "bool \<Rightarrow> typed_row \<Rightarrow> typed_row \<Rightarrow> bool" where
  "comes_before descending a b \<longleftrightarrow> (if descending then row_pos b < row_pos a else row_pos a < row_pos b)"

lemma comes_before_asym: "comes_before desc a b \<Longrightarrow> \<not> comes_before desc b a"
  by (auto simp: comes_before_def split: if_splits)

lemma sorted_distinct_strict:
  "sorted (map f xs) \<Longrightarrow> distinct (map f xs) \<Longrightarrow> sorted_wrt (\<lambda>a b. f a < f b) xs" for f :: "'a \<Rightarrow> 'b :: linorder"
  by (induction xs) (auto simp: less_le)

text \<open>The rows of a query in their order, with no page in view.\<close>

definition ordered_hits :: "pg_eval \<Rightarrow> select_query \<Rightarrow> bind_val list \<Rightarrow> db \<Rightarrow> (typed_row \<times> typed_row option list) list" where
  "ordered_hits pe q binds d =
     (let ordered = sort_key (\<lambda>(r, _). row_pos r) (filter (\<lambda>(r, _). list_all (cond_holds pe binds r) (sq_conds q)) (joined_rows d q))
      in if sq_descending q then rev ordered else ordered)"

definition positions_ok :: "(typed_row \<times> typed_row option list) list \<Rightarrow> bool" where
  "positions_ok hits \<longleftrightarrow> distinct (map (\<lambda>(r, _). row_pos r) hits)
     \<and> (\<forall>(r, _) \<in> set hits. tr_idx r \<noteq> None)"

lemma ordered_hits_sorted:
  assumes "positions_ok (filter (\<lambda>(r, _). list_all (cond_holds pe binds r) (sq_conds q)) (joined_rows d q))"
  shows "sorted_wrt (\<lambda>a b. comes_before (sq_descending q) (fst a) (fst b)) (ordered_hits pe q binds d)"
proof -
  let ?hits = "filter (\<lambda>(r, _). list_all (cond_holds pe binds r) (sq_conds q)) (joined_rows d q)"
  let ?f = "\<lambda>(r, _). row_pos r"
  have "distinct (map ?f (sort_key ?f ?hits))"
    using assms mset_eq_imp_distinct_iff[of "map ?f (sort_key ?f ?hits)" "map ?f ?hits"] by (simp add: positions_ok_def)
  then have "sorted_wrt (\<lambda>a b. ?f a < ?f b) (sort_key ?f ?hits)" by (intro sorted_distinct_strict sorted_sort_key)
  then have "sorted_wrt (\<lambda>a b. row_pos (fst a) < row_pos (fst b)) (sort_key ?f ?hits)" by (simp add: case_prod_beta)
  then show ?thesis by (auto simp: ordered_hits_def comes_before_def Let_def sorted_wrt_rev)
qed

text \<open>Following the cursors: \<open>read_pages n\<close> reads at most \<open>n\<close> pages and gives all rows if that
  was enough.\<close>

fun read_pages :: "nat \<Rightarrow> pg_eval \<Rightarrow> query_tables \<Rightarrow> query_spec \<Rightarrow> db \<Rightarrow> string list option" where
  "read_pages 0 pe tbls spec d = None"
| "read_pages (Suc n) pe tbls spec d = (case query pe tbls spec d of
     (Ok p, d') \<Rightarrow> (case pg_end_cursor p of
         None \<Rightarrow> Some (pg_items p)
       | Some c \<Rightarrow> map_option ((@) (pg_items p)) (read_pages n pe tbls (spec\<lparr>sp_after := Some c\<rparr>) d'))
   | _ \<Rightarrow> None)"

text \<open>The reference: all projected rows that pass the filters, in the order of the query.\<close>

definition listing :: "pg_eval \<Rightarrow> query_tables \<Rightarrow> query_spec \<Rightarrow> db \<Rightarrow> string list" where
  "listing pe tbls spec d = (case build_query tbls (spec\<lparr>sp_after := None\<rparr>) of
     Ok (q, binds) \<Rightarrow> map (\<lambda>(r, joined). pe_text pe (sq_row q) r joined) (ordered_hits pe q binds d)
   | _ \<Rightarrow> [])"

lemma page_of_drop:
  assumes "0 < n" and "\<forall>(_, _, i) \<in> set xs. i \<noteq> None"
  shows "page_of n (take (n + 1) xs) = Returns \<lparr>pg_items = map fst (take n xs),
     pg_end_cursor = (if n < length xs then (case xs ! (n - 1) of (_, h, i) \<Rightarrow> Some (format_cursor h (the i))) else None),
     pg_has_next = (n < length xs)\<rparr>"
proof -
  have t: "take n (take (n + 1) xs) = take n xs" by simp
  have "\<not> list_ex (\<lambda>(_, _, i). i = None) (take n xs)"
    using assms(2) by (fastforce simp: list_ex_iff dest: in_set_takeD)
  moreover have "last (take n xs) = xs ! (n - 1)" "take n xs \<noteq> []" if "n < length xs"
  proof -
    show ne: "take n xs \<noteq> []" using that assms(1) by auto
    show "last (take n xs) = xs ! (n - 1)" using that assms(1) last_conv_nth[OF ne] by simp
  qed
  moreover have "n < length (take (n + 1) xs) \<longleftrightarrow> n < length xs" by auto
  ultimately show ?thesis unfolding page_of_def Let_def t by auto
qed

lemma build_query_with_cursor:
  assumes "build_query tbls spec = Ok (q, binds)" and "sp_after spec = None" and "parse_cursor c = Ok (h, i)"
  shows "build_query tbls (spec\<lparr>sp_after := Some c\<rparr>) =
     Ok (q\<lparr>sq_conds := sq_conds q @ [KeysetCond (sp_descending spec) (length binds + 1)]\<rparr>, binds @ [BInt h, BInt i])"
proof -
  obtain t where t: "validate_table tbls spec = Ok t"
    using assms(1) by (cases "validate_table tbls spec") (auto simp: build_query_def)
  obtain conds fb where f: "build_filters tbls t (sp_filters spec) = Ok (conds, fb)"
    using assms(1) t by (cases "build_filters tbls t (sp_filters spec)") (auto simp: build_query_def)
  have "validate_table tbls (spec\<lparr>sp_after := Some c\<rparr>) = Ok t" "aux_joins tbls (spec\<lparr>sp_after := Some c\<rparr>) = aux_joins tbls spec"
    "page_size (spec\<lparr>sp_after := Some c\<rparr>) = page_size spec"
    using t by (simp_all add: validate_table_def aux_joins_def page_size_def)
  with assms t f show ?thesis by (auto simp: build_query_def Let_def)
qed

lemma filter_cond_binds_app:
  assumes "build_filters tbls t fs = Ok (conds, binds)"
  shows "list_all (cond_holds pe (binds @ ext) r) conds = list_all (cond_holds pe binds r) conds"
proof -
  have "cond_holds pe (binds @ ext) r (conds ! k) = cond_holds pe binds r (conds ! k)" if k: "k < length conds" for k
  proof -
    have "k < length fs" using k build_filters_Ok(1)[OF assms] by simp
    from build_filters_Ok(3)[OF assms this] obtain col op cast where "conds ! k = FilterCond col op (k + 1) cast"
      by (auto simp: bound_filter_def)
    moreover have "k < length binds" using k build_filters_Ok(1,2)[OF assms] by simp
    ultimately show ?thesis by (simp add: nth_append)
  qed
  then show ?thesis by (simp add: list_all_length)
qed

lemma keyset_holds:
  assumes "tr_idx l = Some i" and "tr_idx r \<noteq> None" and "length binds = n"
  shows "cond_holds pe (binds @ [BInt (tr_height l), BInt i]) r (KeysetCond desc (n + 1)) = comes_before desc l r"
proof -
  obtain j where "tr_idx r = Some j" using assms(2) by blast
  then show ?thesis using assms(1,3) by (auto simp: nth_append comes_before_def row_pos_def less_prod_def)
qed

definition row_cursor :: "typed_row \<Rightarrow> string" where
  "row_cursor r = format_cursor (tr_height r) (the (tr_idx r))"

definition in_i64 :: "int \<Rightarrow> bool" where
  "in_i64 v \<longleftrightarrow> - (2 ^ 63) \<le> v \<and> v < 2 ^ 63"

text \<open>The facts that a page rests on: an accepted query on an existing table, no fault, a scan
  that only reorders, and rows with distinct positions of the columns' range.\<close>

definition readable :: "pg_eval \<Rightarrow> query_tables \<Rightarrow> query_spec \<Rightarrow> db \<Rightarrow> select_query \<Rightarrow> bind_val list \<Rightarrow> bool" where
  "readable pe tbls spec d q binds \<longleftrightarrow> build_query tbls spec = Ok (q, binds) \<and> sp_after spec = None \<and> faults d = []
     \<and> tables d (sp_table spec) \<noteq> None \<and> (\<forall>xs. mset (pe_scan pe xs) = mset xs)
     \<and> positions_ok (filter (\<lambda>(r, _). list_all (cond_holds pe binds r) (sq_conds q)) (joined_rows d q))
     \<and> (\<forall>(r, _) \<in> set (joined_rows d q). in_i64 (tr_height r) \<and> in_i64 (the (tr_idx r)))"

lemma select_first_page:
  assumes "readable pe tbls spec d q binds"
  shows "select_rows pe q binds d = take (sq_limit q) (ordered_hits pe q binds d)"
proof -
  let ?hits = "filter (\<lambda>(r, _). list_all (cond_holds pe binds r) (sq_conds q)) (joined_rows d q)"
  have "sort_key (\<lambda>(r, _). row_pos r) (pe_scan pe ?hits) = sort_key (\<lambda>(r, _). row_pos r) ?hits"
    using assms by (intro sort_key_perm[symmetric]) (auto simp: readable_def positions_ok_def)
  then show ?thesis by (simp add: select_rows_def ordered_hits_def Let_def)
qed

lemma select_later_page:
  assumes rd: "readable pe tbls spec d q binds" and k: "k < length (ordered_hits pe q binds d)"
    and l: "l = fst (ordered_hits pe q binds d ! k)"
  shows "select_rows pe (q\<lparr>sq_conds := sq_conds q @ [KeysetCond (sp_descending spec) (length binds + 1)]\<rparr>)
       (binds @ [BInt (tr_height l), BInt (the (tr_idx l))]) d = take (sq_limit q) (drop (Suc k) (ordered_hits pe q binds d))"
proof -
  let ?L = "ordered_hits pe q binds d" and ?desc = "sq_descending q"
  let ?hits = "filter (\<lambda>(r, _). list_all (cond_holds pe binds r) (sq_conds q)) (joined_rows d q)"
  let ?K = "\<lambda>x. comes_before ?desc l (fst x)" and ?f = "\<lambda>(r, _). row_pos r"
  let ?q = "q\<lparr>sq_conds := sq_conds q @ [KeysetCond (sp_descending spec) (length binds + 1)]\<rparr>"
  let ?b = "binds @ [BInt (tr_height l), BInt (the (tr_idx l))]"
  have pos: "positions_ok ?hits" and bq: "build_query tbls spec = Ok (q, binds)" "sp_after spec = None"
    and scan: "\<And>xs. mset (pe_scan pe xs) = mset xs" using rd by (auto simp: readable_def)
  obtain conds fb where f: "build_filters tbls (sp_table spec) (sp_filters spec) = Ok (conds, fb)" "sq_conds q = conds" "binds = fb"
    "sq_descending q = sp_descending spec"
    by (rule build_query_Ok[OF bq(1)]) (simp add: bq(2))
  have set_L: "set ?L = set ?hits" by (simp add: ordered_hits_def Let_def)
  have idx: "tr_idx (fst x) \<noteq> None" if "x \<in> set ?hits" for x using pos that by (cases x) (fastforce simp: positions_ok_def)
  obtain i where i: "tr_idx l = Some i" using idx[of "?L ! k"] nth_mem[OF k] set_L l by auto
  have "joined_rows d ?q = joined_rows d q" by (simp add: joined_rows_def)
  then have "filter (\<lambda>(r, _). list_all (cond_holds pe ?b r) (sq_conds ?q)) (joined_rows d ?q) =
      filter (\<lambda>x. cond_holds pe ?b (fst x) (KeysetCond (sp_descending spec) (length binds + 1))) ?hits"
    using filter_cond_binds_app[OF f(1), of pe "[BInt (tr_height l), BInt (the (tr_idx l))]"] f(2,3)
    by (auto simp: conj_commute simp del: cond_holds.simps intro!: filter_cong)
  also have "\<dots> = filter ?K ?hits"
    using keyset_holds[OF i _ refl] idx i f(4) by (intro filter_cong) (auto simp del: cond_holds.simps)
  finally have hits: "filter (\<lambda>(r, _). list_all (cond_holds pe ?b r) (sq_conds ?q)) (joined_rows d ?q) = filter ?K ?hits" .
  have "distinct (map ?f ?hits)" using pos by (simp add: positions_ok_def)
  then have dist: "distinct (map ?f (filter ?K ?hits))" by (rule distinct_map_filter)
  have "sort_key ?f (pe_scan pe (filter ?K ?hits)) = sort_key ?f (filter ?K ?hits)"
    by (rule sort_key_perm[symmetric, OF scan[symmetric] dist])
  also have "\<dots> = filter ?K (sort_key ?f ?hits)" by (simp add: filter_sort)
  finally have "(if ?desc then rev (sort_key ?f (pe_scan pe (filter ?K ?hits))) else sort_key ?f (pe_scan pe (filter ?K ?hits))) = filter ?K ?L"
    unfolding ordered_hits_def Let_def by (simp only: rev_filter if_distrib[of "filter ?K"])
  moreover have "filter ?K ?L = drop (Suc k) ?L"
    using filter_after_nth[OF ordered_hits_sorted[OF pos] _ k] comes_before_asym unfolding l by simp
  moreover have "sq_limit ?q = sq_limit q" "sq_descending ?q = sq_descending q" by simp_all
  ultimately show ?thesis unfolding select_rows_def Let_def hits by (simp only:)
qed

text \<open>The query for what follows the first \<open>k\<close> rows.\<close>

definition resume :: "pg_eval \<Rightarrow> query_spec \<Rightarrow> db \<Rightarrow> select_query \<Rightarrow> bind_val list \<Rightarrow> nat \<Rightarrow> query_spec" where
  "resume pe spec d q binds k = (if k = 0 then spec
     else spec\<lparr>sp_after := Some (row_cursor (fst (ordered_hits pe q binds d ! (k - 1))))\<rparr>)"

lemma query_resumes:
  assumes rd: "readable pe tbls spec d q binds" and k: "k \<le> length (ordered_hits pe q binds d)"
  defines "L \<equiv> ordered_hits pe q binds d" and "n \<equiv> page_size spec"
  shows "query pe tbls (resume pe spec d q binds k) d = (Ok \<lparr>
     pg_items = map (\<lambda>(r, j). pe_text pe (sq_row q) r j) (take n (drop k L)),
     pg_end_cursor = (if k + n < length L then Some (row_cursor (fst (L ! (k + n - 1)))) else None),
     pg_has_next = (k + n < length L)\<rparr>, d)"
proof -
  let ?cell = "\<lambda>(r, joined). (pe_text pe (sq_row q) r joined, tr_height r, tr_idx r)"
  have bq: "build_query tbls spec = Ok (q, binds)" "sp_after spec = None" "faults d = []" "tables d (sp_table spec) \<noteq> None"
    using rd by (auto simp: readable_def)
  have lim: "sq_limit q = n + 1" "sq_table q = sp_table spec"
    by (rule build_query_Ok[OF bq(1)], simp add: n_def)+
  have n: "0 < n" by (simp add: n_def page_size_def)
  have set_L: "set L \<subseteq> set (joined_rows d q)" by (auto simp: L_def ordered_hits_def Let_def)
  have idx: "\<forall>x \<in> set L. tr_idx (fst x) \<noteq> None"
    using rd by (auto simp: L_def ordered_hits_def Let_def readable_def positions_ok_def)
  obtain q' b' where q': "build_query tbls (resume pe spec d q binds k) = Ok (q', b')"
    "select_rows pe q' b' d = take (n + 1) (drop k L)" "sq_row q' = sq_row q" "sq_table q' = sp_table spec"
  proof (cases k)
    case 0
    then show thesis using that[of q binds] bq(1) select_first_page[OF rd] lim by (simp add: resume_def L_def)
  next
    case (Suc m)
    let ?l = "fst (L ! m)"
    have m: "m < length L" using k Suc by (simp add: L_def)
    have "in_i64 (tr_height ?l) \<and> in_i64 (the (tr_idx ?l))"
      using rd set_L nth_mem[OF m] by (cases "L ! m") (fastforce simp: readable_def)
    then have pc: "parse_cursor (row_cursor ?l) = Ok (tr_height ?l, the (tr_idx ?l))"
      by (auto simp: row_cursor_def in_i64_def intro!: parse_format_cursor)
    show thesis
      by (rule that[of "q\<lparr>sq_conds := sq_conds q @ [KeysetCond (sp_descending spec) (length binds + 1)]\<rparr>"
            "binds @ [BInt (tr_height ?l), BInt (the (tr_idx ?l))]"])
        (use build_query_with_cursor[OF bq(1,2) pc] select_later_page[OF rd _ refl, of m] m lim Suc
          in \<open>simp_all add: resume_def L_def\<close>)
  qed
  have ps: "page_size (resume pe spec d q binds k) = n" by (simp add: resume_def n_def page_size_def)
  have pg: "page_of n (take (n + 1) (map ?cell (drop k L))) = Returns \<lparr>
     pg_items = map (\<lambda>(r, j). pe_text pe (sq_row q) r j) (take n (drop k L)),
     pg_end_cursor = (if k + n < length L then Some (row_cursor (fst (L ! (k + n - 1)))) else None),
     pg_has_next = (k + n < length L)\<rparr>"
  proof -
    have "\<forall>(_, _, i) \<in> set (map ?cell (drop k L)). i \<noteq> None" using idx by (fastforce dest: in_set_dropD)
    moreover have "map ?cell (drop k L) ! (n - 1) = ?cell (L ! (k + n - 1))" if "k + n < length L" using that n by simp
    moreover have "n < length (map ?cell (drop k L)) \<longleftrightarrow> k + n < length L" by auto
    ultimately show ?thesis
      using page_of_drop[OF n, of "map ?cell (drop k L)"]
      by (auto simp: take_map comp_def case_prod_beta row_cursor_def)
  qed
  have same: "d\<lparr>faults := []\<rparr> = d" using bq(3) by (cases d) simp
  obtain u where "tables d (sp_table spec) = Some u" using bq(4) by blast
  then show ?thesis
    using q' bq(3) pg
    by (simp add: query_def query_result_def stmt_def Let_def same ps bind_def ret_def take_map split del: if_split)
qed

lemma read_pages_resume:
  assumes rd: "readable pe tbls spec d q binds" and "k \<le> length (ordered_hits pe q binds d)"
    and "length (ordered_hits pe q binds d) - k < fuel"
  shows "read_pages fuel pe tbls (resume pe spec d q binds k) d =
     Some (map (\<lambda>(r, j). pe_text pe (sq_row q) r j) (drop k (ordered_hits pe q binds d)))"
  using assms(2,3)
proof (induction fuel arbitrary: k)
  case (Suc fuel)
  let ?L = "ordered_hits pe q binds d" and ?n = "page_size spec" and ?t = "\<lambda>(r, j). pe_text pe (sq_row q) r j"
  note pg = query_resumes[OF rd Suc.prems(1)]
  have n: "0 < ?n" by (simp add: page_size_def)
  show ?case
  proof (cases "k + ?n < length ?L")
    case True
    have "resume pe spec d q binds (k + ?n) = (resume pe spec d q binds k)\<lparr>sp_after := Some (row_cursor (fst (?L ! (k + ?n - 1))))\<rparr>"
      using n by (simp add: resume_def)
    moreover have "read_pages fuel pe tbls (resume pe spec d q binds (k + ?n)) d = Some (map ?t (drop (k + ?n) ?L))"
      using Suc.prems True n by (intro Suc.IH) auto
    moreover have "map ?t (take ?n (drop k ?L)) @ map ?t (drop (k + ?n) ?L) = map ?t (drop k ?L)"
      using append_take_drop_id[of ?n "drop k ?L"] by (simp add: add.commute flip: map_append)
    ultimately show ?thesis using pg True by simp
  next
    case False
    then show ?thesis using pg by simp
  qed
qed simp

text \<open>An accepted query that fixes the chain reads rows with distinct positions.\<close>

lemma keyed_readable:
  assumes "build_query tbls spec = Ok (q, binds)" and "sp_after spec = None" and "faults d = []"
    and "tables d (sp_table spec) \<noteq> None" and "\<forall>xs. mset (pe_scan pe xs) = mset xs"
    and "distinct (map (\<lambda>r. (tr_chain_id r, tr_height r, tr_idx r)) (table_rows d (sp_table spec)))"
    and "\<forall>r \<in> set (table_rows d (sp_table spec)). tr_idx r \<noteq> None \<and> in_i64 (tr_height r) \<and> in_i64 (the (tr_idx r))"
    and "tx_unique d ''transactions''" and "tx_unique d ''receipts''"
    and "\<lparr>qf_column = ''chain_id'', qf_op = OpEq, qf_value = v\<rparr> \<in> set (sp_filters spec)"
  shows "readable pe tbls spec d q binds"
proof -
  let ?P = "\<lambda>r. list_all (cond_holds pe binds r) (sq_conds q)"
  obtain conds fb where f: "build_filters tbls (sp_table spec) (sp_filters spec) = Ok (conds, fb)" "sq_conds q = conds" "binds = fb"
    "sq_table q = sp_table spec" "sq_joins q = aux_joins tbls spec"
    by (rule build_query_Ok[OF assms(1)]) (simp add: assms(2))
  have rows: "map fst (joined_rows d q) = table_rows d (sp_table spec)"
    using joined_rows_aux[of q tbls spec d] assms(8,9) f(4,5) by simp
  obtain k where k: "k < length (sp_filters spec)" "sp_filters spec ! k = \<lparr>qf_column = ''chain_id'', qf_op = OpEq, qf_value = v\<rparr>"
    using assms(10) by (auto simp: in_set_conv_nth)
  obtain c where c: "conds ! k = FilterCond ''chain_id'' OpEq (k + 1) (cast_suffix CInt64)" "BInt c = binds ! k"
    using build_filters_Ok(3)[OF f(1) k(1)] k(2) f(3)
    by (auto simp: bound_filter_def col_type_def meta_col_type_def split: option.splits)
  have chain: "tr_chain_id r = c" if "?P r" for r
  proof -
    have "cond_holds pe binds r (conds ! k)"
      using that f(2) k(1) build_filters_Ok(1)[OF f(1)] by (simp add: list_all_length)
    then show ?thesis by (simp add: c(1) c(2)[symmetric] compare_column_def)
  qed
  have hits: "map fst (filter (\<lambda>(r, _). ?P r) (joined_rows d q)) = filter ?P (table_rows d (sp_table spec))"
    by (simp add: filter_map rows[symmetric] comp_def case_prod_unfold)
  have "distinct (map row_pos (filter ?P (table_rows d (sp_table spec))))"
  proof -
    have inj: "inj_on row_pos (set (filter ?P (table_rows d (sp_table spec))))"
    proof (rule inj_onI)
      fix r s assume rs: "r \<in> set (filter ?P (table_rows d (sp_table spec)))" "s \<in> set (filter ?P (table_rows d (sp_table spec)))"
        and eq: "row_pos r = row_pos s"
      then have "tr_chain_id r = tr_chain_id s" "tr_height r = tr_height s" "tr_idx r = tr_idx s"
        using chain assms(7) by (auto simp: row_pos_def split: option.splits)
      then show "r = s" using assms(6) rs by (auto simp: distinct_map inj_on_def)
    qed
    have "distinct (table_rows d (sp_table spec))" using assms(6) by (simp add: distinct_map)
    then show ?thesis using inj by (simp add: distinct_map)
  qed
  then have "distinct (map row_pos (map fst (filter (\<lambda>(r, _). ?P r) (joined_rows d q))))" unfolding hits .
  then have "distinct (map (\<lambda>(r, _). row_pos r) (filter (\<lambda>(r, _). ?P r) (joined_rows d q)))" by (simp add: comp_def case_prod_unfold)
  moreover have mem: "r \<in> set (table_rows d (sp_table spec))" if "(r, j) \<in> set (joined_rows d q)" for r j
    using that rows by (metis fst_conv image_eqI image_set)
  ultimately show ?thesis
    using assms(1-5,7) by (auto simp: readable_def positions_ok_def)
qed

lemma listing_readable:
  assumes "readable pe tbls spec d q binds"
  shows "listing pe tbls spec d = map (\<lambda>(r, j). pe_text pe (sq_row q) r j) (ordered_hits pe q binds d)"
proof -
  have "build_query tbls spec = Ok (q, binds)" "sp_after spec = None" using assms by (auto simp: readable_def)
  moreover from this(2) have same: "spec\<lparr>sp_after := None\<rparr> = spec" by (cases spec) simp
  ultimately show ?thesis unfolding listing_def same by simp
qed

text \<open>
  Following the cursors of a query refines its listing. Take an accepted query on an existing
  table whose filters fix the chain, of a database in which events have the primary key
  (chain, height, index) and the joined tables the key (chain, transaction). Whatever the
  page size, the order and the order in which the scan delivers rows, reading page after page
  with the returned cursors gives every row that passes the filters exactly once, in order,
  within as many pages as there are rows, plus one.
\<close>

theorem paging_refines_listing:
  assumes "build_query tbls spec = Ok (q, binds)" and "sp_after spec = None" and "faults d = []"
    and "tables d (sp_table spec) \<noteq> None" and "\<forall>xs. mset (pe_scan pe xs) = mset xs"
    and "distinct (map (\<lambda>r. (tr_chain_id r, tr_height r, tr_idx r)) (table_rows d (sp_table spec)))"
    and "\<forall>r \<in> set (table_rows d (sp_table spec)). tr_idx r \<noteq> None \<and> in_i64 (tr_height r) \<and> in_i64 (the (tr_idx r))"
    and "tx_unique d ''transactions''" and "tx_unique d ''receipts''"
    and "\<lparr>qf_column = ''chain_id'', qf_op = OpEq, qf_value = v\<rparr> \<in> set (sp_filters spec)"
    and "length (listing pe tbls spec d) < pages"
  shows "read_pages pages pe tbls spec d = Some (listing pe tbls spec d)"
proof -
  have rd: "readable pe tbls spec d q binds" by (rule keyed_readable) (use assms in auto)
  then show ?thesis
    using read_pages_resume[OF rd, of 0 pages] assms(11) by (simp add: listing_readable[OF rd] resume_def)
qed

section \<open>Two chains in one table\<close>

definition read_row :: "int \<Rightarrow> int \<Rightarrow> int \<Rightarrow> typed_row" where
  "read_row chain h i = \<lparr>tr_chain_id = chain, tr_height = h, tr_block_hash = [], tr_block_time = None, tr_tx_id = [],
     tr_idx = Some i, tr_fields = []\<rparr>"

text \<open>Chain 1 has rows at (5, 0) and (6, 2), chain 2 one at (5, 0). The text of a row is its
  height.\<close>

definition read_db :: db where
  "read_db = db_empty\<lparr>tables := [''evt_x'' \<mapsto> \<lparr>tb_cols = [], tb_pk = event_pk, tb_tx_fk = False,
     tb_rows = [read_row 1 5 0, read_row 2 5 0, read_row 1 6 2]\<rparr>]\<rparr>"

definition read_tables :: query_tables where
  "read_tables = [''evt_x'' \<mapsto> []]"

definition read_eval :: pg_eval where
  "read_eval = \<lparr>pe_compare = (\<lambda>_ _ _ _ _. True), pe_text = (\<lambda>_ r _. show_int (tr_height r)), pe_scan = (\<lambda>xs. xs)\<rparr>"

definition read_spec :: "qfilter list \<Rightarrow> query_spec" where
  "read_spec fs = \<lparr>sp_table = ''evt_x'', sp_filters = fs, sp_sort = [], sp_first = 1, sp_after = None, sp_include_tx = False,
     sp_include_receipt = False, sp_descending = False\<rparr>"

definition chain_one :: qfilter where
  "chain_one = \<lparr>qf_column = ''chain_id'', qf_op = OpEq, qf_value = ''1''\<rparr>"

lemma read_build:
  "build_query read_tables (read_spec [chain_one]) = Ok (\<lparr>sq_row = row_expr [] [], sq_table = ''evt_x'', sq_joins = [],
     sq_conds = [FilterCond ''chain_id'' OpEq 1 []], sq_descending = False, sq_limit = 2\<rparr>, [BInt 1])"
  by code_simp

lemma read_listing: "listing read_eval read_tables (read_spec [chain_one]) read_db = [''5'', ''6'']"
  by code_simp

theorem paging_refines_listing_witness:
  "read_pages 3 read_eval read_tables (read_spec [chain_one]) read_db = Some [''5'', ''6'']"
proof -
  have rows: "table_rows read_db ''evt_x'' = [read_row 1 5 0, read_row 2 5 0, read_row 1 6 2]" "table_rows read_db ''transactions'' = []"
    "table_rows read_db ''receipts'' = []" by (simp_all add: table_rows_def read_db_def db_empty_def)
  have "read_pages 3 read_eval read_tables (read_spec [chain_one]) read_db = Some (listing read_eval read_tables (read_spec [chain_one]) read_db)"
  proof (rule paging_refines_listing[OF read_build])
    show "\<lparr>qf_column = ''chain_id'', qf_op = OpEq, qf_value = ''1''\<rparr> \<in> set (sp_filters (read_spec [chain_one]))"
      by (simp add: read_spec_def chain_one_def)
    show "length (listing read_eval read_tables (read_spec [chain_one]) read_db) < 3" by (simp add: read_listing)
    show "faults read_db = []" "tables read_db (sp_table (read_spec [chain_one])) \<noteq> None"
      by (simp_all add: read_db_def db_empty_def read_spec_def)
  qed (use rows in \<open>simp_all add: read_spec_def read_eval_def read_row_def in_i64_def tx_unique_def\<close>)
  then show ?thesis by (simp add: read_listing)
qed


section \<open>Counting\<close>

lemma count_query_listing:
  assumes "build_query tbls spec = Ok (q, binds)" and "faults d = []" and "tables d (sp_table spec) \<noteq> None"
    and "tx_unique d ''transactions''" and "tx_unique d ''receipts''"
  shows "count_query pe tbls spec d = (Ok (length (listing pe tbls spec d)), d)"
proof -
  obtain conds fb where f: "validate_table tbls spec = Ok (sp_table spec)"
    "build_filters tbls (sp_table spec) (sp_filters spec) = Ok (conds, fb)"
    by (rule build_query_Ok[OF assms(1)])
  let ?q = "\<lparr>sq_row = row_expr (the (tbls (sp_table spec))) (aux_joins tbls spec), sq_table = sp_table spec, sq_joins = aux_joins tbls spec,
     sq_conds = conds, sq_descending = sp_descending spec, sq_limit = page_size spec + 1\<rparr>"
  let ?P = "\<lambda>r. list_all (cond_holds pe fb r) conds"
  have "validate_table tbls (spec\<lparr>sp_after := None\<rparr>) = Ok (sp_table spec)" "aux_joins tbls (spec\<lparr>sp_after := None\<rparr>) = aux_joins tbls spec"
    "page_size (spec\<lparr>sp_after := None\<rparr>) = page_size spec"
    using f(1) by (simp_all add: validate_table_def aux_joins_def page_size_def)
  with f have "build_query tbls (spec\<lparr>sp_after := None\<rparr>) = Ok (?q, fb)" by (simp add: build_query_def Let_def)
  then have "length (listing pe tbls spec d) = length (filter (\<lambda>(r, _). ?P r) (joined_rows d ?q))"
    by (simp add: listing_def ordered_hits_def Let_def)
  also have "\<dots> = length (filter ?P (map fst (joined_rows d ?q)))"
    by (simp add: filter_map comp_def case_prod_unfold)
  also have "map fst (joined_rows d ?q) = table_rows d (sp_table spec)"
    using joined_rows_aux[of ?q tbls spec d] assms(4,5) by simp
  finally have len: "length (listing pe tbls spec d) = length (filter ?P (table_rows d (sp_table spec)))" .
  have same: "d\<lparr>faults := []\<rparr> = d" using assms(2) by (cases d) simp
  obtain u where "tables d (sp_table spec) = Some u" using assms(3) by blast
  then show ?thesis
    using f assms(2) by (simp add: count_query_def query_result_def stmt_def Let_def same len)
qed

text \<open>
  \<open>totalCount\<close> counts what paging lists: for an accepted query on an existing table whose
  joined tables have unique transactions, \<open>count\<close> returns the number of rows of the listing,
  whatever the page size, the cursor, the joins and the order of the query.
\<close>

theorem count_matches_listing:
  assumes "build_query tbls spec = Ok (q, binds)" and "faults d = []" and "tables d (sp_table spec) \<noteq> None"
    and "tx_unique d ''transactions''" and "tx_unique d ''receipts''"
  shows "count_query pe tbls spec d = (Ok (length (listing pe tbls spec d)), d)"
  using assms by (rule count_query_listing)

theorem count_matches_listing_witness:
  "count_query read_eval read_tables (read_spec [chain_one]) read_db = (Ok 2, read_db)"
proof -
  have "count_query read_eval read_tables (read_spec [chain_one]) read_db =
      (Ok (length (listing read_eval read_tables (read_spec [chain_one]) read_db)), read_db)"
    by (rule count_matches_listing[OF read_build]) (simp_all add: read_db_def db_empty_def read_spec_def tx_unique_def table_rows_def)
  then show ?thesis by (simp add: read_listing)
qed

lemma read_build_two:
  "build_query read_tables (read_spec [chain_one\<lparr>qf_value := ''-2''\<rparr>]) = Ok (\<lparr>sq_row = row_expr [] [], sq_table = ''evt_x'', sq_joins = [],
     sq_conds = [FilterCond ''chain_id'' OpEq 1 []], sq_descending = False, sq_limit = 2\<rparr>, [BInt (-2)])"
  by code_simp

theorem query_text_ignores_values_witness:
  "is_valid_ident ''evt_x'' \<and> same_shape (read_spec [chain_one]) (read_spec [chain_one\<lparr>qf_value := ''-2''\<rparr>])"
proof -
  have sh: "same_shape (read_spec [chain_one]) (read_spec [chain_one\<lparr>qf_value := ''-2''\<rparr>])"
    by (simp add: same_shape_def read_spec_def chain_one_def page_size_def)
  from query_text_ignores_values[OF read_build read_build_two sh] sh show ?thesis by simp
qed

end
