(* ===== verification/Read_Cache.thy ===== *)
theory Read_Cache
  imports Query "HOL-Library.Countable"
begin

text \<open>
  The read cache, \<open>crates/db-query/src/cache.rs\<close>: a decorator of the read port that memoizes
  \<open>query\<close> and \<open>count\<close> for a fixed time to live.

  The cache library (moka) and the JSON encoder of the keys (serde_json) are parameters. A
  request is three pieces, separated by the awaits of the code: the look-up, the read of the
  inner repository, the insertion. \<open>serve_step\<close> interleaves the pieces of any number of
  requests with the passing of time and with writes to the database.
\<close>

section \<open>The read port\<close>

record 's query_repo =
  qr_query :: "query_spec \<Rightarrow> ('s, domain_error, string page) m"
  qr_count :: "query_spec \<Rightarrow> ('s, domain_error, nat) m"

definition pg_query_repo :: "pg_eval \<Rightarrow> query_tables \<Rightarrow> db query_repo" where
  "pg_query_repo pe tbls = \<lparr>qr_query = query pe tbls, qr_count = count_query pe tbls\<rparr>"

section \<open>Libraries\<close>

text \<open>\<open>serde_json::to_string\<close> on the two types of key; \<open>None\<close> is an encoding error.\<close>

record json_codec =
  jc_spec :: "query_spec \<Rightarrow> string option"
  jc_count :: "string \<times> qfilter list \<Rightarrow> string option"

text \<open>Structs of strings, numbers, booleans and lists are encoded, and decode to themselves.\<close>

definition faithful_codec :: "json_codec \<Rightarrow> bool" where
  "faithful_codec jc \<longleftrightarrow> (\<exists>f g. \<forall>spec c. map_option f (jc_spec jc spec) = Some spec \<and> map_option g (jc_count jc c) = Some c)"

text \<open>A cache of the library: built from a time to live and a capacity, with a clock.\<close>

record ('c, 'v) moka =
  mk_build :: "nat \<Rightarrow> nat \<Rightarrow> 'c"
  mk_ttl :: "'c \<Rightarrow> nat"
  mk_get :: "nat \<Rightarrow> string \<Rightarrow> 'c \<Rightarrow> 'v option \<times> 'c"
  mk_insert :: "nat \<Rightarrow> string \<Rightarrow> 'v \<Rightarrow> 'c \<Rightarrow> 'c"

text \<open>
  What the library documents, for a view of a cache as its entries with the time of their
  insertion. A look-up returns an entry that has not reached its time to live; an insertion
  replaces the entry of the key; entries may be evicted at any call.
\<close>

definition ttl_cache :: "('c, 'v) moka \<Rightarrow> ('c \<Rightarrow> string \<rightharpoonup> 'v \<times> nat) \<Rightarrow> bool" where
  "ttl_cache mk view \<longleftrightarrow>
     (\<forall>ttl cap. view (mk_build mk ttl cap) = Map.empty \<and> mk_ttl mk (mk_build mk ttl cap) = ttl)
   \<and> (\<forall>now k c. view (snd (mk_get mk now k c)) \<subseteq>\<^sub>m view c \<and> mk_ttl mk (snd (mk_get mk now k c)) = mk_ttl mk c)
   \<and> (\<forall>now k c v. fst (mk_get mk now k c) = Some v \<longrightarrow> (\<exists>at. view c k = Some (v, at) \<and> now < at + mk_ttl mk c))
   \<and> (\<forall>now k v c. view (mk_insert mk now k v c) \<subseteq>\<^sub>m (view c)(k \<mapsto> (v, now)) \<and> mk_ttl mk (mk_insert mk now k v c) = mk_ttl mk c)"

section \<open>The decorator\<close>

definition MAX_ENTRIES :: nat where
  "MAX_ENTRIES = 10000"

text \<open>The two caches, with the state of the inner repository and the clock.\<close>

record ('a, 'b, 's) caching =
  ca_queries :: 'a
  ca_counts :: 'b
  ca_inner :: 's
  ca_now :: nat

definition caching_new :: "('a, string page) moka \<Rightarrow> ('b, nat) moka \<Rightarrow> nat \<Rightarrow> 's \<Rightarrow> nat \<Rightarrow> ('a, 'b, 's) caching" where
  "caching_new mq mc ttl inner now = \<lparr>ca_queries = mk_build mq ttl MAX_ENTRIES, ca_counts = mk_build mc ttl MAX_ENTRIES,
     ca_inner = inner, ca_now = now\<rparr>"

definition query_key :: "json_codec \<Rightarrow> query_spec \<Rightarrow> string" where
  "query_key jc spec = (case jc_spec jc spec of None \<Rightarrow> [] | Some s \<Rightarrow> s)"

definition count_key :: "json_codec \<Rightarrow> query_spec \<Rightarrow> string" where
  "count_key jc spec = (case jc_count jc (sp_table spec, sp_filters spec) of None \<Rightarrow> [] | Some s \<Rightarrow> s)"

definition query_lookup :: "('a, string page) moka \<Rightarrow> json_codec \<Rightarrow> query_spec \<Rightarrow> ('a, 'b, 's) caching
    \<Rightarrow> string page option \<times> ('a, 'b, 's) caching" where
  "query_lookup mq jc spec st =
     (let (hit, c) = mk_get mq (ca_now st) (query_key jc spec) (ca_queries st) in (hit, st\<lparr>ca_queries := c\<rparr>))"

definition query_read :: "'s query_repo \<Rightarrow> query_spec \<Rightarrow> ('a, 'b, 's) caching
    \<Rightarrow> (domain_error, string page) res \<times> ('a, 'b, 's) caching" where
  "query_read repo spec st = (let (r, s) = qr_query repo spec (ca_inner st) in (r, st\<lparr>ca_inner := s\<rparr>))"

definition query_insert :: "('a, string page) moka \<Rightarrow> json_codec \<Rightarrow> query_spec \<Rightarrow> string page \<Rightarrow> ('a, 'b, 's) caching
    \<Rightarrow> ('a, 'b, 's) caching" where
  "query_insert mq jc spec page st = st\<lparr>ca_queries := mk_insert mq (ca_now st) (query_key jc spec) page (ca_queries st)\<rparr>"

definition cached_query :: "('a, string page) moka \<Rightarrow> json_codec \<Rightarrow> 's query_repo \<Rightarrow> query_spec
    \<Rightarrow> (('a, 'b, 's) caching, domain_error, string page) m" where
  "cached_query mq jc repo spec st = (case query_lookup mq jc spec st of
     (Some page, st) \<Rightarrow> (Ok page, st)
   | (None, st) \<Rightarrow> bind (query_read repo spec) (\<lambda>page st. (Ok page, query_insert mq jc spec page st)) st)"

definition count_lookup :: "('b, nat) moka \<Rightarrow> json_codec \<Rightarrow> query_spec \<Rightarrow> ('a, 'b, 's) caching \<Rightarrow> nat option \<times> ('a, 'b, 's) caching" where
  "count_lookup mc jc spec st =
     (let (hit, c) = mk_get mc (ca_now st) (count_key jc spec) (ca_counts st) in (hit, st\<lparr>ca_counts := c\<rparr>))"

definition count_read :: "'s query_repo \<Rightarrow> query_spec \<Rightarrow> ('a, 'b, 's) caching \<Rightarrow> (domain_error, nat) res \<times> ('a, 'b, 's) caching" where
  "count_read repo spec st = (let (r, s) = qr_count repo spec (ca_inner st) in (r, st\<lparr>ca_inner := s\<rparr>))"

definition count_insert :: "('b, nat) moka \<Rightarrow> json_codec \<Rightarrow> query_spec \<Rightarrow> nat \<Rightarrow> ('a, 'b, 's) caching \<Rightarrow> ('a, 'b, 's) caching" where
  "count_insert mc jc spec n st = st\<lparr>ca_counts := mk_insert mc (ca_now st) (count_key jc spec) n (ca_counts st)\<rparr>"

definition cached_count :: "('b, nat) moka \<Rightarrow> json_codec \<Rightarrow> 's query_repo \<Rightarrow> query_spec \<Rightarrow> (('a, 'b, 's) caching, domain_error, nat) m" where
  "cached_count mc jc repo spec st = (case count_lookup mc jc spec st of
     (Some n, st) \<Rightarrow> (Ok n, st)
   | (None, st) \<Rightarrow> bind (count_read repo spec) (\<lambda>n st. (Ok n, count_insert mc jc spec n st)) st)"

section \<open>Interleaved requests\<close>

text \<open>Where a request is between two awaits; the number is the time of its read.\<close>

datatype task =
    QueryMissed query_spec
  | QueryReady query_spec "string page" nat
  | CountMissed query_spec
  | CountReady query_spec nat nat

datatype answer =
    QueryAnswer query_spec "(domain_error, string page) res"
  | CountAnswer query_spec "(domain_error, nat) res"

text \<open>
  The decorator with its pending requests. Three history variables: the reads of the inner
  repository (time and state), the pairs of read and insertion times, the answers.
\<close>

record ('a, 'b, 's) serving =
  sv_repo :: "('a, 'b, 's) caching"
  sv_tasks :: "nat \<rightharpoonup> task"
  sv_reads :: "(nat \<times> 's) list"
  sv_spans :: "(nat \<times> nat) list"
  sv_answers :: "(nat \<times> answer) list"

datatype 's serve_action = AskQuery nat query_spec | AskCount nat query_spec | ReadInner nat | InsertRead nat | Tick nat | Written 's

definition answered :: "nat \<Rightarrow> answer \<Rightarrow> ('a, 'b, 's) serving \<Rightarrow> ('a, 'b, 's) serving" where
  "answered i a sv = sv\<lparr>sv_tasks := (sv_tasks sv)(i := None), sv_answers := sv_answers sv @ [(ca_now (sv_repo sv), a)]\<rparr>"

definition pending :: "nat \<Rightarrow> task \<Rightarrow> ('a, 'b, 's) serving \<Rightarrow> ('a, 'b, 's) serving" where
  "pending i t sv = sv\<lparr>sv_tasks := (sv_tasks sv)(i \<mapsto> t)\<rparr>"

definition has_read :: "('a, 'b, 's) serving \<Rightarrow> ('a, 'b, 's) caching \<Rightarrow> ('a, 'b, 's) serving" where
  "has_read sv st = sv\<lparr>sv_repo := st, sv_reads := sv_reads sv @ [(ca_now (sv_repo sv), ca_inner (sv_repo sv))]\<rparr>"

definition has_inserted :: "nat \<Rightarrow> ('a, 'b, 's) serving \<Rightarrow> ('a, 'b, 's) caching \<Rightarrow> ('a, 'b, 's) serving" where
  "has_inserted at sv st = sv\<lparr>sv_repo := st, sv_spans := sv_spans sv @ [(at, ca_now (sv_repo sv))]\<rparr>"

definition read_task :: "'s query_repo \<Rightarrow> nat \<Rightarrow> task \<Rightarrow> ('a, 'b, 's) serving \<Rightarrow> ('a, 'b, 's) serving" where
  "read_task repo i t sv = (case t of
     QueryMissed spec \<Rightarrow> (case query_read repo spec (sv_repo sv) of
        (Ok page, st) \<Rightarrow> pending i (QueryReady spec page (ca_now (sv_repo sv))) (has_read sv st)
      | (r, st) \<Rightarrow> answered i (QueryAnswer spec r) (has_read sv st))
   | CountMissed spec \<Rightarrow> (case count_read repo spec (sv_repo sv) of
        (Ok n, st) \<Rightarrow> pending i (CountReady spec n (ca_now (sv_repo sv))) (has_read sv st)
      | (r, st) \<Rightarrow> answered i (CountAnswer spec r) (has_read sv st))
   | _ \<Rightarrow> sv)"

definition insert_task :: "('a, string page) moka \<Rightarrow> ('b, nat) moka \<Rightarrow> json_codec \<Rightarrow> nat \<Rightarrow> task \<Rightarrow> ('a, 'b, 's) serving \<Rightarrow> ('a, 'b, 's) serving" where
  "insert_task mq mc jc i t sv = (case t of
     QueryReady spec page at \<Rightarrow> answered i (QueryAnswer spec (Ok page)) (has_inserted at sv (query_insert mq jc spec page (sv_repo sv)))
   | CountReady spec n at \<Rightarrow> answered i (CountAnswer spec (Ok n)) (has_inserted at sv (count_insert mc jc spec n (sv_repo sv)))
   | _ \<Rightarrow> sv)"

fun serve_step :: "('a, string page) moka \<Rightarrow> ('b, nat) moka \<Rightarrow> json_codec \<Rightarrow> 's query_repo \<Rightarrow> 's serve_action
    \<Rightarrow> ('a, 'b, 's) serving \<Rightarrow> ('a, 'b, 's) serving" where
  "serve_step mq mc jc repo (AskQuery i spec) sv = (if sv_tasks sv i \<noteq> None then sv
     else case query_lookup mq jc spec (sv_repo sv) of
       (Some page, st) \<Rightarrow> answered i (QueryAnswer spec (Ok page)) (sv\<lparr>sv_repo := st\<rparr>)
     | (None, st) \<Rightarrow> pending i (QueryMissed spec) (sv\<lparr>sv_repo := st\<rparr>))"
| "serve_step mq mc jc repo (AskCount i spec) sv = (if sv_tasks sv i \<noteq> None then sv
     else case count_lookup mc jc spec (sv_repo sv) of
       (Some n, st) \<Rightarrow> answered i (CountAnswer spec (Ok n)) (sv\<lparr>sv_repo := st\<rparr>)
     | (None, st) \<Rightarrow> pending i (CountMissed spec) (sv\<lparr>sv_repo := st\<rparr>))"
| "serve_step mq mc jc repo (ReadInner i) sv = (case sv_tasks sv i of None \<Rightarrow> sv | Some t \<Rightarrow> read_task repo i t sv)"
| "serve_step mq mc jc repo (InsertRead i) sv = (case sv_tasks sv i of None \<Rightarrow> sv | Some t \<Rightarrow> insert_task mq mc jc i t sv)"
| "serve_step mq mc jc repo (Tick n) sv = sv\<lparr>sv_repo := (sv_repo sv)\<lparr>ca_now := ca_now (sv_repo sv) + n\<rparr>\<rparr>"
| "serve_step mq mc jc repo (Written s) sv = sv\<lparr>sv_repo := (sv_repo sv)\<lparr>ca_inner := s\<rparr>\<rparr>"

definition serve :: "('a, string page) moka \<Rightarrow> ('b, nat) moka \<Rightarrow> json_codec \<Rightarrow> 's query_repo \<Rightarrow> 's serve_action list
    \<Rightarrow> ('a, 'b, 's) serving \<Rightarrow> ('a, 'b, 's) serving" where
  "serve mq mc jc repo acts sv = fold (serve_step mq mc jc repo) acts sv"

definition serving_start :: "('a, string page) moka \<Rightarrow> ('b, nat) moka \<Rightarrow> nat \<Rightarrow> 's \<Rightarrow> ('a, 'b, 's) serving" where
  "serving_start mq mc ttl inner = \<lparr>sv_repo = caching_new mq mc ttl inner 0, sv_tasks = Map.empty, sv_reads = [], sv_spans = [], sv_answers = []\<rparr>"

text \<open>A request that is not interrupted is the handler of the code.\<close>

lemma serve_uninterrupted_query:
  assumes "sv_tasks sv i = None"
  shows "sv_repo (serve mq mc jc repo [AskQuery i spec, ReadInner i, InsertRead i] sv) = snd (cached_query mq jc repo spec (sv_repo sv))
    \<and> map snd (sv_answers (serve mq mc jc repo [AskQuery i spec, ReadInner i, InsertRead i] sv))
        = map snd (sv_answers sv) @ [QueryAnswer spec (fst (cached_query mq jc repo spec (sv_repo sv)))]"
  using assms
  by (auto simp: serve_def cached_query_def bind_def answered_def pending_def read_task_def insert_task_def has_read_def has_inserted_def
      split: prod.splits option.splits res.splits)

lemma serve_uninterrupted_count:
  assumes "sv_tasks sv i = None"
  shows "sv_repo (serve mq mc jc repo [AskCount i spec, ReadInner i, InsertRead i] sv) = snd (cached_count mc jc repo spec (sv_repo sv))
    \<and> map snd (sv_answers (serve mq mc jc repo [AskCount i spec, ReadInner i, InsertRead i] sv))
        = map snd (sv_answers sv) @ [CountAnswer spec (fst (cached_count mc jc repo spec (sv_repo sv)))]"
  using assms
  by (auto simp: serve_def cached_count_def bind_def answered_def pending_def read_task_def insert_task_def has_read_def has_inserted_def
      split: prod.splits option.splits res.splits)

section \<open>Where answers come from\<close>

definition query_of :: "'s query_repo \<Rightarrow> query_spec \<Rightarrow> 's \<Rightarrow> (domain_error, string page) res" where
  "query_of repo spec w = fst (qr_query repo spec w)"

definition count_of :: "'s query_repo \<Rightarrow> query_spec \<Rightarrow> 's \<Rightarrow> (domain_error, nat) res" where
  "count_of repo spec w = fst (qr_count repo spec w)"

text \<open>The answer is what the inner repository says in the given state.\<close>

fun gives :: "'s query_repo \<Rightarrow> 's \<Rightarrow> answer \<Rightarrow> bool" where
  "gives repo w (QueryAnswer spec r) \<longleftrightarrow> query_of repo spec w = r"
| "gives repo w (CountAnswer spec r) \<longleftrightarrow> count_of repo spec w = r"

fun is_failure :: "answer \<Rightarrow> bool" where
  "is_failure (QueryAnswer spec r) \<longleftrightarrow> \<not> is_ok r"
| "is_failure (CountAnswer spec r) \<longleftrightarrow> \<not> is_ok r"

text \<open>Requests with one key have the same answers.\<close>

definition key_sound :: "(query_spec \<Rightarrow> string) \<Rightarrow> (query_spec \<Rightarrow> 's \<Rightarrow> (domain_error, 'v) res) \<Rightarrow> bool" where
  "key_sound key ask \<longleftrightarrow> (\<forall>a b. key a = key b \<longrightarrow> ask a = ask b)"

text \<open>A value for a request: read at some time, in flight or inserted.\<close>

definition was_read :: "(nat \<times> 's) list \<Rightarrow> ('s \<Rightarrow> (domain_error, 'v) res) \<Rightarrow> (domain_error, 'v) res \<Rightarrow> nat \<Rightarrow> bool" where
  "was_read reads ask r s \<longleftrightarrow> (\<exists>w. (s, w) \<in> set reads \<and> ask w = r)"

definition entries_ok :: "(query_spec \<Rightarrow> string) \<Rightarrow> (query_spec \<Rightarrow> 's \<Rightarrow> (domain_error, 'v) res) \<Rightarrow> (nat \<times> 's) list \<Rightarrow> (nat \<times> nat) list
    \<Rightarrow> nat \<Rightarrow> (string \<rightharpoonup> 'v \<times> nat) \<Rightarrow> bool" where
  "entries_ok key ask reads spans now m \<longleftrightarrow>
     (\<forall>k v at. m k = Some (v, at) \<longrightarrow>
        (\<exists>spec s. k = key spec \<and> was_read reads (ask spec) (Ok v) s \<and> (s, at) \<in> set spans \<and> s \<le> at \<and> at \<le> now))"

definition recent :: "nat \<Rightarrow> (nat \<times> nat) list \<Rightarrow> nat \<Rightarrow> nat \<Rightarrow> bool" where
  "recent ttl spans s t \<longleftrightarrow> (\<exists>at. (s, at) \<in> set spans \<and> s \<le> at \<and> at \<le> t \<and> t < at + ttl)"

fun task_ok :: "'s query_repo \<Rightarrow> (nat \<times> 's) list \<Rightarrow> nat \<Rightarrow> task \<Rightarrow> bool" where
  "task_ok repo reads now (QueryReady spec page s) \<longleftrightarrow> was_read reads (query_of repo spec) (Ok page) s \<and> s \<le> now"
| "task_ok repo reads now (CountReady spec n s) \<longleftrightarrow> was_read reads (count_of repo spec) (Ok n) s \<and> s \<le> now"
| "task_ok repo reads now _ \<longleftrightarrow> True"

definition answer_ok :: "'s query_repo \<Rightarrow> nat \<Rightarrow> (nat \<times> 's) list \<Rightarrow> (nat \<times> nat) list \<Rightarrow> nat \<times> answer \<Rightarrow> bool" where
  "answer_ok repo ttl reads spans ta \<longleftrightarrow> (case ta of (t, a) \<Rightarrow>
     \<exists>s w. (s, w) \<in> set reads \<and> gives repo w a \<and> (if is_failure a then s = t else recent ttl spans s t))"

definition serving_ok :: "('a, string page) moka \<Rightarrow> ('a \<Rightarrow> string \<rightharpoonup> string page \<times> nat) \<Rightarrow> ('b, nat) moka \<Rightarrow> ('b \<Rightarrow> string \<rightharpoonup> nat \<times> nat)
    \<Rightarrow> json_codec \<Rightarrow> 's query_repo \<Rightarrow> nat \<Rightarrow> ('a, 'b, 's) serving \<Rightarrow> bool" where
  "serving_ok mq vq mc vc jc repo ttl sv \<longleftrightarrow>
     (let st = sv_repo sv; now = ca_now st; reads = sv_reads sv; spans = sv_spans sv
      in entries_ok (query_key jc) (query_of repo) reads spans now (vq (ca_queries st)) \<and> mk_ttl mq (ca_queries st) = ttl
       \<and> entries_ok (count_key jc) (count_of repo) reads spans now (vc (ca_counts st)) \<and> mk_ttl mc (ca_counts st) = ttl
       \<and> (\<forall>i t. sv_tasks sv i = Some t \<longrightarrow> task_ok repo reads now t)
       \<and> (\<forall>ta \<in> set (sv_answers sv). answer_ok repo ttl reads spans ta))"

section \<open>Keys\<close>

lemma query_key_sound:
  assumes "faithful_codec jc"
  shows "key_sound (query_key jc) (query_of repo)"
proof -
  obtain f where f: "\<And>spec. map_option f (jc_spec jc spec) = Some spec" using assms by (auto simp: faithful_codec_def)
  have "a = b" if "query_key jc a = query_key jc b" for a b
    using that f[of a] f[of b] by (auto simp: query_key_def split: option.splits)
  then show ?thesis by (auto simp: key_sound_def)
qed

text \<open>A count reads the table and the filters only.\<close>

lemma count_query_cong:
  "\<lbrakk>sp_table a = sp_table b; sp_filters a = sp_filters b\<rbrakk> \<Longrightarrow> count_query pe tbls a = count_query pe tbls b"
  by (simp add: count_query_def validate_table_def cong: res.case_cong)

lemma count_key_sound:
  assumes "faithful_codec jc"
  shows "key_sound (count_key jc) (count_of (pg_query_repo pe tbls))"
proof -
  obtain g where g: "\<And>c. map_option g (jc_count jc c) = Some c" using assms by (auto simp: faithful_codec_def)
  have eq: "sp_table a = sp_table b \<and> sp_filters a = sp_filters b" if "count_key jc a = count_key jc b" for a b
    using that g[of "(sp_table a, sp_filters a)"] g[of "(sp_table b, sp_filters b)"] by (auto simp: count_key_def split: option.splits)
  show ?thesis
    unfolding key_sound_def
  proof (intro allI impI)
    fix a b :: query_spec
    assume k: "count_key jc a = count_key jc b"
    have "count_query pe tbls a = count_query pe tbls b" using eq[OF k] by (intro count_query_cong) blast+
    then show "count_of (pg_query_repo pe tbls) a = count_of (pg_query_repo pe tbls) b"
      by (simp add: fun_eq_iff count_of_def pg_query_repo_def)
  qed
qed

section \<open>The cache keeps reads that are recent\<close>

lemma was_read_mono: "was_read reads ask r s \<Longrightarrow> set reads \<subseteq> set reads' \<Longrightarrow> was_read reads' ask r s"
  by (auto simp: was_read_def)

lemma recent_mono: "recent ttl spans s t \<Longrightarrow> set spans \<subseteq> set spans' \<Longrightarrow> recent ttl spans' s t"
  by (auto simp: recent_def)

lemma entries_ok_mono:
  assumes "entries_ok key ask reads spans now m" "m' \<subseteq>\<^sub>m m" "set reads \<subseteq> set reads'" "set spans \<subseteq> set spans'" "now \<le> now'"
  shows "entries_ok key ask reads' spans' now' m'"
  unfolding entries_ok_def
proof (intro allI impI)
  fix k v at assume "m' k = Some (v, at)"
  then have "m k = Some (v, at)" using assms(2) by (metis domI map_le_def)
  then show "\<exists>spec s. k = key spec \<and> was_read reads' (ask spec) (Ok v) s \<and> (s, at) \<in> set spans' \<and> s \<le> at \<and> at \<le> now'"
    using assms(1) unfolding entries_ok_def using assms(3-5) by (blast intro: was_read_mono order_trans)
qed

lemma entries_ok_insert:
  assumes "entries_ok key ask reads spans now m" "m' \<subseteq>\<^sub>m m(key spec \<mapsto> (v, now))" "was_read reads (ask spec) (Ok v) s" "s \<le> now"
  shows "entries_ok key ask reads (spans @ [(s, now)]) now m'"
proof -
  have "entries_ok key ask reads (spans @ [(s, now)]) now (m(key spec \<mapsto> (v, now)))"
    using assms(1,3,4) unfolding entries_ok_def by (auto split: if_splits) blast
  then show ?thesis using assms(2) by (rule entries_ok_mono) auto
qed

text \<open>A hit is an answer that is recent enough.\<close>

lemma hit_is_recent:
  assumes "ttl_cache mk view" "entries_ok key ask reads spans now (view c)" "key_sound key ask"
    and "mk_get mk now (key spec) c = (Some v, c')"
  obtains s w where "(s, w) \<in> set reads" "ask spec w = Ok v" "recent (mk_ttl mk c) spans s now"
proof -
  obtain at where at: "view c (key spec) = Some (v, at)" "now < at + mk_ttl mk c"
    using assms(1,4) unfolding ttl_cache_def by (metis fst_conv)
  obtain spec' s where s: "key spec = key spec'" "was_read reads (ask spec') (Ok v) s" "(s, at) \<in> set spans" "s \<le> at" "at \<le> now"
    using assms(2) at(1) unfolding entries_ok_def by metis
  have "ask spec' = ask spec" using assms(3) s(1) by (metis key_sound_def)
  then obtain w where "(s, w) \<in> set reads" "ask spec w = Ok v" using s(2) by (auto simp: was_read_def)
  then show thesis using that s at(2) by (auto simp: recent_def)
qed

lemma cache_get_view:
  assumes "ttl_cache mk view" "mk_get mk now k c = (r, c')"
  shows "view c' \<subseteq>\<^sub>m view c" "mk_ttl mk c' = mk_ttl mk c"
  using assms unfolding ttl_cache_def by (metis snd_conv)+

lemma cache_insert_view:
  assumes "ttl_cache mk view"
  shows "view (mk_insert mk now k v c) \<subseteq>\<^sub>m (view c)(k \<mapsto> (v, now))" "mk_ttl mk (mk_insert mk now k v c) = mk_ttl mk c"
  using assms unfolding ttl_cache_def by blast+

lemma answer_ok_mono:
  "\<lbrakk>answer_ok repo ttl reads spans ta; set reads \<subseteq> set reads'; set spans \<subseteq> set spans'\<rbrakk> \<Longrightarrow> answer_ok repo ttl reads' spans' ta"
  unfolding answer_ok_def by (cases ta, clarsimp split del: if_split) (metis recent_mono subsetD)

lemma task_ok_mono:
  "\<lbrakk>task_ok repo reads now t; set reads \<subseteq> set reads'; now \<le> now'\<rbrakk> \<Longrightarrow> task_ok repo reads' now' t"
  by (cases t) (auto intro: was_read_mono)

text \<open>Every piece of a request keeps the invariant.\<close>

lemma serving_ok_answered:
  assumes "serving_ok mq vq mc vc jc repo ttl sv" "answer_ok repo ttl (sv_reads sv) (sv_spans sv) (ca_now (sv_repo sv), a)"
  shows "serving_ok mq vq mc vc jc repo ttl (answered i a sv)"
  using assms by (auto simp: serving_ok_def answered_def Let_def)

lemma serving_ok_pending:
  assumes "serving_ok mq vq mc vc jc repo ttl sv" "task_ok repo (sv_reads sv) (ca_now (sv_repo sv)) t"
  shows "serving_ok mq vq mc vc jc repo ttl (pending i t sv)"
  using assms by (auto simp: serving_ok_def pending_def Let_def)

text \<open>A change of the caches, the clock and the histories that only forgets entries.\<close>

lemma serving_ok_weaken:
  assumes "serving_ok mq vq mc vc jc repo ttl sv" "sv_tasks sv' = sv_tasks sv" "sv_answers sv' = sv_answers sv"
    and "vq (ca_queries (sv_repo sv')) \<subseteq>\<^sub>m vq (ca_queries (sv_repo sv))" "mk_ttl mq (ca_queries (sv_repo sv')) = mk_ttl mq (ca_queries (sv_repo sv))"
    and "vc (ca_counts (sv_repo sv')) \<subseteq>\<^sub>m vc (ca_counts (sv_repo sv))" "mk_ttl mc (ca_counts (sv_repo sv')) = mk_ttl mc (ca_counts (sv_repo sv))"
    and "set (sv_reads sv) \<subseteq> set (sv_reads sv')" "set (sv_spans sv) \<subseteq> set (sv_spans sv')" "ca_now (sv_repo sv) \<le> ca_now (sv_repo sv')"
  shows "serving_ok mq vq mc vc jc repo ttl sv'"
proof -
  have "task_ok repo (sv_reads sv') (ca_now (sv_repo sv')) t" if "sv_tasks sv i = Some t" for i t
    using assms(1,8,10) that by (auto simp: serving_ok_def Let_def intro: task_ok_mono)
  then show ?thesis
    using assms unfolding serving_ok_def Let_def by (auto elim!: entries_ok_mono answer_ok_mono)
qed

lemma serving_ok_has_read:
  assumes "serving_ok mq vq mc vc jc repo ttl sv"
    and "ca_queries st = ca_queries (sv_repo sv)" "ca_counts st = ca_counts (sv_repo sv)" "ca_now st = ca_now (sv_repo sv)"
  shows "serving_ok mq vq mc vc jc repo ttl (has_read sv st)"
  using assms by (intro serving_ok_weaken[OF assms(1)]) (auto simp: has_read_def)

lemma serving_ok_has_inserted:
  assumes "serving_ok mq vq mc vc jc repo ttl sv"
  shows "serving_ok mq vq mc vc jc repo ttl (sv\<lparr>sv_spans := sv_spans sv @ [span]\<rparr>)"
  by (rule serving_ok_weaken[OF assms]) auto

lemma serving_ok_query_insert:
  assumes "serving_ok mq vq mc vc jc repo ttl sv" "ttl_cache mq vq" "task_ok repo (sv_reads sv) (ca_now (sv_repo sv)) (QueryReady spec page s)"
  shows "serving_ok mq vq mc vc jc repo ttl (has_inserted s sv (query_insert mq jc spec page (sv_repo sv)))"
proof -
  have "entries_ok (query_key jc) (query_of repo) (sv_reads sv) (sv_spans sv @ [(s, ca_now (sv_repo sv))]) (ca_now (sv_repo sv))
      (vq (mk_insert mq (ca_now (sv_repo sv)) (query_key jc spec) page (ca_queries (sv_repo sv))))"
    using assms(1,3) by (intro entries_ok_insert[OF _ cache_insert_view(1)[OF assms(2)]]) (auto simp: serving_ok_def Let_def)
  then show ?thesis
    using serving_ok_has_inserted[OF assms(1), of "(s, ca_now (sv_repo sv))"] cache_insert_view(2)[OF assms(2)]
    by (simp add: serving_ok_def Let_def has_inserted_def query_insert_def)
qed

lemma serving_ok_count_insert:
  assumes "serving_ok mq vq mc vc jc repo ttl sv" "ttl_cache mc vc" "task_ok repo (sv_reads sv) (ca_now (sv_repo sv)) (CountReady spec n s)"
  shows "serving_ok mq vq mc vc jc repo ttl (has_inserted s sv (count_insert mc jc spec n (sv_repo sv)))"
proof -
  have "entries_ok (count_key jc) (count_of repo) (sv_reads sv) (sv_spans sv @ [(s, ca_now (sv_repo sv))]) (ca_now (sv_repo sv))
      (vc (mk_insert mc (ca_now (sv_repo sv)) (count_key jc spec) n (ca_counts (sv_repo sv))))"
    using assms(1,3) by (intro entries_ok_insert[OF _ cache_insert_view(1)[OF assms(2)]]) (auto simp: serving_ok_def Let_def)
  then show ?thesis
    using serving_ok_has_inserted[OF assms(1), of "(s, ca_now (sv_repo sv))"] cache_insert_view(2)[OF assms(2)]
    by (simp add: serving_ok_def Let_def has_inserted_def count_insert_def)
qed

lemma serving_ok_ask_query:
  assumes ok: "serving_ok mq vq mc vc jc repo ttl sv" and mk: "ttl_cache mq vq" and key: "key_sound (query_key jc) (query_of repo)"
  shows "serving_ok mq vq mc vc jc repo ttl (serve_step mq mc jc repo (AskQuery i spec) sv)"
proof -
  let ?now = "ca_now (sv_repo sv)" and ?c = "ca_queries (sv_repo sv)"
  obtain hit c' where g: "mk_get mq ?now (query_key jc spec) ?c = (hit, c')" by (cases "mk_get mq ?now (query_key jc spec) ?c")
  let ?sv = "sv\<lparr>sv_repo := (sv_repo sv)\<lparr>ca_queries := c'\<rparr>\<rparr>"
  have ok': "serving_ok mq vq mc vc jc repo ttl ?sv"
    using cache_get_view[OF mk g] by (intro serving_ok_weaken[OF ok]) auto
  show ?thesis
  proof (cases hit)
    case None
    then show ?thesis using ok ok' g by (auto simp: query_lookup_def intro!: serving_ok_pending)
  next
    case (Some page)
    have "entries_ok (query_key jc) (query_of repo) (sv_reads sv) (sv_spans sv) ?now (vq ?c)" "mk_ttl mq ?c = ttl"
      using ok by (auto simp: serving_ok_def Let_def)
    then obtain s w where "(s, w) \<in> set (sv_reads sv)" "query_of repo spec w = Ok page" "recent ttl (sv_spans sv) s ?now"
      using hit_is_recent[OF mk _ key g[unfolded Some]] by metis
    then have "answer_ok repo ttl (sv_reads sv) (sv_spans sv) (?now, QueryAnswer spec (Ok page))" by (auto simp: answer_ok_def)
    then show ?thesis using ok ok' g Some by (auto simp: query_lookup_def intro!: serving_ok_answered)
  qed
qed

lemma serving_ok_ask_count:
  assumes ok: "serving_ok mq vq mc vc jc repo ttl sv" and mk: "ttl_cache mc vc" and key: "key_sound (count_key jc) (count_of repo)"
  shows "serving_ok mq vq mc vc jc repo ttl (serve_step mq mc jc repo (AskCount i spec) sv)"
proof -
  let ?now = "ca_now (sv_repo sv)" and ?c = "ca_counts (sv_repo sv)"
  obtain hit c' where g: "mk_get mc ?now (count_key jc spec) ?c = (hit, c')" by (cases "mk_get mc ?now (count_key jc spec) ?c")
  let ?sv = "sv\<lparr>sv_repo := (sv_repo sv)\<lparr>ca_counts := c'\<rparr>\<rparr>"
  have ok': "serving_ok mq vq mc vc jc repo ttl ?sv"
    using cache_get_view[OF mk g] by (intro serving_ok_weaken[OF ok]) auto
  show ?thesis
  proof (cases hit)
    case None
    then show ?thesis using ok ok' g by (auto simp: count_lookup_def intro!: serving_ok_pending)
  next
    case (Some n)
    have "entries_ok (count_key jc) (count_of repo) (sv_reads sv) (sv_spans sv) ?now (vc ?c)" "mk_ttl mc ?c = ttl"
      using ok by (auto simp: serving_ok_def Let_def)
    then obtain s w where "(s, w) \<in> set (sv_reads sv)" "count_of repo spec w = Ok n" "recent ttl (sv_spans sv) s ?now"
      using hit_is_recent[OF mk _ key g[unfolded Some]] by metis
    then have "answer_ok repo ttl (sv_reads sv) (sv_spans sv) (?now, CountAnswer spec (Ok n))" by (auto simp: answer_ok_def)
    then show ?thesis using ok ok' g Some by (auto simp: count_lookup_def intro!: serving_ok_answered)
  qed
qed

text \<open>A read: its result is answered if it fails, and pending otherwise.\<close>

lemma serving_ok_read_task:
  assumes ok: "serving_ok mq vq mc vc jc repo ttl sv"
  shows "serving_ok mq vq mc vc jc repo ttl (read_task repo i t sv)"
proof -
  let ?now = "ca_now (sv_repo sv)" and ?w = "ca_inner (sv_repo sv)"
  have rd: "serving_ok mq vq mc vc jc repo ttl (has_read sv ((sv_repo sv)\<lparr>ca_inner := s\<rparr>))" for s
    using ok by (rule serving_ok_has_read) auto
  have mem: "(?now, ?w) \<in> set (sv_reads (has_read sv st))" for st by (simp add: has_read_def)
  have q: "was_read (sv_reads (has_read sv st)) (query_of repo spec) (query_of repo spec ?w) ?now"
    "was_read (sv_reads (has_read sv st)) (count_of repo spec) (count_of repo spec ?w) ?now" for spec st
    using mem by (auto simp: was_read_def)
  have a: "answer_ok repo ttl (sv_reads (has_read sv st)) spans (?now, a)" if "gives repo ?w a" "is_failure a" for a st spans
    using mem[of st] that by (auto simp: answer_ok_def)
  have n: "ca_now (sv_repo (has_read sv ((sv_repo sv)\<lparr>ca_inner := s\<rparr>))) = ?now" for s by (simp add: has_read_def)
  show ?thesis
  proof (cases t)
    case (QueryMissed spec)
    obtain r s where r: "qr_query repo spec ?w = (r, s)" by (cases "qr_query repo spec ?w")
    then have "query_of repo spec ?w = r" by (simp add: query_of_def)
    then show ?thesis
      using rd[of s] q(1)[of "(sv_repo sv)\<lparr>ca_inner := s\<rparr>" spec] n[of s] QueryMissed r
      by (cases r) (auto simp: read_task_def query_read_def intro!: serving_ok_pending serving_ok_answered a)
  next
    case (CountMissed spec)
    obtain r s where r: "qr_count repo spec ?w = (r, s)" by (cases "qr_count repo spec ?w")
    then have "count_of repo spec ?w = r" by (simp add: count_of_def)
    then show ?thesis
      using rd[of s] q(2)[of "(sv_repo sv)\<lparr>ca_inner := s\<rparr>" spec] n[of s] CountMissed r
      by (cases r) (auto simp: read_task_def count_read_def intro!: serving_ok_pending serving_ok_answered a)
  qed (use ok in \<open>auto simp: read_task_def\<close>)
qed

text \<open>An insertion: the value is answered at the time at which it is inserted.\<close>

lemma answer_ok_inserted:
  assumes "(s, w) \<in> set reads" "gives repo w a" "\<not> is_failure a" "s \<le> now" "0 < ttl"
  shows "answer_ok repo ttl reads (spans @ [(s, now)]) (now, a)"
proof -
  have "recent ttl (spans @ [(s, now)]) s now" using assms(4,5) by (auto simp: recent_def intro!: exI[of _ now])
  then show ?thesis using assms(1-3) by (auto simp: answer_ok_def)
qed

lemma serving_ok_insert_task:
  assumes ok: "serving_ok mq vq mc vc jc repo ttl sv" and mk: "ttl_cache mq vq" "ttl_cache mc vc" and "0 < ttl"
    and t: "task_ok repo (sv_reads sv) (ca_now (sv_repo sv)) t"
  shows "serving_ok mq vq mc vc jc repo ttl (insert_task mq mc jc i t sv)"
proof (cases t)
  case (QueryReady spec page s)
  then obtain w where "(s, w) \<in> set (sv_reads sv)" "query_of repo spec w = Ok page" "s \<le> ca_now (sv_repo sv)"
    using t by (auto simp: was_read_def)
  then have "answer_ok repo ttl (sv_reads sv) (sv_spans sv @ [(s, ca_now (sv_repo sv))]) (ca_now (sv_repo sv), QueryAnswer spec (Ok page))"
    using \<open>0 < ttl\<close> by (intro answer_ok_inserted[of s w]) auto
  then show ?thesis
    using serving_ok_query_insert[OF ok mk(1) t[unfolded QueryReady]]
    by (auto simp: QueryReady insert_task_def has_inserted_def query_insert_def intro!: serving_ok_answered)
next
  case (CountReady spec n s)
  then obtain w where "(s, w) \<in> set (sv_reads sv)" "count_of repo spec w = Ok n" "s \<le> ca_now (sv_repo sv)"
    using t by (auto simp: was_read_def)
  then have "answer_ok repo ttl (sv_reads sv) (sv_spans sv @ [(s, ca_now (sv_repo sv))]) (ca_now (sv_repo sv), CountAnswer spec (Ok n))"
    using \<open>0 < ttl\<close> by (intro answer_ok_inserted[of s w]) auto
  then show ?thesis
    using serving_ok_count_insert[OF ok mk(2) t[unfolded CountReady]]
    by (auto simp: CountReady insert_task_def has_inserted_def count_insert_def intro!: serving_ok_answered)
qed (use ok in \<open>auto simp: insert_task_def\<close>)

lemma serving_ok_step:
  assumes ok: "serving_ok mq vq mc vc jc repo ttl sv" and mk: "ttl_cache mq vq" "ttl_cache mc vc" and "0 < ttl"
    and key: "key_sound (query_key jc) (query_of repo)" "key_sound (count_key jc) (count_of repo)"
  shows "serving_ok mq vq mc vc jc repo ttl (serve_step mq mc jc repo act sv)"
proof (cases act)
  case (AskQuery i spec)
  then show ?thesis using serving_ok_ask_query[OF ok mk(1) key(1)] by simp
next
  case (AskCount i spec)
  then show ?thesis using serving_ok_ask_count[OF ok mk(2) key(2)] by simp
next
  case (ReadInner i)
  then show ?thesis using ok serving_ok_read_task[OF ok] by (auto split: option.splits)
next
  case (InsertRead i)
  have "task_ok repo (sv_reads sv) (ca_now (sv_repo sv)) t" if "sv_tasks sv i = Some t" for t
    using ok that by (auto simp: serving_ok_def Let_def)
  then show ?thesis using InsertRead ok serving_ok_insert_task[OF ok mk \<open>0 < ttl\<close>] by (auto split: option.splits)
next
  case (Tick n)
  show ?thesis unfolding Tick by (rule serving_ok_weaken[OF ok]) simp_all
next
  case (Written s)
  show ?thesis unfolding Written by (rule serving_ok_weaken[OF ok]) simp_all
qed

lemma serving_ok_start:
  assumes "ttl_cache mq vq" "ttl_cache mc vc"
  shows "serving_ok mq vq mc vc jc repo ttl (serving_start mq mc ttl inner)"
  using assms by (simp add: serving_ok_def Let_def serving_start_def caching_new_def entries_ok_def ttl_cache_def)

lemma serving_ok_serve:
  assumes "ttl_cache mq vq" "ttl_cache mc vc" "0 < ttl"
    and "key_sound (query_key jc) (query_of repo)" "key_sound (count_key jc) (count_of repo)"
  shows "serving_ok mq vq mc vc jc repo ttl sv \<Longrightarrow> serving_ok mq vq mc vc jc repo ttl (serve mq mc jc repo acts sv)"
  unfolding serve_def by (induction acts arbitrary: sv) (simp_all add: serving_ok_step assms)

lemma served_answer_ok:
  assumes "ttl_cache mq vq" "ttl_cache mc vc" "0 < ttl" "faithful_codec jc"
    and "(t, a) \<in> set (sv_answers (serve mq mc jc (pg_query_repo pe tbls) acts (serving_start mq mc ttl d)))"
  shows "answer_ok (pg_query_repo pe tbls) ttl (sv_reads (serve mq mc jc (pg_query_repo pe tbls) acts (serving_start mq mc ttl d)))
    (sv_spans (serve mq mc jc (pg_query_repo pe tbls) acts (serving_start mq mc ttl d))) (t, a)"
  using serving_ok_serve[OF assms(1-3) query_key_sound[OF assms(4)] count_key_sound[OF assms(4)] serving_ok_start[OF assms(1,2)]] assms(5)
  by (fastforce simp: serving_ok_def Let_def)

section \<open>Properties\<close>

text \<open>
  C25. The cache serves what Postgres said, and not long ago. In every interleaving of requests,
  of writes to the database and of time, an answer given at time \<open>t\<close>, a page or a count, is
  the answer of the repository to the same request in the state that the database had at a
  read at most \<open>lag + ttl\<close> before, where \<open>lag\<close> bounds the time between the read and the
  insertion of one request (the entry's life starts at its insertion, not at its read).
  Requests that share a count entry have the same count.
\<close>

theorem cached_answers_are_recent:
  assumes "ttl_cache mq vq" and "ttl_cache mc vc" and "0 < ttl" and "faithful_codec jc"
    and "sv = serve mq mc jc (pg_query_repo pe tbls) acts (serving_start mq mc ttl d)"
    and "\<forall>(s, at) \<in> set (sv_spans sv). at \<le> s + lag"
    and "(t, a) \<in> set (sv_answers sv)"
  shows "\<exists>s w. (s, w) \<in> set (sv_reads sv) \<and> gives (pg_query_repo pe tbls) w a \<and> s \<le> t \<and> t < s + lag + ttl"
proof -
  have "answer_ok (pg_query_repo pe tbls) ttl (sv_reads sv) (sv_spans sv) (t, a)"
    unfolding assms(5) by (rule served_answer_ok) (use assms in auto)
  then obtain s w where sw: "(s, w) \<in> set (sv_reads sv)" "gives (pg_query_repo pe tbls) w a"
    and t: "if is_failure a then s = t else recent ttl (sv_spans sv) s t"
    by (auto simp: answer_ok_def)
  have "s \<le> t \<and> t < s + lag + ttl"
  proof (cases "is_failure a")
    case False
    then obtain at where "(s, at) \<in> set (sv_spans sv)" "s \<le> at" "at \<le> t" "t < at + ttl" using t by (auto simp: recent_def)
    then show ?thesis using assms(6) by fastforce
  qed (use t \<open>0 < ttl\<close> in simp)
  then show ?thesis using sw by blast
qed

text \<open>
  Errors are never cached: a request that is answered with an error or a panic was answered
  so by the repository itself, at that very time.
\<close>

theorem cached_errors_are_current:
  assumes "ttl_cache mq vq" and "ttl_cache mc vc" and "0 < ttl" and "faithful_codec jc"
    and "(t, a) \<in> set (sv_answers (serve mq mc jc (pg_query_repo pe tbls) acts (serving_start mq mc ttl d)))" and "is_failure a"
  shows "\<exists>w. (t, w) \<in> set (sv_reads (serve mq mc jc (pg_query_repo pe tbls) acts (serving_start mq mc ttl d))) \<and> gives (pg_query_repo pe tbls) w a"
  using served_answer_ok[OF assms(1-5)] assms(6) by (auto simp: answer_ok_def)

section \<open>A cache without eviction\<close>

definition plain_moka :: "(nat \<times> (string \<rightharpoonup> 'v \<times> nat), 'v) moka" where
  "plain_moka = \<lparr>mk_build = (\<lambda>ttl cap. (ttl, Map.empty)), mk_ttl = fst,
     mk_get = (\<lambda>now k (ttl, m). (case m k of None \<Rightarrow> None | Some (v, at) \<Rightarrow> if now < at + ttl then Some v else None, ttl, m)),
     mk_insert = (\<lambda>now k v (ttl, m). (ttl, m(k \<mapsto> (v, now))))\<rparr>"

lemma plain_moka_ttl: "ttl_cache plain_moka snd"
  by (auto simp: ttl_cache_def plain_moka_def split: option.splits if_splits)

text \<open>Numbering the keys.\<close>

definition filter_code :: "qfilter \<Rightarrow> string \<times> string \<times> string" where
  "filter_code f = (qf_column f, op_sql (qf_op f), qf_value f)"

definition spec_code :: "query_spec \<Rightarrow> (string \<times> (string \<times> string \<times> string) list \<times> (string \<times> bool) list) \<times> nat \<times> string option \<times> bool \<times> bool \<times> bool" where
  "spec_code s = ((sp_table s, map filter_code (sp_filters s), map (\<lambda>q. (qs_column q, qs_dir q = Asc)) (sp_sort s)), sp_first s, sp_after s,
     sp_include_tx s, sp_include_receipt s, sp_descending s)"

definition numbering_codec :: json_codec where
  "numbering_codec = \<lparr>jc_spec = (\<lambda>s. Some (show_nat (to_nat (spec_code s)))),
     jc_count = (\<lambda>(t, fs). Some (show_nat (to_nat (t, map filter_code fs))))\<rparr>"

lemma inj_filter_code: "inj filter_code"
proof (rule injI)
  fix f g :: qfilter assume "filter_code f = filter_code g"
  moreover have "op_sql (qf_op f) = op_sql (qf_op g) \<Longrightarrow> qf_op f = qf_op g" by (cases "qf_op f"; cases "qf_op g") simp_all
  ultimately show "f = g" by (cases f, cases g) (auto simp: filter_code_def)
qed

lemma inj_spec_code: "inj spec_code"
proof (rule injI)
  fix a b :: query_spec assume ab: "spec_code a = spec_code b"
  have "inj (\<lambda>q :: qsort. (qs_column q, qs_dir q = Asc))"
  proof (rule injI)
    fix p q :: qsort assume "(qs_column p, qs_dir p = Asc) = (qs_column q, qs_dir q = Asc)"
    then show "p = q" by (cases p; cases q; cases "qs_dir p"; cases "qs_dir q"; auto)
  qed
  then show "a = b"
    using ab inj_filter_code by (cases a, cases b) (auto simp: spec_code_def inj_map_eq_map)
qed

lemma show_nat_inj: "show_nat a = show_nat b \<Longrightarrow> a = b"
  by (metis option.inject parse_digits_show_nat)

lemma numbering_codec_faithful: "faithful_codec numbering_codec"
proof -
  let ?f = "\<lambda>s. show_nat (to_nat (spec_code s))" and ?g = "\<lambda>(t, fs). show_nat (to_nat (t :: string, map filter_code fs))"
  have "inj ?f" by (rule injI) (use inj_spec_code in \<open>auto dest!: show_nat_inj simp: inj_eq\<close>)
  then have f: "inv ?f (?f spec) = spec" for spec by (rule inv_f_f)
  have "inj ?g" by (rule injI) (use inj_filter_code in \<open>auto dest!: show_nat_inj simp: inj_map_eq_map\<close>)
  then have g: "inv ?g (?g c) = c" for c by (rule inv_f_f)
  have "jc_spec numbering_codec spec = Some (?f spec)" "jc_count numbering_codec c = Some (?g c)" for spec c
    by (simp_all add: numbering_codec_def split: prod.splits)
  then have "map_option (inv ?f) (jc_spec numbering_codec spec) = Some spec \<and> map_option (inv ?g) (jc_count numbering_codec c) = Some c" for spec c
    using f g by (simp only: option.map)
  then show ?thesis unfolding faithful_codec_def by blast
qed

text \<open>Two counts of one filter, with a write to the database between them, and a bad request.\<close>

definition other_page :: query_spec where
  "other_page = (read_spec [chain_one])\<lparr>sp_first := 50\<rparr>"

definition bad_table :: query_spec where
  "bad_table = (read_spec [])\<lparr>sp_table := ''evt-x''\<rparr>"

definition demo_serving :: "(nat \<times> (string \<rightharpoonup> string page \<times> nat), nat \<times> (string \<rightharpoonup> nat \<times> nat), db) serving" where
  "demo_serving = serve plain_moka plain_moka numbering_codec (pg_query_repo read_eval read_tables)
     [AskCount 0 (read_spec [chain_one]), ReadInner 0, InsertRead 0, Tick 3, Written db_empty, AskCount 1 other_page,
      AskQuery 2 bad_table, ReadInner 2] (serving_start plain_moka plain_moka 5 read_db)"

lemma bad_table_query: "query read_eval read_tables bad_table d = (Err (Invalid ''bad table name: evt-x''), d)"
proof -
  have "build_query read_tables bad_table = Err (Invalid ''bad table name: evt-x'')" by code_simp
  then show ?thesis by (simp add: query_def throw_def)
qed

lemma demo_serving_answers:
  "sv_answers demo_serving = [(0, CountAnswer (read_spec [chain_one]) (Ok 2)), (3, CountAnswer other_page (Ok 2)),
     (3, QueryAnswer bad_table (Err (Invalid ''bad table name: evt-x'')))]"
  "sv_spans demo_serving = [(0, 0)]"
proof -
  have "fst (count_query read_eval read_tables (read_spec [chain_one]) read_db) = Ok 2" by code_simp
  then obtain d where d: "count_query read_eval read_tables (read_spec [chain_one]) read_db = (Ok 2, d)" by (metis prod.collapse)
  have k: "count_key numbering_codec other_page = count_key numbering_codec (read_spec [chain_one])"
    by (simp add: count_key_def other_page_def)
  show "sv_answers demo_serving = [(0, CountAnswer (read_spec [chain_one]) (Ok 2)), (3, CountAnswer other_page (Ok 2)),
     (3, QueryAnswer bad_table (Err (Invalid ''bad table name: evt-x'')))]" "sv_spans demo_serving = [(0, 0)]"
    using d k
    by (simp_all add: demo_serving_def serve_def serving_start_def caching_new_def count_lookup_def count_read_def count_insert_def
        query_lookup_def query_read_def plain_moka_def pg_query_repo_def answered_def pending_def read_task_def insert_task_def
        has_read_def has_inserted_def bad_table_query)
qed

theorem cached_answers_are_recent_witness:
  "\<exists>s w. (s, w) \<in> set (sv_reads demo_serving) \<and> gives (pg_query_repo read_eval read_tables) w (CountAnswer other_page (Ok 2))
     \<and> s \<le> 3 \<and> 3 < s + 0 + 5"
  by (rule cached_answers_are_recent[OF plain_moka_ttl plain_moka_ttl _ numbering_codec_faithful demo_serving_def])
    (simp_all add: demo_serving_answers)

theorem cached_errors_are_current_witness:
  "\<exists>w. (3, w) \<in> set (sv_reads demo_serving) \<and> gives (pg_query_repo read_eval read_tables) w (QueryAnswer bad_table (Err (Invalid ''bad table name: evt-x'')))"
  unfolding demo_serving_def
  by (rule cached_errors_are_current[OF plain_moka_ttl plain_moka_ttl _ numbering_codec_faithful])
    (simp_all add: demo_serving_answers flip: demo_serving_def del: One_nat_def)

end
