(* ===== verification/Graphql.thy ===== *)
theory Graphql
  imports Read_Cache
begin

text \<open>
  The GraphQL read API, \<open>crates/api/src/graphql\<close>: the types that the schemas of the tables
  become, the lowering of a query field's arguments to a \<open>QuerySpec\<close>, the resolvers of
  connections and rows.

  Of async_graphql, the argument accessors and the conversion from JSON are parameters, with
  the parser and the printer of serde_json (\<open>gql_lib\<close>); a selection is the predicate that
  \<open>look_ahead\<close> answers. Validation and execution of a request document are the library's.
\<close>

section \<open>Values\<close>

text \<open>\<open>serde_json::Value\<close>; a number is its text.\<close>

datatype jvalue = VNull | VBool bool | VNumber string | VString string | VArray "jvalue list" | VObject "(string \<times> jvalue) list"

text \<open>\<open>async_graphql::Value\<close>.\<close>

datatype gql_value = GqlNull | GqlNumber int | GqlString string | GqlBoolean bool | GqlEnum string
  | GqlList "gql_value list" | GqlObject "(string \<times> gql_value) list"

text \<open>\<open>Value::get\<close> of a key, which is \<open>None\<close> on anything but an object.\<close>

fun json_get :: "jvalue \<Rightarrow> string \<Rightarrow> jvalue option" where
  "json_get (VObject kvs) key = map_of kvs key"
| "json_get _ key = None"

fun is_object :: "jvalue \<Rightarrow> bool" where
  "is_object (VObject _) = True"
| "is_object _ = False"

fun as_bool :: "jvalue \<Rightarrow> bool option" where
  "as_bool (VBool b) = Some b"
| "as_bool _ = None"

record gql_lib =
  gl_i64 :: "gql_value \<Rightarrow> (string, int) res"
  gl_string :: "gql_value \<Rightarrow> (string, string) res"
  gl_enum_name :: "gql_value \<Rightarrow> (string, string) res"
  gl_list :: "gql_value \<Rightarrow> (string, gql_value list) res"
  gl_object :: "gql_value \<Rightarrow> (string, string \<rightharpoonup> gql_value) res"
  gl_missing :: "string \<Rightarrow> string"
  gl_from_json :: "jvalue \<Rightarrow> (string, gql_value) res"
  gl_json_text :: "jvalue \<Rightarrow> string"
  gl_parse_json :: "string \<Rightarrow> jvalue option"

fun domain_error_string :: "domain_error \<Rightarrow> string" where
  "domain_error_string (Source m) = ''source/RPC error: '' @ m"
| "domain_error_string (Storage m) = ''storage error: '' @ m"
| "domain_error_string (Decode m) = ''decode error: '' @ m"
| "domain_error_string (Schema m) = ''schema/migration error: '' @ m"
| "domain_error_string (Config m) = ''config error: '' @ m"
| "domain_error_string (NotFound m) = ''not found: '' @ m"
| "domain_error_string (Invalid m) = ''invalid input: '' @ m"

definition into_gql :: "domain_error \<Rightarrow> string" where
  "into_gql e = domain_error_string e"

section \<open>Type references and scalars\<close>

definition BIG_INT :: string where "BIG_INT = ''BigInt''"
definition JSON_SCALAR :: string where "JSON_SCALAR = ''JSON''"
definition FILTER_INPUT :: string where "FILTER_INPUT = ''FilterInput''"
definition OP_ENUM :: string where "OP_ENUM = ''Op''"
definition ORDER_ENUM :: string where "ORDER_ENUM = ''OrderDir''"

text \<open>The built-in scalars \<open>TypeRef::STRING\<close>, \<open>BOOLEAN\<close>, \<open>INT\<close>.\<close>

definition builtin_types :: "string list" where
  "builtin_types = [''String'', ''Boolean'', ''Int'']"

datatype type_ref = Named string | NonNull type_ref | ListOf type_ref

fun type_name :: "type_ref \<Rightarrow> string" where
  "type_name (Named n) = n"
| "type_name (NonNull t) = type_name t"
| "type_name (ListOf t) = type_name t"

fun scalar_name :: "column_type \<Rightarrow> string" where
  "scalar_name CBool = ''Boolean''"
| "scalar_name (CUInt _) = BIG_INT"
| "scalar_name (CInt _) = BIG_INT"
| "scalar_name CInt64 = BIG_INT"
| "scalar_name CJson = JSON_SCALAR"
| "scalar_name _ = ''String''"

definition column_type_ref :: "column_type \<Rightarrow> bool \<Rightarrow> type_ref" where
  "column_type_ref ty nn = (if nn then NonNull (Named (scalar_name ty)) else Named (scalar_name ty))"

fun to_gql :: "gql_lib \<Rightarrow> column_type \<Rightarrow> jvalue \<Rightarrow> (string, gql_value) res" where
  "to_gql gl CBool v = Ok (GqlBoolean (case as_bool v of None \<Rightarrow> False | Some b \<Rightarrow> b))"
| "to_gql gl CJson v = map_err (\<lambda>e. ''json: '' @ e) (gl_from_json gl v)"
| "to_gql gl ty v = Ok (GqlString (case v of VString s \<Rightarrow> s | _ \<Rightarrow> gl_json_text gl v))"

section \<open>Objects\<close>

text \<open>What a field does when it is selected.\<close>

datatype resolver =
    JsonField string column_type
  | NestedField string
  | NodesField | EndCursorField | HasNextField | TotalCountField
  | QueryField string bool

record field_def =
  fd_name :: string
  fd_type :: type_ref
  fd_args :: "(string \<times> type_ref) list"
  fd_resolver :: resolver

record object_def =
  ob_name :: string
  ob_fields :: "field_def list"

definition json_field :: "string \<Rightarrow> string \<Rightarrow> column_type \<Rightarrow> bool \<Rightarrow> field_def" where
  "json_field name key ty nn = \<lparr>fd_name = name, fd_type = column_type_ref ty nn, fd_args = [], fd_resolver = JsonField key ty\<rparr>"

definition nested_field :: "string \<Rightarrow> string \<Rightarrow> string \<Rightarrow> field_def" where
  "nested_field name tname key = \<lparr>fd_name = name, fd_type = Named tname, fd_args = [], fd_resolver = NestedField key\<rparr>"

definition row_object :: "event_schema \<Rightarrow> bool \<Rightarrow> (string \<Rightarrow> bool) \<Rightarrow> object_def" where
  "row_object s is_event has_type = \<lparr>ob_name = es_table s, ob_fields =
     [json_field ''chain_id'' ''chain_id'' CInt64 True, json_field ''height'' ''height'' CInt64 True,
      json_field ''block_hash'' ''block_hash'' CBytes True, json_field ''block_time'' ''block_time'' CTimestamp False,
      json_field ''tx_id'' ''tx_id'' CBytes True]
     @ (if table_has_idx (es_table s) then [json_field ''idx'' ''idx'' CInt64 True] else [])
     @ map (\<lambda>c. json_field (cd_name c) (cd_name c) (cd_ty c) False) (es_columns s)
     @ (if is_event
        then (if has_type ''transactions'' then [nested_field ''transaction'' ''transactions'' ''transaction''] else [])
           @ (if has_type ''receipts'' then [nested_field ''receipt'' ''receipts'' ''receipt''] else [])
        else [])\<rparr>"

definition conn_name :: "string \<Rightarrow> string" where
  "conn_name table = table @ ''_connection''"

definition conn_field :: "string \<Rightarrow> type_ref \<Rightarrow> resolver \<Rightarrow> field_def" where
  "conn_field name ty r = \<lparr>fd_name = name, fd_type = ty, fd_args = [], fd_resolver = r\<rparr>"

definition connection_object :: "string \<Rightarrow> object_def" where
  "connection_object table = \<lparr>ob_name = conn_name table, ob_fields =
     [conn_field ''nodes'' (NonNull (ListOf (NonNull (Named table)))) NodesField,
      conn_field ''endCursor'' (Named ''String'') EndCursorField,
      conn_field ''hasNext'' (NonNull (Named ''Boolean'')) HasNextField,
      conn_field ''totalCount'' (Named BIG_INT) TotalCountField]\<rparr>"

definition query_field :: "string \<Rightarrow> bool \<Rightarrow> field_def" where
  "query_field table is_event = \<lparr>fd_name = table, fd_type = Named (conn_name table),
     fd_args = [(''first'', Named ''Int''), (''after'', Named ''String''), (''chainId'', Named ''Int''), (''fromHeight'', Named ''Int''),
       (''toHeight'', Named ''Int''), (''orderBy'', Named ORDER_ENUM), (''where'', ListOf (NonNull (Named FILTER_INPUT)))],
     fd_resolver = QueryField table is_event\<rparr>"

definition op_enum :: "string \<times> string list" where
  "op_enum = (OP_ENUM, [''EQ'', ''NE'', ''GT'', ''GTE'', ''LT'', ''LTE''])"

definition order_enum :: "string \<times> string list" where
  "order_enum = (ORDER_ENUM, [''ASC'', ''DESC''])"

definition filter_input :: "string \<times> (string \<times> type_ref) list" where
  "filter_input = (FILTER_INPUT, [(''column'', NonNull (Named ''String'')), (''op'', Named OP_ENUM), (''value'', NonNull (Named ''String''))])"

section \<open>The schema\<close>

text \<open>What is registered, in order, and the limits.\<close>

record gql_schema =
  gs_scalars :: "string list"
  gs_enums :: "(string \<times> string list) list"
  gs_inputs :: "(string \<times> (string \<times> type_ref) list) list"
  gs_objects :: "object_def list"
  gs_query :: object_def
  gs_max_complexity :: nat
  gs_max_depth :: nat

definition register_table :: "(string \<Rightarrow> bool) \<Rightarrow> event_schema \<Rightarrow> object_def list \<times> field_def list \<Rightarrow> object_def list \<times> field_def list" where
  "register_table has_type s acc = (case acc of (objects, qfields) \<Rightarrow>
     let is_event = es_topic0 s \<noteq> None; objects = objects @ [row_object s is_event has_type]
     in if table_has_idx (es_table s)
        then (objects @ [connection_object (es_table s)], qfields @ [query_field (es_table s) is_event])
        else (objects, qfields))"

definition build_schema :: "event_schema list \<Rightarrow> nat \<Rightarrow> nat \<Rightarrow> gql_schema" where
  "build_schema schemas max_complexity max_depth =
     (let has_type = (\<lambda>t. list_ex (\<lambda>s. es_table s = t) schemas);
          (objects, qfields) = fold (register_table has_type) schemas ([], [])
      in \<lparr>gs_scalars = [BIG_INT, JSON_SCALAR], gs_enums = [op_enum, order_enum], gs_inputs = [filter_input], gs_objects = objects,
          gs_query = \<lparr>ob_name = ''Query'', ob_fields = qfields\<rparr>, gs_max_complexity = max_complexity, gs_max_depth = max_depth\<rparr>)"

section \<open>The query field\<close>

definition parse_op :: "string \<Rightarrow> filter_op" where
  "parse_op s = (if s = ''NE'' then OpNe else if s = ''GT'' then OpGt else if s = ''GTE'' then OpGte
     else if s = ''LT'' then OpLt else if s = ''LTE'' then OpLte else OpEq)"

definition eq_filter :: "string \<Rightarrow> filter_op \<Rightarrow> int \<Rightarrow> qfilter" where
  "eq_filter column op value = \<lparr>qf_column = column, qf_op = op, qf_value = show_int value\<rparr>"

text \<open>The cast \<open>as u32\<close>.\<close>

definition as_u32 :: "int \<Rightarrow> nat" where
  "as_u32 i = nat (i mod 2 ^ 32)"

type_synonym gql_args = "string \<rightharpoonup> gql_value"

definition arg_first :: "gql_lib \<Rightarrow> gql_args \<Rightarrow> (string, nat) res" where
  "arg_first gl args = map_ok (\<lambda>i. as_u32 (max i 1)) (case args ''first'' of None \<Rightarrow> Ok 100 | Some v \<Rightarrow> gl_i64 gl v)"

definition arg_after :: "gql_lib \<Rightarrow> gql_args \<Rightarrow> (string, string option) res" where
  "arg_after gl args = (case args ''after'' of None \<Rightarrow> Ok None | Some v \<Rightarrow> map_ok Some (gl_string gl v))"

definition arg_descending :: "gql_lib \<Rightarrow> gql_args \<Rightarrow> (string, bool) res" where
  "arg_descending gl args = (case args ''orderBy'' of None \<Rightarrow> Ok False | Some v \<Rightarrow> map_ok (\<lambda>n. n = ''DESC'') (gl_enum_name gl v))"

text \<open>A typed shortcut argument pushes one filter.\<close>

definition arg_shortcut :: "gql_lib \<Rightarrow> gql_args \<Rightarrow> string \<Rightarrow> string \<Rightarrow> filter_op \<Rightarrow> qfilter list \<Rightarrow> (string, qfilter list) res" where
  "arg_shortcut gl args arg column op filters = (case args arg of
     None \<Rightarrow> Ok filters
   | Some v \<Rightarrow> map_ok (\<lambda>i. filters @ [eq_filter column op i]) (gl_i64 gl v))"

definition try_get :: "gql_lib \<Rightarrow> (string \<rightharpoonup> gql_value) \<Rightarrow> string \<Rightarrow> (string, gql_value) res" where
  "try_get gl obj key = (case obj key of None \<Rightarrow> Err (gl_missing gl key) | Some v \<Rightarrow> Ok v)"

definition where_item :: "gql_lib \<Rightarrow> gql_value \<Rightarrow> (string, qfilter) res" where
  "where_item gl item =
     and_then (gl_object gl item) (\<lambda>obj.
     and_then (and_then (try_get gl obj ''column'') (gl_string gl)) (\<lambda>column.
     and_then (and_then (try_get gl obj ''value'') (gl_string gl)) (\<lambda>value.
     and_then (case obj ''op'' of None \<Rightarrow> Ok OpEq | Some v \<Rightarrow> map_ok parse_op (gl_enum_name gl v)) (\<lambda>op.
     Ok \<lparr>qf_column = column, qf_op = op, qf_value = value\<rparr>))))"

fun where_items :: "gql_lib \<Rightarrow> gql_value list \<Rightarrow> qfilter list \<Rightarrow> (string, qfilter list) res" where
  "where_items gl [] filters = Ok filters"
| "where_items gl (item # items) filters = and_then (where_item gl item) (\<lambda>f. where_items gl items (filters @ [f]))"

definition arg_where :: "gql_lib \<Rightarrow> gql_args \<Rightarrow> qfilter list \<Rightarrow> (string, qfilter list) res" where
  "arg_where gl args filters = (case args ''where'' of
     None \<Rightarrow> Ok filters
   | Some w \<Rightarrow> and_then (gl_list gl w) (\<lambda>items. where_items gl items filters))"

definition arg_filters :: "gql_lib \<Rightarrow> gql_args \<Rightarrow> (string, qfilter list) res" where
  "arg_filters gl args =
     and_then (arg_shortcut gl args ''chainId'' ''chain_id'' OpEq []) (\<lambda>fs.
     and_then (arg_shortcut gl args ''fromHeight'' ''height'' OpGte fs) (\<lambda>fs.
     and_then (arg_shortcut gl args ''toHeight'' ''height'' OpLte fs) (\<lambda>fs.
     arg_where gl args fs)))"

definition query_args :: "gql_lib \<Rightarrow> string \<Rightarrow> bool \<Rightarrow> gql_args \<Rightarrow> (string list \<Rightarrow> bool) \<Rightarrow> (string, query_spec) res" where
  "query_args gl table is_event args look =
     and_then (arg_first gl args) (\<lambda>first.
     and_then (arg_after gl args) (\<lambda>after.
     and_then (arg_descending gl args) (\<lambda>descending.
     and_then (arg_filters gl args) (\<lambda>filters.
     Ok \<lparr>sp_table = table, sp_filters = filters, sp_sort = [], sp_first = first, sp_after = after,
         sp_include_tx = (is_event \<and> look [''nodes'', ''transaction'']),
         sp_include_receipt = (is_event \<and> look [''nodes'', ''receipt'']), sp_descending = descending\<rparr>))))"

record conn_data =
  cn_rows :: "jvalue list"
  cn_end_cursor :: "string option"
  cn_has_next :: bool
  cn_spec :: query_spec

definition row_value :: "gql_lib \<Rightarrow> string \<Rightarrow> jvalue" where
  "row_value gl s = (case gl_parse_json gl s of None \<Rightarrow> VNull | Some v \<Rightarrow> v)"

definition resolve_query :: "gql_lib \<Rightarrow> 's query_repo \<Rightarrow> string \<Rightarrow> bool \<Rightarrow> gql_args \<Rightarrow> (string list \<Rightarrow> bool) \<Rightarrow> ('s, string, conn_data) m" where
  "resolve_query gl reader table is_event args look s = (case query_args gl table is_event args look of
     Ok spec \<Rightarrow> (case qr_query reader spec s of
        (Ok page, s') \<Rightarrow> (Ok \<lparr>cn_rows = map (row_value gl) (pg_items page), cn_end_cursor = pg_end_cursor page,
            cn_has_next = pg_has_next page, cn_spec = spec\<rparr>, s')
      | (Err e, s') \<Rightarrow> (Err (into_gql e), s')
      | (Panic, s') \<Rightarrow> (Panic, s'))
   | Err e \<Rightarrow> (Err e, s)
   | Panic \<Rightarrow> (Panic, s))"

section \<open>Connection and row resolvers\<close>

definition resolve_total_count :: "'s query_repo \<Rightarrow> conn_data \<Rightarrow> ('s, string, gql_value) m" where
  "resolve_total_count reader conn s = (case qr_count reader (cn_spec conn) s of
     (Ok n, s') \<Rightarrow> (Ok (GqlString (show_nat n)), s')
   | (Err e, s') \<Rightarrow> (Err (into_gql e), s')
   | (Panic, s') \<Rightarrow> (Panic, s'))"

definition resolve_end_cursor :: "conn_data \<Rightarrow> gql_value option" where
  "resolve_end_cursor conn = map_option GqlString (cn_end_cursor conn)"

definition resolve_has_next :: "conn_data \<Rightarrow> gql_value" where
  "resolve_has_next conn = GqlBoolean (cn_has_next conn)"

definition resolve_nodes :: "conn_data \<Rightarrow> jvalue list" where
  "resolve_nodes conn = cn_rows conn"

definition resolve_json_field :: "gql_lib \<Rightarrow> string \<Rightarrow> column_type \<Rightarrow> jvalue \<Rightarrow> (string, gql_value option) res" where
  "resolve_json_field gl key ty parent = (case json_get parent key of
     None \<Rightarrow> Ok None
   | Some VNull \<Rightarrow> Ok None
   | Some v \<Rightarrow> map_ok Some (to_gql gl ty v))"

definition resolve_nested_field :: "string \<Rightarrow> jvalue \<Rightarrow> jvalue option" where
  "resolve_nested_field key parent = (case json_get parent key of
     Some v \<Rightarrow> if is_object v then Some v else None
   | None \<Rightarrow> None)"

section \<open>The schema is closed\<close>

definition field_types :: "field_def \<Rightarrow> string list" where
  "field_types f = type_name (fd_type f) # map (type_name \<circ> snd) (fd_args f)"

definition referenced_types :: "gql_schema \<Rightarrow> string list" where
  "referenced_types gs = concat (map field_types (concat (map ob_fields (gs_objects gs @ [gs_query gs]))))
     @ concat (map (map (type_name \<circ> snd) \<circ> snd) (gs_inputs gs))"

definition registered_types :: "gql_schema \<Rightarrow> string list" where
  "registered_types gs = builtin_types @ gs_scalars gs @ map fst (gs_enums gs) @ map fst (gs_inputs gs) @ map ob_name (gs_objects gs @ [gs_query gs])"

definition queryable :: "event_schema list \<Rightarrow> event_schema list" where
  "queryable schemas = filter (\<lambda>s. table_has_idx (es_table s)) schemas"

definition table_objects :: "(string \<Rightarrow> bool) \<Rightarrow> event_schema \<Rightarrow> object_def list" where
  "table_objects has_type s = row_object s (es_topic0 s \<noteq> None) has_type
     # (if table_has_idx (es_table s) then [connection_object (es_table s)] else [])"

lemma fold_register_table:
  "fold (register_table has_type) schemas (objects, qfields) =
     (objects @ concat (map (table_objects has_type) schemas),
      qfields @ map (\<lambda>s. query_field (es_table s) (es_topic0 s \<noteq> None)) (queryable schemas))"
  by (induction schemas arbitrary: objects qfields) (simp_all add: register_table_def table_objects_def queryable_def Let_def)

lemma build_schema_objects:
  "gs_objects (build_schema schemas mc md) = concat (map (table_objects (\<lambda>t. list_ex (\<lambda>s. es_table s = t) schemas)) schemas)"
  "gs_query (build_schema schemas mc md) =
     \<lparr>ob_name = ''Query'', ob_fields = map (\<lambda>s. query_field (es_table s) (es_topic0 s \<noteq> None)) (queryable schemas)\<rparr>"
  by (simp_all add: build_schema_def Let_def fold_register_table)

lemma scalar_name_registered: "scalar_name ty \<in> {''String'', ''Boolean'', BIG_INT, JSON_SCALAR}"
  by (cases ty) simp_all

lemma json_field_types: "t \<in> set (field_types (json_field n k ty nn)) \<Longrightarrow> t \<in> {''String'', ''Boolean'', BIG_INT, JSON_SCALAR}"
  using scalar_name_registered[of ty] by (auto simp: json_field_def column_type_ref_def field_types_def split: if_splits)

lemma registered_objects:
  "ob_name ` set (gs_objects (build_schema schemas mc md)) = es_table ` set schemas \<union> (conn_name \<circ> es_table) ` set (queryable schemas)"
proof -
  have "ob_name ` set (table_objects has s) = insert (es_table s) (if table_has_idx (es_table s) then {conn_name (es_table s)} else {})" for has s
    by (simp add: table_objects_def row_object_def connection_object_def)
  then show ?thesis by (auto simp: build_schema_objects image_UN queryable_def split: if_splits)
qed

lemma row_object_types:
  assumes "f \<in> set (ob_fields (row_object s ev has_type))" "t \<in> set (field_types f)"
  shows "t \<in> {''String'', ''Boolean'', BIG_INT, JSON_SCALAR} \<or> (t \<in> {''transactions'', ''receipts''} \<and> has_type t)"
proof -
  consider n k ty nn where "f = json_field n k ty nn" | "f = nested_field ''transaction'' ''transactions'' ''transaction''" "has_type ''transactions''"
    | "f = nested_field ''receipt'' ''receipts'' ''receipt''" "has_type ''receipts''"
    using assms(1) by (auto simp: row_object_def split: if_splits)
  then show ?thesis
  proof cases
    case 1
    then show ?thesis using json_field_types assms(2) by blast
  qed (use assms(2) in \<open>auto simp: nested_field_def field_types_def\<close>)
qed

lemma connection_object_types:
  "\<lbrakk>f \<in> set (ob_fields (connection_object table)); t \<in> set (field_types f)\<rbrakk> \<Longrightarrow> t \<in> {''String'', ''Boolean'', BIG_INT, table}"
  by (auto simp: connection_object_def conn_field_def field_types_def)

lemma query_field_types:
  "t \<in> set (field_types (query_field table ev)) \<Longrightarrow> t \<in> {''Int'', ''String'', ORDER_ENUM, FILTER_INPUT, conn_name table}"
  by (auto simp: query_field_def field_types_def)

text \<open>
  C24. The served GraphQL schema is closed and complete: every type that a field, an argument or an
  input names is built in or registered, for any list of table schemas; and the query root
  has one field per table with a block position, in order, and none for receipts.
\<close>

theorem graphql_schema_closed:
  "set (referenced_types (build_schema schemas mc md)) \<subseteq> set (registered_types (build_schema schemas mc md))
   \<and> map fd_name (ob_fields (gs_query (build_schema schemas mc md))) = filter table_has_idx (map es_table schemas)"
proof
  let ?gs = "build_schema schemas mc md" and ?has = "\<lambda>t. list_ex (\<lambda>s. es_table s = t) schemas"
  have base: "{''String'', ''Boolean'', ''Int'', BIG_INT, JSON_SCALAR, ORDER_ENUM, OP_ENUM, FILTER_INPUT} \<subseteq> set (registered_types ?gs)"
    by (auto simp: registered_types_def builtin_types_def build_schema_def Let_def fold_register_table op_enum_def order_enum_def filter_input_def)
  have objs: "es_table ` set schemas \<union> (conn_name \<circ> es_table) ` set (queryable schemas) \<subseteq> set (registered_types ?gs)"
    using registered_objects[of schemas mc md] by (auto simp: registered_types_def)
  then have tbl: "es_table s \<in> set (registered_types ?gs)" if "s \<in> set schemas" for s using that by auto
  have conn: "conn_name (es_table s) \<in> set (registered_types ?gs)" if "s \<in> set (queryable schemas)" for s
    using objs that by auto
  have has: "t \<in> set (registered_types ?gs)" if "?has t" for t using that tbl by (auto simp: list_ex_iff)
  have obj: "t \<in> set (registered_types ?gs)" if o: "ob \<in> set (gs_objects ?gs)" "f \<in> set (ob_fields ob)" "t \<in> set (field_types f)" for ob f t
  proof -
    obtain s where s: "s \<in> set schemas" "ob \<in> set (table_objects ?has s)" using o(1) by (auto simp: build_schema_objects)
    then consider "ob = row_object s (es_topic0 s \<noteq> None) ?has" | "ob = connection_object (es_table s)"
      by (auto simp: table_objects_def split: if_splits)
    then show ?thesis
    proof cases
      case 1
      with row_object_types o(2,3) has base show ?thesis by fastforce
    next
      case 2
      with connection_object_types o(2,3) tbl[OF s(1)] base show ?thesis by fastforce
    qed
  qed
  have qry: "t \<in> set (registered_types ?gs)" if "f \<in> set (ob_fields (gs_query ?gs))" "t \<in> set (field_types f)" for f t
    using that query_field_types conn base by (fastforce simp: build_schema_objects)
  have inp: "t \<in> set (registered_types ?gs)" if "t \<in> set (concat (map (map (type_name \<circ> snd) \<circ> snd) (gs_inputs ?gs)))" for t
    using that base by (auto simp: build_schema_def Let_def fold_register_table filter_input_def)
  show "set (referenced_types ?gs) \<subseteq> set (registered_types ?gs)"
    using obj qry inp unfolding referenced_types_def by fastforce
  show "map fd_name (ob_fields (gs_query ?gs)) = filter table_has_idx (map es_table schemas)"
    by (simp add: build_schema_objects queryable_def query_field_def filter_map comp_def)
qed

section \<open>Names of fields\<close>

definition injected_names :: "event_schema \<Rightarrow> bool \<Rightarrow> (string \<Rightarrow> bool) \<Rightarrow> string list" where
  "injected_names s is_event has_type = [''chain_id'', ''height'', ''block_hash'', ''block_time'', ''tx_id'']
     @ (if table_has_idx (es_table s) then [''idx''] else [])
     @ (if is_event \<and> has_type ''transactions'' then [''transaction''] else []) @ (if is_event \<and> has_type ''receipts'' then [''receipt''] else [])"

text \<open>The fields of a row type have distinct names exactly when no decoded column repeats and
  none has the name of a position column or of a join.\<close>

lemma row_object_distinct:
  "distinct (map fd_name (ob_fields (row_object s is_event has_type))) \<longleftrightarrow>
     distinct (map cd_name (es_columns s)) \<and> set (map cd_name (es_columns s)) \<inter> set (injected_names s is_event has_type) = {}"
proof -
  define pre where "pre = [''chain_id'', ''height'', ''block_hash'', ''block_time'', ''tx_id''] @ (if table_has_idx (es_table s) then [''idx''] else [])"
  define post where "post = (if is_event \<and> has_type ''transactions'' then [''transaction''] else []) @ (if is_event \<and> has_type ''receipts'' then [''receipt''] else [])"
  have f: "fd_name \<circ> (\<lambda>c. json_field (cd_name c) (cd_name c) (cd_ty c) False) = cd_name"
    by (simp add: fun_eq_iff json_field_def)
  have n: "fd_name (json_field a b ty nn) = a" "fd_name (nested_field a t b) = a" for a b ty nn t
    by (simp_all add: json_field_def nested_field_def)
  have "map fd_name (ob_fields (row_object s is_event has_type)) = pre @ map cd_name (es_columns s) @ post"
    by (simp add: row_object_def pre_def post_def n f)
  moreover have "injected_names s is_event has_type = pre @ post" by (simp add: injected_names_def pre_def post_def)
  moreover have "distinct (pre @ post)" by (simp add: pre_def post_def)
  ultimately show ?thesis by auto
qed

text \<open>An event with a parameter called \<open>transaction\<close> has a column of the name of its join.\<close>

lemma event_column_clashes_with_join:
  assumes "has_type ''transactions''"
  shows "\<not> distinct (map fd_name (ob_fields (row_object
     (schema_for selector \<lparr>ev_name = ''Executed'', ev_inputs = [\<lparr>ep_name = ''transaction'', ep_ty = ''bytes32'', ep_indexed = False\<rparr>]\<rparr> table)
     True has_type)))"
proof -
  have "to_snake_case ''transaction'' = ''transaction''" by code_simp
  then show ?thesis
    using assms
    unfolding row_object_distinct
    by (simp add: schema_for_def injected_names_def event_column_def col_name_def Let_def dynamic_type_def ends_with_char_def)
qed

section \<open>Rendered values\<close>

text \<open>A rendered value has the scalar type that its field declares.\<close>

fun fits_scalar :: "string \<Rightarrow> gql_value \<Rightarrow> bool" where
  "fits_scalar name (GqlBoolean _) \<longleftrightarrow> name \<in> {''Boolean'', JSON_SCALAR}"
| "fits_scalar name (GqlString _) \<longleftrightarrow> name \<in> {''String'', BIG_INT, JSON_SCALAR}"
| "fits_scalar name _ \<longleftrightarrow> name = JSON_SCALAR"

lemma resolve_json_field_fits:
  assumes "resolve_json_field gl key ty parent = Ok (Some g)"
  shows "fits_scalar (type_name (fd_type (json_field name key ty nn))) g"
proof -
  have "to_gql gl ty v = Ok g \<Longrightarrow> fits_scalar (scalar_name ty) g" for v
    by (cases ty) (auto, cases g, auto)
  moreover obtain v where "to_gql gl ty v = Ok g"
    using assms by (auto simp: resolve_json_field_def map_ok_Ok split: option.splits jvalue.splits)
  ultimately show ?thesis by (simp add: json_field_def column_type_ref_def)
qed

section \<open>Arguments\<close>

text \<open>The shortcut arguments that are given, with their values.\<close>

definition shortcut :: "gql_lib \<Rightarrow> gql_args \<Rightarrow> string \<Rightarrow> int \<Rightarrow> bool" where
  "shortcut gl args arg i \<longleftrightarrow> (\<exists>v. args arg = Some v \<and> gl_i64 gl v = Ok i)"

lemma arg_shortcut_Ok:
  assumes "arg_shortcut gl args arg column op fs = Ok fs'"
  shows "set fs \<subseteq> set fs'" "shortcut gl args arg i \<Longrightarrow> eq_filter column op i \<in> set fs'"
  using assms by (auto simp: arg_shortcut_def shortcut_def map_ok_Ok split: option.splits)

lemma where_items_mono: "where_items gl items fs = Ok fs' \<Longrightarrow> set fs \<subseteq> set fs'"
  by (induction items arbitrary: fs) (auto simp: and_then_Ok, fastforce)

lemma arg_filters_Ok:
  assumes "arg_filters gl args = Ok fs"
  shows "shortcut gl args ''chainId'' i \<Longrightarrow> eq_filter ''chain_id'' OpEq i \<in> set fs"
    and "shortcut gl args ''fromHeight'' i \<Longrightarrow> eq_filter ''height'' OpGte i \<in> set fs"
    and "shortcut gl args ''toHeight'' i \<Longrightarrow> eq_filter ''height'' OpLte i \<in> set fs"
proof -
  obtain f1 f2 f3 where f: "arg_shortcut gl args ''chainId'' ''chain_id'' OpEq [] = Ok f1"
    "arg_shortcut gl args ''fromHeight'' ''height'' OpGte f1 = Ok f2" "arg_shortcut gl args ''toHeight'' ''height'' OpLte f2 = Ok f3"
    "arg_where gl args f3 = Ok fs"
    using assms by (auto simp: arg_filters_def and_then_Ok)
  have w: "set f3 \<subseteq> set fs" using f(4) where_items_mono by (fastforce simp: arg_where_def and_then_Ok split: option.splits)
  show "shortcut gl args ''chainId'' i \<Longrightarrow> eq_filter ''chain_id'' OpEq i \<in> set fs"
    "shortcut gl args ''fromHeight'' i \<Longrightarrow> eq_filter ''height'' OpGte i \<in> set fs"
    "shortcut gl args ''toHeight'' i \<Longrightarrow> eq_filter ''height'' OpLte i \<in> set fs"
    using arg_shortcut_Ok(2)[OF f(1), of i] arg_shortcut_Ok(1)[OF f(2)] arg_shortcut_Ok(2)[OF f(2), of i]
      arg_shortcut_Ok(1)[OF f(3)] arg_shortcut_Ok(2)[OF f(3), of i] w by blast+
qed

lemma query_args_Ok:
  assumes "query_args gl table ev args look = Ok spec"
  shows "sp_table spec = table" "arg_filters gl args = Ok (sp_filters spec)" "arg_after gl args = Ok (sp_after spec)"
    "arg_first gl args = Ok (sp_first spec)" "arg_descending gl args = Ok (sp_descending spec)"
  using assms by (auto simp: query_args_def and_then_Ok)

text \<open>Only the cursor of the query depends on the argument \<open>after\<close>.\<close>

lemma query_args_after:
  assumes "query_args gl table ev args look = Ok spec" "gl_string gl (GqlString c) = Ok c"
  shows "query_args gl table ev (args(''after'' \<mapsto> GqlString c)) look = Ok (spec\<lparr>sp_after := Some c\<rparr>)"
proof -
  have "arg_first gl (args(''after'' \<mapsto> GqlString c)) = arg_first gl args" "arg_descending gl (args(''after'' \<mapsto> GqlString c)) = arg_descending gl args"
    "arg_filters gl (args(''after'' \<mapsto> GqlString c)) = arg_filters gl args" "arg_after gl (args(''after'' \<mapsto> GqlString c)) = Ok (Some c)"
    using assms(2) by (simp_all add: arg_first_def arg_descending_def arg_filters_def arg_shortcut_def arg_where_def arg_after_def)
  then show ?thesis using assms(1) by (auto simp: query_args_def and_then_Ok)
qed

text \<open>A filter on an integer meta column that the arguments produce means its comparison.\<close>

lemma eq_filter_holds:
  assumes "build_filters tbls table fs = Ok (conds, binds)" "eq_filter column op i \<in> set fs" "column \<in> {''chain_id'', ''height''}" "in_i64 i"
    and "list_all (cond_holds pe binds r) conds"
  shows "int_cmp op (if column = ''chain_id'' then tr_chain_id r else tr_height r) i"
proof -
  obtain k where k: "k < length fs" "fs ! k = eq_filter column op i" using assms(2) by (auto simp: in_set_conv_nth)
  have "conds ! k = FilterCond column op (k + 1) (cast_suffix CInt64)" "binds ! k = BInt i"
    using build_filters_Ok(3)[OF assms(1) k(1)] k(2) assms(3,4)
    by (auto simp: bound_filter_def col_type_def meta_col_type_def eq_filter_def in_i64_def parse_i64_show_int)
  moreover have "cond_holds pe binds r (conds ! k)"
    using assms(5) k(1) build_filters_Ok(1)[OF assms(1)] by (simp add: list_all_length)
  ultimately show ?thesis using assms(3) by (auto simp: compare_column_def)
qed

section \<open>Rows\<close>

lemma left_join_from: "(r, j) \<in> set (left_join d aux rows) \<Longrightarrow> \<exists>j'. (r, j') \<in> set rows"
  by (auto simp: left_join_def Let_def split: if_splits)

lemma fold_left_join_from: "(r, j) \<in> set (fold (\<lambda>(_, aux, _). left_join d aux) joins rows) \<Longrightarrow> \<exists>j'. (r, j') \<in> set rows"
  by (induction joins arbitrary: rows j) (auto, meson left_join_from)

lemma joined_rows_from: "(r, j) \<in> set (joined_rows d q) \<Longrightarrow> r \<in> set (table_rows d (sq_table q))"
  by (auto simp: joined_rows_def dest!: fold_left_join_from)

lemma select_rows_hits:
  assumes "\<forall>xs. mset (pe_scan pe xs) = mset xs" "(r, j) \<in> set (select_rows pe q binds d)"
  shows "r \<in> set (table_rows d (sq_table q))" "list_all (cond_holds pe binds r) (sq_conds q)"
proof -
  let ?hits = "filter (\<lambda>(r, _). list_all (cond_holds pe binds r) (sq_conds q)) (joined_rows d q)"
  have "set (pe_scan pe ?hits) = set ?hits" using assms(1) by (metis set_mset_mset)
  then have "(r, j) \<in> set ?hits"
    using assms(2) by (auto simp: select_rows_def Let_def split: if_splits dest!: in_set_takeD)
  then show "r \<in> set (table_rows d (sq_table q))" "list_all (cond_holds pe binds r) (sq_conds q)"
    by (auto intro: joined_rows_from)
qed

lemma select_rows_faults [simp]: "select_rows pe q binds (d\<lparr>faults := fs\<rparr>) = select_rows pe q binds d"
proof -
  have "left_join (d\<lparr>faults := fs\<rparr>) = left_join d" "table_rows (d\<lparr>faults := fs\<rparr>) = table_rows d"
    by (simp_all add: left_join_def table_rows_def fun_eq_iff)
  then show ?thesis by (simp add: select_rows_def joined_rows_def)
qed

lemma page_of_items: "page_of n rows = Returns p \<Longrightarrow> pg_items p = map fst (take n rows)"
  by (auto simp: page_of_def Let_def split: if_splits)

text \<open>A page of the Postgres repository holds the text of its rows.\<close>

lemma query_Ok_rows:
  assumes "query pe tbls spec d = (Ok page, d')"
  obtains q binds where "build_query tbls spec = Ok (q, binds)"
    "pg_items page = map (\<lambda>(r, j). pe_text pe (sq_row q) r j) (take (page_size spec) (select_rows pe q binds d))"
proof -
  obtain q binds where b: "build_query tbls spec = Ok (q, binds)"
    using assms by (cases "build_query tbls spec") (auto simp: query_def throw_def)
  have "page_of (page_size spec) (map (\<lambda>(r, j). (pe_text pe (sq_row q) r j, tr_height r, tr_idx r)) (select_rows pe q binds d)) = Returns page"
    using assms b
    by (auto simp: query_def bind_def ret_def query_result_def stmt_def Let_def
        split: list.splits option.splits if_splits sum.splits prod.splits res.splits outcome.splits)
  from page_of_items[OF this] show thesis using that b by (simp add: take_map comp_def case_prod_unfold)
qed

text \<open>
  The arguments of a query field mean what they say. When a field of the API answers, its
  nodes are the values of stored rows of the table, at most as many as \<open>first\<close> asks for
  and never more than a thousand, and each row is of the chain \<open>chainId\<close>, not below
  \<open>fromHeight\<close> and not above \<open>toHeight\<close>, whichever of the arguments are given.
\<close>

theorem graphql_rows_match_arguments:
  assumes "resolve_query gl (pg_query_repo pe tbls) table ev args look d = (Ok conn, d')"
    and "\<forall>v i. gl_i64 gl v = Ok i \<longrightarrow> in_i64 i" and "\<forall>xs. mset (pe_scan pe xs) = mset xs"
  shows "\<exists>q binds rows. build_query tbls (cn_spec conn) = Ok (q, binds)
     \<and> cn_rows conn = map (\<lambda>(r, j). row_value gl (pe_text pe (sq_row q) r j)) rows
     \<and> length rows \<le> min (max (sp_first (cn_spec conn)) 1) 1000
     \<and> (\<forall>(r, j) \<in> set rows. r \<in> set (table_rows d table)
          \<and> (\<forall>i. shortcut gl args ''chainId'' i \<longrightarrow> tr_chain_id r = i)
          \<and> (\<forall>i. shortcut gl args ''fromHeight'' i \<longrightarrow> i \<le> tr_height r)
          \<and> (\<forall>i. shortcut gl args ''toHeight'' i \<longrightarrow> tr_height r \<le> i))"
proof -
  obtain spec page where sp: "query_args gl table ev args look = Ok spec" "query pe tbls spec d = (Ok page, d')"
    "cn_spec conn = spec" "cn_rows conn = map (row_value gl) (pg_items page)"
    using assms(1) by (auto simp: resolve_query_def pg_query_repo_def split: res.splits prod.splits)
  obtain q binds where b: "build_query tbls spec = Ok (q, binds)"
    "pg_items page = map (\<lambda>(r, j). pe_text pe (sq_row q) r j) (take (page_size spec) (select_rows pe q binds d))"
    by (rule query_Ok_rows[OF sp(2)])
  obtain conds fb where f: "build_filters tbls (sp_table spec) (sp_filters spec) = Ok (conds, fb)" "sq_table q = sp_table spec"
    "case sp_after spec of None \<Rightarrow> sq_conds q = conds \<and> binds = fb
       | Some c \<Rightarrow> \<exists>h i. parse_cursor c = Ok (h, i) \<and> sq_conds q = conds @ [KeysetCond (sp_descending spec) (length fb + 1)]
           \<and> binds = fb @ [BInt h, BInt i]"
    by (rule build_query_Ok[OF b(1)])
  have conds: "list_all (cond_holds pe fb r) conds" if "list_all (cond_holds pe binds r) (sq_conds q)" for r
    using that f(3) filter_cond_binds_app[OF f(1)] by (auto split: option.splits)
  have meta: "int_cmp op (if col = ''chain_id'' then tr_chain_id r else tr_height r) i"
    if "(r, j) \<in> set (take (page_size spec) (select_rows pe q binds d))" "eq_filter col op i \<in> set (sp_filters spec)"
      "col \<in> {''chain_id'', ''height''}" "in_i64 i" for r j col op i
    using eq_filter_holds[OF f(1) that(2-4)] conds select_rows_hits(2)[OF assms(3)] in_set_takeD[OF that(1)] by blast
  have i64: "in_i64 i" if "shortcut gl args a i" for a i using that assms(2) by (auto simp: shortcut_def)
  note fs = arg_filters_Ok[OF query_args_Ok(2)[OF sp(1)]]
  have row: "r \<in> set (table_rows d table) \<and> (\<forall>i. shortcut gl args ''chainId'' i \<longrightarrow> tr_chain_id r = i)
      \<and> (\<forall>i. shortcut gl args ''fromHeight'' i \<longrightarrow> i \<le> tr_height r) \<and> (\<forall>i. shortcut gl args ''toHeight'' i \<longrightarrow> tr_height r \<le> i)"
    if rj: "(r, j) \<in> set (take (page_size spec) (select_rows pe q binds d))" for r j
    using select_rows_hits(1)[OF assms(3) in_set_takeD[OF rj]] f(2) query_args_Ok(1)[OF sp(1)] meta[OF rj fs(1)] meta[OF rj fs(2)] meta[OF rj fs(3)] i64 by auto
  show ?thesis
    by (intro exI[of _ q] exI[of _ binds] exI[of _ "take (page_size spec) (select_rows pe q binds d)"])
      (use b sp row in \<open>auto simp: page_size_def comp_def case_prod_unfold\<close>)
qed

section \<open>A client that follows the cursors\<close>

text \<open>The client repeats its request with the \<open>endCursor\<close> of the last page as \<open>after\<close>.\<close>

fun read_connections :: "nat \<Rightarrow> gql_lib \<Rightarrow> 's query_repo \<Rightarrow> string \<Rightarrow> bool \<Rightarrow> gql_args \<Rightarrow> (string list \<Rightarrow> bool) \<Rightarrow> 's \<Rightarrow> jvalue list option" where
  "read_connections 0 gl reader table ev args look s = None"
| "read_connections (Suc n) gl reader table ev args look s = (case resolve_query gl reader table ev args look s of
     (Ok conn, s') \<Rightarrow> (case resolve_end_cursor conn of
         None \<Rightarrow> Some (resolve_nodes conn)
       | Some c \<Rightarrow> map_option ((@) (resolve_nodes conn)) (read_connections n gl reader table ev (args(''after'' \<mapsto> c)) look s'))
   | _ \<Rightarrow> None)"

lemma read_connections_pages:
  assumes "\<forall>c. gl_string gl (GqlString c) = Ok c"
  shows "query_args gl table ev args look = Ok spec \<Longrightarrow>
     read_connections n gl (pg_query_repo pe tbls) table ev args look d = map_option (map (row_value gl)) (read_pages n pe tbls spec d)"
proof (induction n arbitrary: args spec d)
  case (Suc n)
  obtain res d' where q: "query pe tbls spec d = (res, d')" by (cases "query pe tbls spec d")
  show ?case
  proof (cases res)
    case (Ok page)
    have ih: "read_connections n gl (pg_query_repo pe tbls) table ev (args(''after'' \<mapsto> GqlString c)) look d'
        = map_option (map (row_value gl)) (read_pages n pe tbls (spec\<lparr>sp_after := Some c\<rparr>) d')" for c
      using assms Suc.prems by (intro Suc.IH query_args_after) auto
    show ?thesis
      using Suc.prems q Ok ih
      by (auto simp: resolve_query_def pg_query_repo_def resolve_end_cursor_def resolve_nodes_def option.map_comp comp_def split: option.splits)
  qed (use Suc.prems q in \<open>auto simp: resolve_query_def pg_query_repo_def\<close>)
qed simp

text \<open>
  C23. A client reads everything, once. Take a request on a table of the API that names the chain
  and no cursor, accepted by the repository, against tables with their primary keys. Then
  following \<open>endCursor\<close> returns the value of every row that passes the filters exactly
  once, in the order asked for, whatever the page size; and \<open>totalCount\<close> of the request is
  the number of these rows.
\<close>

theorem graphql_client_reads_everything:
  assumes "query_args gl table ev args look = Ok spec" and "\<forall>c. gl_string gl (GqlString c) = Ok c"
    and "shortcut gl args ''chainId'' chain" and "args ''after'' = None"
    and "build_query tbls spec = Ok (q, binds)" and "faults d = []" and "tables d table \<noteq> None"
    and "\<forall>xs. mset (pe_scan pe xs) = mset xs"
    and "distinct (map (\<lambda>r. (tr_chain_id r, tr_height r, tr_idx r)) (table_rows d table))"
    and "\<forall>r \<in> set (table_rows d table). tr_idx r \<noteq> None \<and> in_i64 (tr_height r) \<and> in_i64 (the (tr_idx r))"
    and "tx_unique d ''transactions''" and "tx_unique d ''receipts''"
    and "length (listing pe tbls spec d) < pages" and "cn_spec conn = spec"
  shows "read_connections pages gl (pg_query_repo pe tbls) table ev args look d = Some (map (row_value gl) (listing pe tbls spec d))
    \<and> resolve_total_count (pg_query_repo pe tbls) conn d = (Ok (GqlString (show_nat (length (listing pe tbls spec d)))), d)"
proof
  note sp = query_args_Ok[OF assms(1)]
  have "eq_filter ''chain_id'' OpEq chain \<in> set (sp_filters spec)" using arg_filters_Ok(1)[OF sp(2) assms(3)] .
  moreover have "sp_after spec = None" using sp(3) assms(4) by (simp add: arg_after_def)
  ultimately have rd: "readable pe tbls spec d q binds"
    using assms(5-12) sp(1) by (intro keyed_readable[where v = "show_int chain"]) (auto simp: eq_filter_def)
  have "read_pages pages pe tbls spec d = Some (listing pe tbls spec d)"
    using read_pages_resume[OF rd, of 0 pages] assms(13) by (simp add: listing_readable[OF rd] resume_def)
  then show "read_connections pages gl (pg_query_repo pe tbls) table ev args look d = Some (map (row_value gl) (listing pe tbls spec d))"
    using read_connections_pages[OF assms(2,1)] by simp
  show "resolve_total_count (pg_query_repo pe tbls) conn d = (Ok (GqlString (show_nat (length (listing pe tbls spec d)))), d)"
    using count_query_listing[OF assms(5,6) _ assms(11,12)] assms(7,14) sp(1) by (simp add: resolve_total_count_def pg_query_repo_def)
qed

section \<open>Instances\<close>

definition sample_lib :: gql_lib where
  "sample_lib = \<lparr>gl_i64 = (\<lambda>v. case v of GqlNumber i \<Rightarrow> if in_i64 i then Ok i else Err ''not an integer'' | _ \<Rightarrow> Err ''not an integer''),
     gl_string = (\<lambda>v. case v of GqlString s \<Rightarrow> Ok s | _ \<Rightarrow> Err ''not a string''),
     gl_enum_name = (\<lambda>v. case v of GqlEnum s \<Rightarrow> Ok s | _ \<Rightarrow> Err ''not an enum''),
     gl_list = (\<lambda>v. case v of GqlList xs \<Rightarrow> Ok xs | _ \<Rightarrow> Err ''not a list''),
     gl_object = (\<lambda>v. case v of GqlObject kvs \<Rightarrow> Ok (map_of kvs) | _ \<Rightarrow> Err ''not an object''),
     gl_missing = (\<lambda>k. ''missing '' @ k), gl_from_json = (\<lambda>v. Err ''unsupported''), gl_json_text = (\<lambda>_. ''?''),
     gl_parse_json = (\<lambda>s. Some (VString s))\<rparr>"

definition sample_args :: gql_args where
  "sample_args = [''first'' \<mapsto> GqlNumber 1, ''chainId'' \<mapsto> GqlNumber 1]"

lemma sample_query_args: "query_args sample_lib ''evt_x'' True sample_args (\<lambda>_. False) = Ok (read_spec [chain_one])"
proof -
  have "show_int 1 = ''1''" by code_simp
  then show ?thesis
    by (simp add: query_args_def arg_first_def arg_after_def arg_descending_def arg_filters_def arg_shortcut_def arg_where_def sample_args_def
        sample_lib_def in_i64_def as_u32_def read_spec_def chain_one_def eq_filter_def)
qed

lemma read_db_rows: "table_rows read_db ''evt_x'' = [read_row 1 5 0, read_row 2 5 0, read_row 1 6 2]"
  "table_rows read_db ''transactions'' = []" "table_rows read_db ''receipts'' = []" "faults read_db = []" "tables read_db ''evt_x'' \<noteq> None"
  by (simp_all add: table_rows_def read_db_def db_empty_def)

lemma sample_simps:
  "row_value sample_lib t = VString t" "gl_string sample_lib (GqlString t) = Ok t" "pe_scan read_eval rows = rows"
  "shortcut sample_lib sample_args ''chainId'' 1" "sample_args ''after'' = None"
  by (simp_all add: row_value_def sample_lib_def read_eval_def shortcut_def sample_args_def in_i64_def)

theorem graphql_client_reads_everything_witness:
  "read_connections 3 sample_lib (pg_query_repo read_eval read_tables) ''evt_x'' True sample_args (\<lambda>_. False) read_db
     = Some [VString ''5'', VString ''6'']"
proof -
  let ?conn = "\<lparr>cn_rows = [], cn_end_cursor = None, cn_has_next = False, cn_spec = read_spec [chain_one]\<rparr>"
  have "read_connections 3 sample_lib (pg_query_repo read_eval read_tables) ''evt_x'' True sample_args (\<lambda>_. False) read_db
      = Some (map (row_value sample_lib) (listing read_eval read_tables (read_spec [chain_one]) read_db))"
  proof (rule conjunct1[OF graphql_client_reads_everything[OF sample_query_args, where conn = ?conn and chain = 1]])
    show "build_query read_tables (read_spec [chain_one]) = Ok (\<lparr>sq_row = row_expr [] [], sq_table = ''evt_x'', sq_joins = [],
        sq_conds = [FilterCond ''chain_id'' OpEq 1 []], sq_descending = False, sq_limit = 2\<rparr>, [BInt 1])" by (rule read_build)
  qed (simp_all add: read_db_rows read_listing sample_simps read_row_def in_i64_def tx_unique_def)
  then show ?thesis by (simp add: read_listing sample_simps)
qed

lemma sample_resolve:
  "\<exists>d. resolve_query sample_lib (pg_query_repo read_eval read_tables) ''evt_x'' True sample_args (\<lambda>_. False) read_db =
     (Ok \<lparr>cn_rows = [VString ''5''], cn_end_cursor = Some ''5:0'', cn_has_next = True, cn_spec = read_spec [chain_one]\<rparr>, d)"
proof -
  have "fst (query read_eval read_tables (read_spec [chain_one]) read_db) = Ok \<lparr>pg_items = [''5''], pg_end_cursor = Some ''5:0'', pg_has_next = True\<rparr>"
    by code_simp
  then show ?thesis
    by (cases "query read_eval read_tables (read_spec [chain_one]) read_db")
      (simp add: resolve_query_def sample_query_args pg_query_repo_def sample_simps)
qed

theorem graphql_rows_match_arguments_witness:
  "\<exists>q binds rows. build_query read_tables (read_spec [chain_one]) = Ok (q, binds)
     \<and> [VString ''5''] = map (\<lambda>(r, j). row_value sample_lib (pe_text read_eval (sq_row q) r j)) rows
     \<and> (\<forall>(r, j) \<in> set rows. r \<in> set (table_rows read_db ''evt_x'') \<and> tr_chain_id r = 1)"
proof -
  obtain d where d: "resolve_query sample_lib (pg_query_repo read_eval read_tables) ''evt_x'' True sample_args (\<lambda>_. False) read_db =
     (Ok \<lparr>cn_rows = [VString ''5''], cn_end_cursor = Some ''5:0'', cn_has_next = True, cn_spec = read_spec [chain_one]\<rparr>, d)"
    using sample_resolve by blast
  have i64: "\<forall>v i. gl_i64 sample_lib v = Ok i \<longrightarrow> in_i64 i" by (auto simp: sample_lib_def split: gql_value.splits if_splits)
  have scan: "\<forall>xs. mset (pe_scan read_eval xs) = mset xs" by (simp add: sample_simps)
  note t = graphql_rows_match_arguments[OF d i64 scan, unfolded conn_data.simps]
  have chain: "tr_chain_id r = 1" if "\<forall>i. shortcut sample_lib sample_args ''chainId'' i \<longrightarrow> tr_chain_id r = i" for r :: typed_row
    using that sample_simps(4) by blast
  from t show ?thesis by (elim exE conjE, intro exI conjI) (assumption, assumption, use chain in fast)
qed

end
