(* ===== verification/Commands.thy ===== *)
theory Commands
  imports Rpc_Chain Graphql
begin

text \<open>
  The command handlers of \<open>bins/indexer-cli\<close> (\<open>commands.rs\<close>, \<open>wiring.rs\<close>) up to the tasks they
  start, and the set-up of the query server (\<open>bins/query\<close>). The tasks themselves are the
  pipeline, the workers, the tip loop and the supervisor of the other theories.

  The file system, the configuration reader, the connection to Postgres and the connection to
  an RPC endpoint are parameters (\<open>cmd_env\<close>). What a command prints is its result.
\<close>

section \<open>Surroundings\<close>

record 'n cmd_env =
  ce_lib :: abi_lib
  ce_iter :: abi_iter
  ce_read :: "string \<Rightarrow> string + string"
  ce_extract :: "string \<Rightarrow> string + config"
  ce_connect :: "string \<Rightarrow> nat \<Rightarrow> string option"
  ce_rpc :: "string \<Rightarrow> string option \<Rightarrow> (source_error, 'n provider \<times> 'n provider option) res"
  ce_sched :: aux_sched
  ce_hash :: hash_iter

text \<open>The errors that \<open>anyhow\<close> carries to the caller.\<close>

datatype cmd_error = ConfigFailed config_error | SourceFailed source_error | DbFailed db_error | DomainFailed domain_error | Message string

definition on_config :: "(config_error, 'a) res \<Rightarrow> (db, cmd_error, 'a) m" where
  "on_config r s = (map_err ConfigFailed r, s)"

definition on_source :: "(source_error, 'a) res \<Rightarrow> (db, cmd_error, 'a) m" where
  "on_source r s = (map_err SourceFailed r, s)"

definition on_domain :: "(db, domain_error, 'a) m \<Rightarrow> (db, cmd_error, 'a) m" where
  "on_domain f s = (let (r, s') = f s in (map_err DomainFailed r, s'))"

text \<open>\<open>db::connect\<close>.\<close>

definition connect :: "'n cmd_env \<Rightarrow> database_cfg \<Rightarrow> (db, cmd_error, unit) m" where
  "connect env cfg = (case ce_connect env (db_url cfg) (db_max_conns cfg) of
     Some e \<Rightarrow> throw (DbFailed (Sqlx e)) | None \<Rightarrow> ret ())"

text \<open>\<open>db::base_schema::init\<close>: one request, whose statements are guarded by \<open>IF NOT EXISTS\<close>; the
  fixed tables are always part of the database model.\<close>

definition base_schema_init :: "(db, cmd_error, unit) m" where
  "base_schema_init s = (let (r, s') = stmt (\<lambda>s. Inr ((), s)) s in (map_err DbFailed r, s'))"

section \<open>Wiring\<close>

definition boot :: "'n cmd_env \<Rightarrow> string \<Rightarrow> (db, cmd_error, config) m" where
  "boot env config_path =
     bind (on_config (config_load (ce_extract env) config_path)) (\<lambda>cfg.
     bind (connect env (cf_database cfg)) (\<lambda>_. ret cfg))"

text \<open>\<open>Path::parent\<close>: the path without its last component, \<open>None\<close> for the empty path and the
  root. Components are separated by slashes; empty ones and dots after the first are skipped.\<close>

definition trim_parts :: "string list \<Rightarrow> string list" where
  "trim_parts ps = rev (dropWhile (\<lambda>w. w = [] \<or> w = ''.'') (rev ps))"

fun join_parts :: "string list \<Rightarrow> string" where
  "join_parts [] = []"
| "join_parts [p] = p"
| "join_parts (p # ps) = p @ ''/'' @ join_parts ps"

definition path_parent :: "string \<Rightarrow> string option" where
  "path_parent path = (case split_on (CHR ''/'') path of
     [] \<Rightarrow> None
   | first # rest \<Rightarrow>
       (case trim_parts rest of
          [] \<Rightarrow> if first = [] then None else Some []
        | ps \<Rightarrow> (let qs = trim_parts (butlast ps) in Some (if first = [] \<and> qs = [] then ''/'' else join_parts (first # qs)))))"

definition base_dir :: "string \<Rightarrow> string" where
  "base_dir config_path = (case path_parent config_path of Some p \<Rightarrow> p | None \<Rightarrow> [])"

definition find_chain :: "config \<Rightarrow> nat \<Rightarrow> (db, cmd_error, chain_cfg) m" where
  "find_chain cfg cid = (case find (\<lambda>c. ch_id c = cid) (cf_chains cfg) of
     Some c \<Rightarrow> ret c | None \<Rightarrow> throw (Message (''chain '' @ show_nat cid @ '' not in config'')))"

definition out_of_sync :: cmd_error where
  "out_of_sync = Message ''schema out of sync with config; run `indexer migrate`''"

definition preflight :: "event_schema list \<Rightarrow> (db, cmd_error, unit) m" where
  "preflight schemas = bind (on_domain (is_in_sync schemas)) (\<lambda>in_sync.
     if \<not> in_sync then throw out_of_sync else ret ())"

type_synonym decoders = "chain_id \<rightharpoonup> decoder"

fun build_decoders_loop :: "'n cmd_env \<Rightarrow> string \<Rightarrow> chain_cfg list \<Rightarrow> decoders \<Rightarrow> (source_error, decoders) res" where
  "build_decoders_loop env base [] acc = Ok acc"
| "build_decoders_loop env base (chain # rest) acc =
     and_then (build_decoder (ce_lib env) (ce_read env) chain base) (\<lambda>d.
       build_decoders_loop env base rest (acc(ch_id chain \<mapsto> evm_port (ce_lib env) d)))"

definition build_decoders :: "'n cmd_env \<Rightarrow> config \<Rightarrow> string \<Rightarrow> (source_error, decoders) res" where
  "build_decoders env cfg base = build_decoders_loop env base (cf_chains cfg) Map.empty"

section \<open>\<open>migrate\<close>\<close>

text \<open>The schemas of all chains, in order.\<close>

fun collect_schemas :: "'n cmd_env \<Rightarrow> string \<Rightarrow> chain_cfg list \<Rightarrow> (source_error, event_schema list) res" where
  "collect_schemas env base [] = Ok []"
| "collect_schemas env base (chain # rest) =
     and_then (build_decoder (ce_lib env) (ce_read env) chain base) (\<lambda>d.
       map_ok ((@) (evm_schemas (ce_iter env) d)) (collect_schemas env base rest))"

text \<open>The result is the statements that a dry run prints or that were applied.\<close>

definition migrate :: "'n cmd_env \<Rightarrow> string \<Rightarrow> bool \<Rightarrow> bool \<Rightarrow> (db, cmd_error, string list) m" where
  "migrate env config_path dry_run allow_destructive =
     bind (on_config (config_load (ce_extract env) config_path)) (\<lambda>cfg.
     bind (on_source (collect_schemas env (base_dir config_path) (cf_chains cfg))) (\<lambda>schemas.
     bind (connect env (cf_database cfg)) (\<lambda>_.
     bind base_schema_init (\<lambda>_.
     bind (on_domain (migrator_plan schemas)) (\<lambda>plan.
     if dry_run then ret (map render (pl_statements plan))
     else bind (on_domain (migrator_apply plan allow_destructive)) (\<lambda>_. ret (map render (pl_statements plan))))))))"

section \<open>\<open>backfill\<close>, \<open>resync\<close>, \<open>follow\<close>, \<open>decode\<close>, \<open>run\<close>\<close>

text \<open>What \<open>backfill\<close> and \<open>follow\<close> hand to their tasks.\<close>

record 'n job =
  jb_chain :: chain_cfg
  jb_built :: "'n built_chain"
  jb_drive :: "'n rpc drive"
  jb_decoders :: decoders
  jb_step :: nat
  jb_workers :: nat

definition job_of :: "'n cmd_env \<Rightarrow> config \<Rightarrow> chain_cfg \<Rightarrow> nat \<Rightarrow> 'n built_chain \<Rightarrow> 'n job" where
  "job_of env cfg chain cid built =
     (let conc = max (ix_range_concurrency (cf_indexer cfg)) 1
      in \<lparr>jb_chain = chain, jb_built = built,
          jb_drive = \<lparr>dr_source = rpc_chain_source (ce_sched env) (bc_source built), dr_filter = evm_record_filter (ce_iter env) (bc_decoder built),
                      dr_conc = conc, dr_exhausted = (\<lambda>s. quota_exhausted (ledger s))\<rparr>,
          jb_decoders = Map.empty(cid \<mapsto> evm_port (ce_lib env) (bc_decoder built)),
          jb_step = max (max_getlogs_blocks (rs_plan (bc_source built))) 1, jb_workers = conc\<rparr>)"

text \<open>The head of \<open>backfill\<close>, up to its tasks.\<close>

definition job_setup :: "'n cmd_env \<Rightarrow> string \<Rightarrow> nat \<Rightarrow> (db, cmd_error, config \<times> 'n job) m" where
  "job_setup env config_path cid =
     bind (boot env config_path) (\<lambda>cfg.
     bind (find_chain cfg cid) (\<lambda>chain.
     bind (on_source (build_chain (ce_lib env) (ce_read env) (ce_rpc env) chain (base_dir config_path) (ix_aux_concurrency (cf_indexer cfg)))) (\<lambda>built.
     bind base_schema_init (\<lambda>_.
     bind (preflight (evm_schemas (ce_iter env) (bc_decoder built))) (\<lambda>_.
     ret (cfg, job_of env cfg chain cid built))))))"

text \<open>\<open>backfill\<close>: the pipeline and the worker pool, interleaved by \<open>acts\<close>.\<close>

definition backfill_cmd :: "'n cmd_env \<Rightarrow> string \<Rightarrow> nat \<Rightarrow> nat \<Rightarrow> nat \<Rightarrow> backfill_action list \<Rightarrow> 'n rpc
    \<Rightarrow> (db, cmd_error, 'n job \<times> 'n rpc backfill option) m" where
  "backfill_cmd env config_path cid from to acts rpc d =
     bind (job_setup env config_path cid) (\<lambda>(cfg, job) d1.
       (Ok (job, run_backfill (jb_drive job) (ce_hash env) (jb_decoders job) (jb_workers job) acts from to (jb_step job) rpc d1), d1)) d"

definition follow_setup :: "'n cmd_env \<Rightarrow> string \<Rightarrow> nat \<Rightarrow> nat option \<Rightarrow> (db, cmd_error, 'n rpc loop_cfg \<times> 'n job) m" where
  "follow_setup env config_path cid interval =
     bind (boot env config_path) (\<lambda>cfg.
     bind (find_chain cfg cid) (\<lambda>chain.
     bind (on_source (build_chain (ce_lib env) (ce_read env) (ce_rpc env) chain (base_dir config_path) (ix_aux_concurrency (cf_indexer cfg)))) (\<lambda>built.
     let schemas = evm_schemas (ce_iter env) (bc_decoder built); job = job_of env cfg chain cid built in
     case start_block chain of
       None \<Rightarrow> (\<lambda>d. (Panic, d))
     | Some start \<Rightarrow>
         bind base_schema_init (\<lambda>_.
         bind (preflight schemas) (\<lambda>_.
         ret (\<lparr>lc_drive = jb_drive job, lc_tables = map es_table schemas,
               lc_confirmations = ch_confirmations chain, lc_start_block = start, lc_step = jb_step job,
               lc_interval = (case interval of Some i \<Rightarrow> i | None \<Rightarrow> ix_tip_interval_secs (cf_indexer cfg))\<rparr>, job))))))"

definition resync :: "'n cmd_env \<Rightarrow> string \<Rightarrow> nat \<Rightarrow> nat \<Rightarrow> nat \<Rightarrow> (db, cmd_error, nat) m" where
  "resync env config_path cid from to =
     bind (boot env config_path) (\<lambda>cfg.
     bind (find_chain cfg cid) (\<lambda>chain.
     bind (on_source (build_decoder (ce_lib env) (ce_read env) chain (base_dir config_path))) (\<lambda>decoder.
     on_domain (decode_range (ce_hash env) (evm_port (ce_lib env) decoder) cid from to))))"

definition decode_workers :: "'n cmd_env \<Rightarrow> string \<Rightarrow> nat \<Rightarrow> (db, cmd_error, decoders \<times> worker list) m" where
  "decode_workers env config_path workers =
     bind (boot env config_path) (\<lambda>cfg.
     bind (on_source (build_decoders env cfg (base_dir config_path))) (\<lambda>decs.
     ret (decs, spawn_worker_pool workers)))"

text \<open>The arguments of a supervised task.\<close>

record ingest_task =
  tk_chain :: chain_cfg
  tk_tables :: "string list"
  tk_aux_concurrency :: nat
  tk_range_concurrency :: nat
  tk_interval :: nat

definition ingest_task_for :: "indexer_cfg \<Rightarrow> nat \<Rightarrow> chain_cfg \<Rightarrow> event_schema list \<Rightarrow> ingest_task" where
  "ingest_task_for ix interval chain schemas = \<lparr>tk_chain = chain, tk_tables = map es_table schemas,
     tk_aux_concurrency = ix_aux_concurrency ix, tk_range_concurrency = max (ix_range_concurrency ix) 1, tk_interval = interval\<rparr>"

text \<open>The loop of \<open>run\<close> over the chains: the tasks it spawns and the decoders of the workers.\<close>

fun run_loop :: "'n cmd_env \<Rightarrow> string \<Rightarrow> indexer_cfg \<Rightarrow> nat \<Rightarrow> chain_cfg list \<Rightarrow> ingest_task list \<Rightarrow> decoders
    \<Rightarrow> (db, cmd_error, ingest_task list \<times> decoders) m" where
  "run_loop env base ix interval [] tasks decs = ret (tasks, decs)"
| "run_loop env base ix interval (chain # rest) tasks decs =
     bind (on_source (build_decoder (ce_lib env) (ce_read env) chain base)) (\<lambda>d.
     bind (preflight (evm_schemas (ce_iter env) d)) (\<lambda>_.
     run_loop env base ix interval rest (tasks @ [ingest_task_for ix interval chain (evm_schemas (ce_iter env) d)])
       (decs(ch_id chain \<mapsto> evm_port (ce_lib env) d))))"

definition run_setup :: "'n cmd_env \<Rightarrow> string \<Rightarrow> nat \<Rightarrow> nat option \<Rightarrow> (db, cmd_error, ingest_task list \<times> decoders \<times> worker list) m" where
  "run_setup env config_path workers interval =
     bind (boot env config_path) (\<lambda>cfg.
     bind base_schema_init (\<lambda>_.
     bind (run_loop env (base_dir config_path) (cf_indexer cfg)
         (case interval of Some i \<Rightarrow> i | None \<Rightarrow> ix_tip_interval_secs (cf_indexer cfg)) (cf_chains cfg) [] Map.empty) (\<lambda>(tasks, decs).
     ret (tasks, decs, spawn_worker_pool workers))))"

section \<open>The query server\<close>

text \<open>Schemas of all chains, the first of each table.\<close>

definition push_new :: "event_schema \<Rightarrow> event_schema list \<Rightarrow> event_schema list" where
  "push_new s acc = (if es_table s \<in> es_table ` set acc then acc else acc @ [s])"

fun served_schemas :: "'n cmd_env \<Rightarrow> string \<Rightarrow> chain_cfg list \<Rightarrow> event_schema list \<Rightarrow> (source_error, event_schema list) res" where
  "served_schemas env base [] acc = Ok acc"
| "served_schemas env base (chain # rest) acc =
     and_then (build_decoder (ce_lib env) (ce_read env) chain base) (\<lambda>d.
       served_schemas env base rest (fold push_new (evm_schemas (ce_iter env) d) acc))"

text \<open>The tables of the repository, whether its answers are cached and for how long, and the
  schemas that the API is built from.\<close>

definition query_setup :: "'n cmd_env \<Rightarrow> string \<Rightarrow> (db, cmd_error, query_tables \<times> nat option \<times> event_schema list) m" where
  "query_setup env config_path =
     bind (on_config (config_load (ce_extract env) config_path)) (\<lambda>cfg.
     bind (on_source (served_schemas env (base_dir config_path) (cf_chains cfg) [])) (\<lambda>schemas.
     bind (connect env (cf_database cfg)) (\<lambda>_.
     ret (query_new schemas, if 0 < qy_cache_ttl_ms (cf_query cfg) then Some (qy_cache_ttl_ms (cf_query cfg)) else None, schemas))))"

section \<open>Lemmas\<close>

lemma on_config_Ok [simp]: "on_config r s = (Ok x, s') \<longleftrightarrow> r = Ok x \<and> s' = s"
  by (auto simp: on_config_def)

lemma on_source_Ok [simp]: "on_source r s = (Ok x, s') \<longleftrightarrow> r = Ok x \<and> s' = s"
  by (auto simp: on_source_def)

lemma on_domain_Ok [simp]: "on_domain f s = (Ok x, s') \<longleftrightarrow> f s = (Ok x, s')"
  by (auto simp: on_domain_def split: prod.splits)

lemma connect_Ok [simp]: "connect env c s = (Ok u, s') \<longleftrightarrow> ce_connect env (db_url c) (db_max_conns c) = None \<and> s' = s"
  by (auto simp: connect_def ret_def throw_def split: option.split)

lemma base_schema_init_faults: "base_schema_init s = (r, s') \<Longrightarrow> \<exists>fs. s' = s\<lparr>faults := fs\<rparr>"
  by (auto simp: base_schema_init_def stmt_def Let_def split: list.splits option.splits)

lemma base_schema_init_no_faults [simp]: "faults s = [] \<Longrightarrow> base_schema_init s = (Ok (), s)"
  by (simp add: base_schema_init_def stmt_no_faults)

lemma boot_Ok: "boot env p s = (Ok cfg, s') \<longleftrightarrow> config_load (ce_extract env) p = Ok cfg
     \<and> ce_connect env (db_url (cf_database cfg)) (db_max_conns (cf_database cfg)) = None \<and> s' = s"
  by (auto simp: boot_def bind_Ok elim!: bind_OkE dest!: ret_OkD) (auto simp: ret_def)

lemma preflight_passes:
  assumes "faults s = []" and "\<forall>schema \<in> set schemas. es_table schema \<in> set support_tables \<or> tables s (es_table schema) \<noteq> None"
  shows "preflight schemas s = (Ok (), s)"
proof -
  have "on_domain (is_in_sync schemas) s = (Ok True, s)" using sync_loop_all[OF assms] by (simp add: is_in_sync_def)
  then show ?thesis by (simp add: preflight_def bind_Ok ret_def)
qed

lemma preflight_refuses:
  assumes "faults s = []" and "\<exists>schema \<in> set schemas. es_table schema \<notin> set support_tables \<and> tables s (es_table schema) = None"
  shows "preflight schemas s = (Err out_of_sync, s)"
proof -
  have "sync_loop schemas s = (Ok False, s)" using assms(2)
    by (induction schemas) (auto simp: bind_def table_exists_no_faults[OF assms(1)] ret_def)
  then show ?thesis by (simp add: preflight_def bind_def on_domain_def is_in_sync_def throw_def)
qed

lemma collect_schemas_Cons:
  assumes "collect_schemas env base (chain # rest) = Ok ss"
  obtains d ss' where "build_decoder (ce_lib env) (ce_read env) chain base = Ok d" and "collect_schemas env base rest = Ok ss'"
    and "ss = evm_schemas (ce_iter env) d @ ss'"
  using assms by (auto simp: and_then_Ok map_ok_Ok)

text \<open>\<open>run\<close> builds the decoders that \<open>decode\<close> builds, and a task for every chain.\<close>

lemma run_loop_synced:
  assumes "collect_schemas env base chs = Ok ss" and "faults s = []"
    and "\<forall>schema \<in> set ss. es_table schema \<in> set support_tables \<or> tables s (es_table schema) \<noteq> None"
  shows "\<exists>tasks' decs'. run_loop env base ix interval chs tasks decs s = (Ok (tasks @ tasks', decs'), s) \<and> map tk_chain tasks' = chs
     \<and> concat (map tk_tables tasks') = map es_table ss \<and> build_decoders_loop env base chs decs = Ok decs'
     \<and> dom decs' = dom decs \<union> ch_id ` set chs"
  using assms
proof (induction chs arbitrary: ss tasks decs)
  case (Cons chain rest)
  from Cons.prems(1) obtain d ss' where d: "build_decoder (ce_lib env) (ce_read env) chain base = Ok d"
    "collect_schemas env base rest = Ok ss'" "ss = evm_schemas (ce_iter env) d @ ss'" by (rule collect_schemas_Cons)
  have "preflight (evm_schemas (ce_iter env) d) s = (Ok (), s)"
    using preflight_passes[OF Cons.prems(2)] Cons.prems(3) d(3) by simp
  moreover have "on_source (build_decoder (ce_lib env) (ce_read env) chain base) s = (Ok d, s)" using d(1) by simp
  moreover have rest: "\<forall>schema \<in> set ss'. es_table schema \<in> set support_tables \<or> tables s (es_table schema) \<noteq> None"
    using Cons.prems(3) d(3) by simp
  moreover obtain tasks' decs' where
    "run_loop env base ix interval rest (tasks @ [ingest_task_for ix interval chain (evm_schemas (ce_iter env) d)]) (decs(ch_id chain \<mapsto> evm_port (ce_lib env) d)) s
       = (Ok ((tasks @ [ingest_task_for ix interval chain (evm_schemas (ce_iter env) d)]) @ tasks', decs'), s)"
    "map tk_chain tasks' = rest" "concat (map tk_tables tasks') = map es_table ss'"
    "build_decoders_loop env base rest (decs(ch_id chain \<mapsto> evm_port (ce_lib env) d)) = Ok decs'"
    "dom decs' = dom (decs(ch_id chain \<mapsto> evm_port (ce_lib env) d)) \<union> ch_id ` set rest"
    using Cons.IH[OF d(2) Cons.prems(2) rest] by blast
  ultimately show ?case using d(1,3)
    by (intro exI[of _ "ingest_task_for ix interval chain (evm_schemas (ce_iter env) d) # tasks'"] exI[of _ decs']) (simp add: bind_Ok ingest_task_for_def)
qed (simp add: ret_def)

lemma run_loop_refused:
  assumes "collect_schemas env base chs = Ok ss" and "faults s = []"
    and "\<exists>schema \<in> set ss. es_table schema \<notin> set support_tables \<and> tables s (es_table schema) = None"
  shows "run_loop env base ix interval chs tasks decs s = (Err out_of_sync, s)"
  using assms
proof (induction chs arbitrary: ss tasks decs)
  case (Cons chain rest)
  from Cons.prems(1) obtain d ss' where d: "build_decoder (ce_lib env) (ce_read env) chain base = Ok d"
    "collect_schemas env base rest = Ok ss'" "ss = evm_schemas (ce_iter env) d @ ss'" by (rule collect_schemas_Cons)
  have b: "on_source (build_decoder (ce_lib env) (ce_read env) chain base) s = (Ok d, s)" using d(1) by simp
  let ?here = "\<exists>schema \<in> set (evm_schemas (ce_iter env) d). es_table schema \<notin> set support_tables \<and> tables s (es_table schema) = None"
  show ?case
  proof (cases ?here)
    case True
    from preflight_refuses[OF Cons.prems(2) this] b show ?thesis by (simp add: bind_Ok) (simp add: bind_def)
  next
    case False
    then have "preflight (evm_schemas (ce_iter env) d) s = (Ok (), s)" by (intro preflight_passes[OF Cons.prems(2)]) auto
    moreover have "\<exists>schema \<in> set ss'. es_table schema \<notin> set support_tables \<and> tables s (es_table schema) = None"
      using Cons.prems(3) d(3) False by auto
    ultimately show ?thesis using Cons.IH[OF d(2) Cons.prems(2)] b by (simp add: bind_Ok)
  qed
qed simp

lemma fold_push_new:
  "distinct (map es_table acc) \<Longrightarrow> distinct (map es_table (fold push_new ss acc))
     \<and> set (fold push_new ss acc) \<subseteq> set acc \<union> set ss \<and> es_table ` set (fold push_new ss acc) = es_table ` (set acc \<union> set ss)"
proof (induction ss arbitrary: acc)
  case (Cons x ss)
  have "distinct (map es_table (push_new x acc))" using Cons.prems by (simp add: push_new_def)
  from Cons.IH[OF this] show ?case by (auto simp: push_new_def split: if_splits)
qed simp

lemma served_schemas_collected:
  assumes "collect_schemas env base chs = Ok ss"
  shows "served_schemas env base chs acc = Ok (fold push_new ss acc)"
  using assms
proof (induction chs arbitrary: ss acc)
  case (Cons chain rest)
  from Cons.prems obtain d ss' where "build_decoder (ce_lib env) (ce_read env) chain base = Ok d"
    "collect_schemas env base rest = Ok ss'" "ss = evm_schemas (ce_iter env) d @ ss'" by (rule collect_schemas_Cons)
  with Cons.IH show ?case by simp
qed simp

text \<open>What a successful \<open>migrate\<close> went through.\<close>

lemma migrate_OkE:
  assumes "migrate env p False allow d = (Ok out, d')"
  obtains cfg ss plan d1 d2 where "config_load (ce_extract env) p = Ok cfg"
    and "collect_schemas env (base_dir p) (cf_chains cfg) = Ok ss"
    and "ce_connect env (db_url (cf_database cfg)) (db_max_conns (cf_database cfg)) = None"
    and "extends d d1" and "migrator_plan ss d1 = (Ok plan, d2)" and "migrator_apply plan allow d2 = (Ok (), d')"
    and "out = map render (pl_statements plan)"
proof -
  from assms obtain cfg ss d1 plan d2 where a: "config_load (ce_extract env) p = Ok cfg"
    "collect_schemas env (base_dir p) (cf_chains cfg) = Ok ss"
    "ce_connect env (db_url (cf_database cfg)) (db_max_conns (cf_database cfg)) = None"
    "base_schema_init d = (Ok (), d1)" "migrator_plan ss d1 = (Ok plan, d2)" "migrator_apply plan allow d2 = (Ok (), d')"
    "out = map render (pl_statements plan)"
    unfolding migrate_def by (auto elim!: bind_OkE dest!: ret_OkD)
  have "extends d d1" using base_schema_init_faults[OF a(4)] by auto
  with a show thesis by (intro that)
qed

lemma job_setup_OkE:
  assumes "job_setup env p cid d = (Ok (cfg, job), d')"
  obtains chain built where "chain \<in> set (cf_chains cfg)" and "ch_id chain = cid"
    and "build_chain (ce_lib env) (ce_read env) (ce_rpc env) chain (base_dir p) (ix_aux_concurrency (cf_indexer cfg)) = Ok built"
    and "job = job_of env cfg chain cid built"
proof -
  from assms obtain chain built d1 where c: "find_chain cfg cid d1 = (Ok chain, d1)"
    "build_chain (ce_lib env) (ce_read env) (ce_rpc env) chain (base_dir p) (ix_aux_concurrency (cf_indexer cfg)) = Ok built"
    "job = job_of env cfg chain cid built"
    unfolding job_setup_def by (auto simp: find_chain_def throw_def ret_def elim!: bind_OkE split: option.splits)
  have "find (\<lambda>c. ch_id c = cid) (cf_chains cfg) = Some chain"
    using c(1) by (auto simp: find_chain_def throw_def ret_def split: option.splits)
  then have "chain \<in> set (cf_chains cfg)" "ch_id chain = cid" by (auto simp: find_Some_iff)
  with c(2,3) that show thesis by blast
qed

lemma build_chain_Ok:
  assumes "build_chain lib read conn chain base aux = Ok built"
  shows "build_decoder lib read chain base = Ok (bc_decoder built) \<and> rs_chain_id (bc_source built) = ch_id chain"
  using assms by (auto simp: build_chain_def build_evm_def build_decoder_def and_then_Ok map_ok_Ok rpc_source_new_def Let_def
      split: if_splits option.splits)

lemma span_of_block:
  assumes "0 < step" and "from \<le> b" and "b \<le> to"
  shows "\<exists>(lo, hi) \<in> set (spans from to step). lo \<le> b \<and> b \<le> hi"
proof -
  have "b \<in> set (blocks_of (spans from to step))" using assms by (auto simp: blocks_of_spans)
  then obtain lo hi where "(lo, hi) \<in> set (spans from to step)" "b \<in> set [lo..<Suc hi]"
    unfolding blocks_of_def by (auto simp del: upt_Suc)
  then show ?thesis by (intro bexI[of _ "(lo, hi)"]) auto
qed

section \<open>Properties\<close>



text \<open>
  The query server serves what \<open>migrate\<close> created. On a database that \<open>migrate\<close> brought up to
  date, the server starts; the tables it serves are those of all chains, each once, and each
  has in the database every column that the API offers for it.
\<close>

theorem api_serves_migrated_tables:
  assumes "migrate env path False allow d = (Ok out, d')"
  shows "\<exists>cfg all schemas ttl. config_load (ce_extract env) path = Ok cfg \<and> collect_schemas env (base_dir path) (cf_chains cfg) = Ok all
     \<and> query_setup env path d' = (Ok (query_new schemas, ttl, schemas), d')
     \<and> distinct (map es_table schemas) \<and> set schemas \<subseteq> set all \<and> es_table ` set schemas = es_table ` set all
     \<and> (\<forall>schema \<in> set schemas. es_table schema \<notin> set support_tables \<longrightarrow>
          (\<exists>u. tables d' (es_table schema) = Some u \<and> (\<forall>c \<in> set (es_columns schema).
             cd_name c \<in> set (meta_of (es_table schema)) \<or> map_of (tb_cols u) (cd_name c) \<noteq> None)))"
proof -
  from assms obtain cfg ss plan d1 d2 where m: "config_load (ce_extract env) path = Ok cfg"
    "collect_schemas env (base_dir path) (cf_chains cfg) = Ok ss"
    "ce_connect env (db_url (cf_database cfg)) (db_max_conns (cf_database cfg)) = None"
    "extends d d1" "migrator_plan ss d1 = (Ok plan, d2)" "migrator_apply plan allow d2 = (Ok (), d')"
    by (rule migrate_OkE)
  define schemas where "schemas = fold push_new ss []"
  have f: "distinct (map es_table schemas)" "set schemas \<subseteq> set ss" "es_table ` set schemas = es_table ` set ss"
    using fold_push_new[of "[]" ss] by (simp_all add: schemas_def)
  have "query_setup env path d' = (Ok (query_new schemas,
      if 0 < qy_cache_ttl_ms (cf_query cfg) then Some (qy_cache_ttl_ms (cf_query cfg)) else None, schemas), d')"
    using m(1,3) served_schemas_collected[OF m(2), of "[]"] by (simp add: query_setup_def bind_Ok ret_def schemas_def)
  with f m(1,2) migrator_effect[OF m(5,6)] show ?thesis by blast
qed


section \<open>Witnesses\<close>

definition start_contract :: contract_cfg where
  "start_contract = demo_contract\<lparr>ct_table := Some ''evt_t''\<rparr>"

definition start_chain :: chain_cfg where
  "start_chain = demo_chain_cfg\<lparr>ch_contracts := [start_contract], ch_source := \<lparr>sc_kind = ''alchemy'', sc_http = ''h'', sc_ws = None,
     sc_limits = Some \<lparr>lc_max_rps = None, lc_max_cu_per_sec = None, lc_max_batch = None, lc_max_getlogs_blocks = None,
       lc_max_getlogs_results = Some 2, lc_monthly_quota_cu = None\<rparr>\<rparr>\<rparr>"

definition start_config :: config where
  "start_config = demo_config\<lparr>cf_chains := [start_chain], cf_indexer := indexer_cfg_default\<lparr>ix_aux_concurrency := 4\<rparr>\<rparr>"

definition start_env :: "nat cmd_env" where
  "start_env = \<lparr>ce_lib = demo_abi, ce_iter = \<lparr>it_topic0 = (\<lambda>x. x), it_call = (\<lambda>x. x)\<rparr>, ce_read = (\<lambda>p. Inr p),
     ce_extract = (\<lambda>_. Inr start_config), ce_connect = (\<lambda>_ _. None), ce_rpc = (\<lambda>_ _. Ok (demo_provider, None)),
     ce_sched = demo_sched, ce_hash = demo_hash_iter\<rparr>"

definition start_schema :: event_schema where
  "start_schema = schema_for (al_event_selector demo_abi) demo_transfer ''evt_t''"

definition start_decoder :: evm_decoder where
  "start_decoder = \<lparr>ed_abi = \<lparr>by_topic0 = [(replicate 32 7, \<lparr>ae_event = demo_transfer, ae_schema = start_schema\<rparr>)], by_call = []\<rparr>,
     ed_addresses = [replicate 20 0x33]\<rparr>"

lemma start_builds: "build_decoder demo_abi (\<lambda>p. Inr p) start_chain [] = Ok start_decoder"
proof -
  have "abi_build demo_abi [spec] = Ok \<lparr>by_topic0 = [(replicate 32 7, \<lparr>ae_event = demo_transfer, ae_schema = start_schema\<rparr>)], by_call = []\<rparr>"
    if "sp_abi_json spec \<noteq> []" "sp_table_override spec = Some ''evt_t''" "sp_events spec = []" for spec
    using that by (simp add: abi_build_def demo_abi_def add_event_def event_table_def start_schema_def)
  moreover have "parse_addr (ct_address start_contract) = Ok (replicate 20 0x33)"
    using demo_parse_addr by (simp add: start_contract_def)
  ultimately show ?thesis
    by (simp add: build_decoder_def build_evm_decoder_def start_chain_def demo_chain_cfg_def start_decoder_def)
      (simp add: start_contract_def demo_contract_def join_path_def)
qed

lemma start_fields [simp]:
  "ce_lib start_env = demo_abi" "ce_iter start_env = \<lparr>it_topic0 = (\<lambda>x. x), it_call = (\<lambda>x. x)\<rparr>" "ce_read start_env = (\<lambda>p. Inr p)"
  "ce_connect start_env u n = None" "ce_rpc start_env h w = Ok (demo_provider, None)" "ce_sched start_env = demo_sched"
  "ce_hash start_env = demo_hash_iter" "cf_chains start_config = [start_chain]" "base_dir ''c'' = []"
  "evm_schemas (ce_iter start_env) start_decoder = start_schema # aux_schemas" "ch_id start_chain = 1"
  "ix_aux_concurrency (cf_indexer start_config) = 4"
  by (simp_all add: start_env_def start_config_def base_dir_def path_parent_def trim_parts_def evm_schemas_def abi_schemas_def
      call_schemas_def start_decoder_def start_chain_def demo_chain_cfg_def)

lemma start_loads [simp]: "config_load (ce_extract start_env) ''c'' = Ok start_config"
  by (simp add: config_load_def start_env_def validate_def start_config_def demo_config_def start_chain_def demo_chain_cfg_def
      queue_cfg_default_def query_cfg_default_def default_queue_kind_def default_expose_def validate_contract_def start_contract_def
      demo_contract_def start_block_def List.map_filter_def)

lemma start_creatable: "creatable (start_schema # aux_schemas) {}"
proof -
  have "to_snake_case ''from'' = ''from''" "to_snake_case ''value'' = ''value''" by code_simp+
  then have "es_table start_schema = ''evt_t''" "es_pk_columns start_schema = event_pk"
    "map cd_name (es_columns start_schema) = [''from'', ''value'']"
    by (simp_all add: start_schema_def schema_for_def demo_transfer_def event_column_def dynamic_type_def ends_with_char_def
        col_name_def)
  then have "schema_ok start_schema" "es_table start_schema = ''evt_t''"
    by (simp_all add: schema_ok_def support_tables_def meta_of_def table_has_idx_def pk_of_def event_pk_def RECEIPTS_TABLE_def)
  then show ?thesis
    by (simp add: aux_schemas_def schema_ok_def transactions_schema_def receipts_schema_def support_tables_def meta_of_def
        table_has_idx_def RECEIPTS_TABLE_def pk_of_def aux_pk_def col_def)
qed

lemma start_collects: "collect_schemas start_env [] (cf_chains start_config) = Ok (start_schema # aux_schemas)"
  using start_builds start_fields(10) by simp

lemma start_migrates:
  "\<exists>out d. migrate start_env ''c'' False False db_empty = (Ok out, d) \<and> faults d = [] \<and> work_queue d = []
     \<and> (\<forall>schema \<in> set (start_schema # aux_schemas). tables d (es_table schema) \<noteq> None)"
proof -
  have e: "tables db_empty = (\<lambda>_. None)" "faults db_empty = []" "work_queue db_empty = []" by (simp_all add: db_empty_def)
  from migration_of_fresh_database[OF start_creatable e(1,2)] obtain plan d where
    m: "migrator_plan (start_schema # aux_schemas) db_empty = (Ok plan, db_empty)" "migrator_apply plan False db_empty = (Ok (), d)"
      "d = db_empty\<lparr>tables := tables d\<rparr>" "\<forall>schema \<in> set (start_schema # aux_schemas). tables d (es_table schema) \<noteq> None" by fastforce
  have "migrate start_env ''c'' False False db_empty = (Ok (map render (pl_statements plan)), d)"
    using m(1,2) e(2) start_collects by (simp add: migrate_def bind_Ok ret_def)
  moreover have "faults d = [] \<and> work_queue d = []" by (subst m(3), subst m(3)) (simp add: e)
  ultimately show ?thesis using m(4) by blast
qed


theorem api_serves_migrated_tables_witness:
  "\<exists>d schemas ttl. query_setup start_env ''c'' d = (Ok (query_new schemas, ttl, schemas), d) \<and> ''evt_t'' \<in> es_table ` set schemas"
proof -
  obtain out d where "migrate start_env ''c'' False False db_empty = (Ok out, d)" using start_migrates by blast
  from api_serves_migrated_tables[OF this] obtain ss schemas ttl where
    a: "collect_schemas start_env (base_dir ''c'') (cf_chains start_config) = Ok ss"
      "query_setup start_env ''c'' d = (Ok (query_new schemas, ttl, schemas), d)" "es_table ` set schemas = es_table ` set ss" by auto
  have "es_table start_schema = ''evt_t''" by (simp add: start_schema_def schema_for_def Let_def split: prod.split)
  then have "''evt_t'' \<in> es_table ` set ss" using a(1) start_collects by force
  with a(2,3) show ?thesis by metis
qed


lemma start_build_chain: "build_chain demo_abi (\<lambda>p. Inr p) (ce_rpc start_env) start_chain [] 4 = Ok \<lparr>bc_source = demo_source, bc_decoder = start_decoder,
      bc_ledger = ledger_new None (cm_rate AlchemyCost)\<rparr>"
  using start_builds by (simp add: build_chain_def build_evm_def build_decoder_def demo_source_def start_chain_def demo_chain_cfg_def
      for_kind_def apply_overrides_def plan_profile_default_def)

lemma start_job:
  assumes "faults d = []" and "\<forall>schema \<in> set (start_schema # aux_schemas). es_table schema \<in> set support_tables \<or> tables d (es_table schema) \<noteq> None"
  shows "\<exists>job. job_setup start_env ''c'' 1 d = (Ok (start_config, job), d) \<and> bc_source (jb_built job) = demo_source \<and> bc_decoder (jb_built job) = start_decoder"
  using preflight_passes[OF assms] assms(1) start_fields(10) start_build_chain
  by (simp add: job_setup_def boot_Ok bind_Ok find_chain_def ret_def job_of_def Let_def)


end
