(* ===== verification/Binaries.thy ===== *)
theory Binaries
  imports Commands
begin

text \<open>
  The two programs: \<open>indexer\<close> (\<open>bins/indexer-cli/src/main.rs\<close>, \<open>cli.rs\<close>), which runs one command,
  and \<open>indexer-query\<close> (\<open>bins/query/src/main.rs\<close>), which serves the GraphQL API through
  \<open>crates/api/src/server.rs\<close>.

  Reading the arguments is clap's; the model starts from the parsed command. The parser of socket
  addresses, the metrics exporter, the final check of a schema by async_graphql, the listener
  and the HTTP server are parameters (\<open>main_env\<close>): each may fail with a text.
\<close>

section \<open>Surroundings\<close>

record 'n main_env =
  me_cmd :: "'n cmd_env"
  me_parse_addr :: "string \<Rightarrow> string + string"
  me_install :: "string \<Rightarrow> string option"
  me_finish :: "gql_schema \<Rightarrow> string option"
  me_bind :: "string \<Rightarrow> string option"
  me_serve :: "gql_schema \<Rightarrow> string option"

definition failing :: "(string \<Rightarrow> cmd_error) \<Rightarrow> string option \<Rightarrow> (db, cmd_error, unit) m" where
  "failing f r = (case r of Some e \<Rightarrow> throw (f e) | None \<Rightarrow> ret ())"

text \<open>\<open>observability::install(addr.parse()?)?\<close>, if an address is configured.\<close>

definition install_metrics :: "'n main_env \<Rightarrow> string option \<Rightarrow> (db, cmd_error, unit) m" where
  "install_metrics env listen = (case listen of
     None \<Rightarrow> ret ()
   | Some a \<Rightarrow> (case me_parse_addr env a of
       Inl e \<Rightarrow> throw (Message e)
     | Inr addr \<Rightarrow> failing Message (me_install env addr)))"

section \<open>The indexer\<close>

datatype cmd =
    MigrateCmd string bool bool
  | BackfillCmd string nat nat nat
  | ResyncCmd string nat nat nat
  | FollowCmd string nat "nat option"
  | DecodeCmd string nat
  | RunCmd string nat "nat option"

fun cmd_config :: "cmd \<Rightarrow> string" where
  "cmd_config (MigrateCmd config _ _) = config"
| "cmd_config (BackfillCmd config _ _ _) = config"
| "cmd_config (ResyncCmd config _ _ _) = config"
| "cmd_config (FollowCmd config _ _) = config"
| "cmd_config (DecodeCmd config _) = config"
| "cmd_config (RunCmd config _ _) = config"

text \<open>\<open>config::load(path).ok()?.indexer.metrics_listen\<close>; a panic of the reader is not caught.\<close>

definition metrics_listen :: "'n main_env \<Rightarrow> cmd \<Rightarrow> (db, cmd_error, string option) m" where
  "metrics_listen env cmd = (case config_load (ce_extract (me_cmd env)) (cmd_config cmd) of
     Ok cfg \<Rightarrow> ret (ix_metrics_listen (cf_indexer cfg))
   | Err e \<Rightarrow> ret None
   | Panic \<Rightarrow> (\<lambda>d. (Panic, d)))"

text \<open>What a command hands on: the statements of a migration, the backfill after its actions, the
  rows written again, or the tasks that were started.\<close>

datatype 'n cmd_result =
    Migrated "string list"
  | Backfilled "'n job" "'n rpc backfill option"
  | Resynced nat
  | Following "'n rpc loop_cfg" "'n job"
  | Decoding decoders "worker list"
  | Running "ingest_task list" decoders "worker list"

definition map_m :: "('a \<Rightarrow> 'b) \<Rightarrow> ('s, 'e, 'a) m \<Rightarrow> ('s, 'e, 'b) m" where
  "map_m f g = bind g (\<lambda>x. ret (f x))"

fun dispatch :: "'n cmd_env \<Rightarrow> backfill_action list \<Rightarrow> 'n rpc \<Rightarrow> cmd \<Rightarrow> (db, cmd_error, 'n cmd_result) m" where
  "dispatch env acts rpc (MigrateCmd config dry_run allow_destructive) = map_m Migrated (migrate env config dry_run allow_destructive)"
| "dispatch env acts rpc (BackfillCmd config chain from to) = map_m (\<lambda>(j, s). Backfilled j s) (backfill_cmd env config chain from to acts rpc)"
| "dispatch env acts rpc (ResyncCmd config chain from to) = map_m Resynced (resync env config chain from to)"
| "dispatch env acts rpc (FollowCmd config chain interval) = map_m (\<lambda>(c, j). Following c j) (follow_setup env config chain interval)"
| "dispatch env acts rpc (DecodeCmd config workers) = map_m (\<lambda>(ds, ws). Decoding ds ws) (decode_workers env config workers)"
| "dispatch env acts rpc (RunCmd config workers interval) = map_m (\<lambda>(ts, ds, ws). Running ts ds ws) (run_setup env config workers interval)"

definition indexer_main :: "'n main_env \<Rightarrow> backfill_action list \<Rightarrow> 'n rpc \<Rightarrow> cmd \<Rightarrow> (db, cmd_error, 'n cmd_result) m" where
  "indexer_main env acts rpc cmd =
     bind (metrics_listen env cmd) (\<lambda>addr.
     bind (install_metrics env addr) (\<lambda>_.
     dispatch (me_cmd env) acts rpc cmd))"

section \<open>The API server\<close>

record api_server =
  as_schemas :: "event_schema list"
  as_max_complexity :: nat
  as_max_depth :: nat

definition api_server_new :: "event_schema list \<Rightarrow> api_server" where
  "api_server_new schemas = \<lparr>as_schemas = schemas, as_max_complexity = 2000, as_max_depth = 16\<rparr>"

definition invalid :: "string \<Rightarrow> string \<Rightarrow> cmd_error" where
  "invalid what e = DomainFailed (Invalid (what @ '': '' @ e))"

text \<open>The result is the schema that was served until the shutdown signal.\<close>

definition serve :: "'n main_env \<Rightarrow> api_server \<Rightarrow> string \<Rightarrow> (db, cmd_error, gql_schema) m" where
  "serve env srv addr =
     (let schema = build_schema (as_schemas srv) (as_max_complexity srv) (as_max_depth srv)
      in bind (failing (invalid ''graphql schema'') (me_finish env schema)) (\<lambda>_.
         bind (failing (invalid (''bind '' @ addr)) (me_bind env addr)) (\<lambda>_.
         bind (failing (invalid ''serve'') (me_serve env schema)) (\<lambda>_. ret schema))))"

section \<open>The query server\<close>

record served =
  sv_addr :: string
  sv_tables :: query_tables
  sv_cache_ms :: "nat option"
  sv_schema :: gql_schema

definition query_main :: "'n main_env \<Rightarrow> string \<Rightarrow> string option \<Rightarrow> (db, cmd_error, served) m" where
  "query_main env config listen =
     bind (on_config (config_load (ce_extract (me_cmd env)) config)) (\<lambda>cfg.
     bind (install_metrics env (ix_metrics_listen (cf_indexer cfg))) (\<lambda>_.
     let addr = (case listen of Some l \<Rightarrow> l | None \<Rightarrow> qy_listen (cf_query cfg))
     in case me_parse_addr env addr of
          Inl e \<Rightarrow> throw (Message (''bad listen addr '' @ addr))
        | Inr sock \<Rightarrow>
            bind (on_source (served_schemas (me_cmd env) (base_dir config) (cf_chains cfg) [])) (\<lambda>schemas.
            bind (connect (me_cmd env) (cf_database cfg)) (\<lambda>_.
            bind (serve env (api_server_new schemas) sock) (\<lambda>schema.
            ret \<lparr>sv_addr = sock, sv_tables = query_new schemas,
                 sv_cache_ms = (if 0 < qy_cache_ttl_ms (cf_query cfg) then Some (qy_cache_ttl_ms (cf_query cfg)) else None),
                 sv_schema = schema\<rparr>)))))"

section \<open>Lemmas\<close>

lemma throw_bind [simp]: "bind (throw e) g = throw e"
  by (simp add: bind_def throw_def fun_eq_iff)

lemma on_config_Err: "on_config (Err e) = throw (ConfigFailed e)"
  by (simp add: on_config_def throw_def fun_eq_iff)

text \<open>Every handler loads the configuration first.\<close>

lemma dispatch_needs_config:
  assumes "config_load (ce_extract env) (cmd_config cmd) = Err e"
  shows "dispatch env acts rpc cmd = throw (ConfigFailed e)"
  using assms by (cases cmd)
    (simp_all add: map_m_def migrate_def backfill_cmd_def job_setup_def resync_def follow_setup_def decode_workers_def run_setup_def
      boot_def on_config_Err bind_def throw_def fun_eq_iff)

text \<open>
  C38. A program that cannot start touches nothing. If the configuration does not load, each command of
  the indexer and the query server stop with exactly that error: the look at the configuration
  for the metrics address swallows the error, and the command reports it. If the configured
  metrics address does not parse or its listener does not come up, they stop with the text of
  that failure. In all cases the database is as it was.
\<close>

theorem failed_start_changes_nothing:
  assumes "start = config_load (ce_extract (me_cmd env)) (cmd_config cmd)"
  shows "(\<forall>e. start = Err e \<longrightarrow> indexer_main env acts rpc cmd d = (Err (ConfigFailed e), d)
            \<and> query_main env (cmd_config cmd) listen d = (Err (ConfigFailed e), d))
     \<and> (\<forall>cfg a e. start = Ok cfg \<longrightarrow> ix_metrics_listen (cf_indexer cfg) = Some a
            \<longrightarrow> (case me_parse_addr env a of Inl f \<Rightarrow> e = f | Inr addr \<Rightarrow> me_install env addr = Some e)
            \<longrightarrow> indexer_main env acts rpc cmd d = (Err (Message e), d) \<and> query_main env (cmd_config cmd) listen d = (Err (Message e), d))"
  using assms
  by (auto simp: indexer_main_def query_main_def metrics_listen_def install_metrics_def failing_def dispatch_needs_config
      bind_def ret_def throw_def on_config_def split: sum.splits)

text \<open>The columns that the schemas declare are columns of the database.\<close>

definition columns_exist :: "db \<Rightarrow> event_schema list \<Rightarrow> bool" where
  "columns_exist d schemas \<longleftrightarrow> (\<forall>schema \<in> set schemas. es_table schema \<notin> set support_tables \<longrightarrow>
     (\<exists>u. tables d (es_table schema) = Some u \<and> (\<forall>c \<in> set (es_columns schema).
        cd_name c \<in> set (meta_of (es_table schema)) \<or> map_of (tb_cols u) (cd_name c) \<noteq> None)))"


section \<open>Instances\<close>

definition start_main :: "nat main_env" where
  "start_main = \<lparr>me_cmd = start_env, me_parse_addr = (\<lambda>a. if a = [] then Inl ''invalid socket address syntax'' else Inr a),
     me_install = (\<lambda>_. None), me_finish = (\<lambda>_. None), me_bind = (\<lambda>_. None), me_serve = (\<lambda>_. None)\<rparr>"

theorem failed_start_changes_nothing_witness:
  "indexer_main (start_main\<lparr>me_cmd := start_env\<lparr>ce_extract := (\<lambda>_. Inl ''no file'')\<rparr>\<rparr>) [] demo_rpc (RunCmd ''c'' 4 None) db_empty
     = (Err (ConfigFailed (ConfigRead ''no file'')), db_empty)"
  using failed_start_changes_nothing[OF refl, of "start_main\<lparr>me_cmd := start_env\<lparr>ce_extract := (\<lambda>_. Inl ''no file'')\<rparr>\<rparr>" "RunCmd ''c'' 4 None"
      "[]" demo_rpc db_empty None]
  by (simp add: config_load_def)


end
