(* ===== verification/Isolation.thy ===== *)
theory Isolation
  imports Rpc_Chain
begin

text \<open>
  Chains do not interfere. All chains share the tables, the work queue and the cursors, and
  \<open>run\<close> works on all of them at once. Each chain has a view of the database: its blocks, its
  cursor, its raw records, its queue rows and its rows in every typed table. An operation for
  one chain leaves the view of every other chain as it is, whatever it returns.

  The contracts are two locales: a source that yields data of its own chain only, interpreted
  for the JSON-RPC client, and a decoder that decodes into the chain of its input, interpreted
  for the EVM decoder.
\<close>

section \<open>The view of a chain\<close>

record chain_view =
  cv_blocks :: "block_row list"
  cv_cursors :: "cursor_row list"
  cv_raw :: "raw_row list"
  cv_queue :: "queue_row list"
  cv_tables :: "string \<Rightarrow> typed_row list option"

definition view :: "int \<Rightarrow> db \<Rightarrow> chain_view" where
  "view c d = \<lparr>cv_blocks = filter (\<lambda>b. bl_chain_id b = c) (blocks d),
     cv_cursors = filter (\<lambda>r. cu_chain_id r = c) (cursors d),
     cv_raw = filter (\<lambda>r. rw_chain_id r = c) (raw_records d),
     cv_queue = filter (\<lambda>q. wq_chain_id q = c) (work_queue d),
     cv_tables = (\<lambda>t. map_option (\<lambda>u. filter (\<lambda>r. tr_chain_id r = c) (tb_rows u)) (tables d t))\<rparr>"

lemma view_stored: "stored s = stored t \<Longrightarrow> view c s = view c t"
  by (simp add: view_def stored_fields[of s t])

lemma view_faults [simp]: "view c (s\<lparr>faults := fs\<rparr>) = view c s"
  by (simp add: view_def)

text \<open>Operations that leave the view of a chain.\<close>

definition leaves :: "int \<Rightarrow> (db, 'e, 'a) m \<Rightarrow> bool" where
  "leaves c f \<longleftrightarrow> (\<forall>V. keeps (\<lambda>s. view c s = V) f)"

lemma leaves_iff: "leaves c f \<longleftrightarrow> (\<forall>s r s'. f s = (r, s') \<longrightarrow> view c s' = view c s \<and> queue_next_id s \<le> queue_next_id s')"
  unfolding leaves_def keeps_def by blast

lemma leavesD: "leaves c f \<Longrightarrow> f s = (r, s') \<Longrightarrow> view c s' = view c s"
  unfolding leaves_iff by blast

lemma view_invariant: "db_invariant (\<lambda>s. view c s = V)"
  unfolding db_invariant_def using view_stored by metis

named_theorems leaves_intros

lemma leaves_ret [leaves_intros, simp]: "leaves c (ret x)"
  and leaves_throw [leaves_intros, simp]: "leaves c (throw e)"
  and leaves_lift [leaves_intros, simp]: "leaves c (lift r)"
  by (simp_all add: leaves_def)

lemma leaves_select [leaves_intros, simp]: "leaves c (select_stmt f)"
  unfolding leaves_def using keeps_select view_invariant by blast

lemma leaves_db_result [leaves_intros]: "leaves c f \<Longrightarrow> leaves c (db_result f)"
  unfolding leaves_def using keeps_db_result by blast

lemma leaves_transaction [leaves_intros]: "leaves c f \<Longrightarrow> leaves c (transaction f)"
  unfolding leaves_def using keeps_transaction view_invariant by blast

lemma leaves_stmt:
  assumes "\<And>s x s'. f s = Inr (x, s') \<Longrightarrow> view c s' = view c s \<and> queue_next_id s \<le> queue_next_id s'"
  shows "leaves c (stmt f)"
  unfolding leaves_def
proof
  fix V show "keeps (\<lambda>s. view c s = V) (stmt f)" by (rule keeps_stmt[OF view_invariant]) (use assms in auto)
qed

lemma leaves_bind_Ok:
  assumes "leaves c f" and "\<And>x s s'. f s = (Ok x, s') \<Longrightarrow> leaves c (g x)"
  shows "leaves c (bind f g)"
  unfolding leaves_iff
proof (intro allI impI)
  fix s r s' assume b: "bind f g s = (r, s')"
  obtain r1 s1 where f: "f s = (r1, s1)" by fastforce
  have s1: "view c s1 = view c s" "queue_next_id s \<le> queue_next_id s1" using assms(1) f unfolding leaves_iff by blast+
  show "view c s' = view c s \<and> queue_next_id s \<le> queue_next_id s'"
  proof (cases r1)
    case (Ok x)
    then have "g x s1 = (r, s')" using b f by (simp add: bind_def)
    moreover have "leaves c (g x)" using assms(2) f Ok by blast
    ultimately have "view c s' = view c s1" "queue_next_id s1 \<le> queue_next_id s'" unfolding leaves_iff by blast+
    with s1 show ?thesis by simp
  qed (use b f s1 in \<open>auto simp: bind_def\<close>)
qed

lemma leaves_bind [leaves_intros]: "leaves c f \<Longrightarrow> (\<And>x. leaves c (g x)) \<Longrightarrow> leaves c (bind f g)"
  by (rule leaves_bind_Ok)

lemma leaves_for_each [leaves_intros]: "(\<And>x acc. x \<in> set xs \<Longrightarrow> leaves c (f x acc)) \<Longrightarrow> leaves c (for_each f xs acc)"
  by (induction xs arbitrary: acc) (auto intro: leaves_bind)

section \<open>Rows of other chains\<close>

lemma filter_insert_nothing:
  assumes "\<forall>r \<in> set rs. \<not> P r"
  shows "filter P (snd (insert_nothing key rs rows)) = filter P rows"
proof -
  obtain n rows' where i: "insert_nothing key rs rows = (n, rows')" by fastforce
  from insert_nothing_keeps[OF i] obtain new where "rows' = rows @ new" "set new \<subseteq> set rs" by blast
  with assms show ?thesis by (auto simp: i filter_empty_conv)
qed

lemma filter_replace:
  "\<forall>x \<in> set rows. Q x \<longrightarrow> \<not> P x \<and> \<not> P (f x) \<Longrightarrow> filter P (map (\<lambda>x. if Q x then f x else x) rows) = filter P rows"
  by (induction rows) simp_all

lemma filter_put_row:
  assumes "\<forall>x. key x = key r \<longrightarrow> \<not> P x"
  shows "filter P (put_row key r rows) = filter P rows"
  using assms filter_replace[of rows "\<lambda>x. key x = key r" P "\<lambda>_. r"] by (simp add: put_row_def)

lemma filter_insert_update:
  assumes "insert_update key rs rows = Inr (n, rows')" and "\<forall>r \<in> set rs. \<forall>x. key x = key r \<longrightarrow> \<not> P x"
  shows "filter P rows' = filter P rows"
proof -
  have "filter P (fold (put_row key) rs rows) = filter P rows"
    using assms(2)
  proof (induction rs arbitrary: rows)
    case (Cons r rs)
    have "filter P (put_row key r rows) = filter P rows" using Cons.prems by (intro filter_put_row) auto
    with Cons show ?case by simp
  qed simp
  then show ?thesis using assms(1) by (auto simp: insert_update_def split: if_splits)
qed

lemma filter_delete_where: "(\<And>r. Q r \<Longrightarrow> \<not> P r) \<Longrightarrow> filter P (snd (delete_where Q rows)) = filter P rows"
  by (auto simp: delete_where_def filter_filter intro: filter_cong)

lemma chunks_subset: "part \<in> set (chunks n xs) \<Longrightarrow> set part \<subseteq> set xs"
proof (induction n xs rule: chunks.induct)
  case (1 n xs)
  show ?case
  proof (cases "n = 0 \<or> xs = []")
    case True
    then have "chunks n xs = []" by (subst chunks.simps) simp
    with "1.prems" show ?thesis by simp
  next
    case False
    then have "chunks n xs = take n xs # chunks n (drop n xs)" by (subst chunks.simps) simp
    with "1.prems" "1.IH" False show ?thesis using set_take_subset[of n xs] set_drop_subset[of n xs] by auto
  qed
qed

section \<open>The statements of another chain\<close>

lemma leaves_raw_insert [leaves_intros]:
  assumes "\<forall>r \<in> set recs. as_i64 (rr_chain_id r) \<noteq> c"
  shows "leaves c (raw_insert_batch_tx recs)"
proof -
  have "leaves c (raw_insert_stmt part)" if "part \<in> set (chunks (chunk_rows RAW_COLS) recs)" for part
    unfolding raw_insert_stmt_def dml_def
  proof (rule leaves_stmt)
    fix s x and s' :: db assume "Inr (let (n, rows) = insert_nothing raw_key (map raw_row_of part) (raw_records s)
        in (n, s\<lparr>raw_records := rows\<rparr>)) = (Inr (x, s') :: string + nat \<times> db)"
    then have s': "s' = s\<lparr>raw_records := snd (insert_nothing raw_key (map raw_row_of part) (raw_records s))\<rparr>"
      by (simp split: prod.splits)
    have "\<forall>r \<in> set (map raw_row_of part). rw_chain_id r \<noteq> c"
      using assms chunks_subset[OF that] by (auto simp: raw_row_of_def)
    then show "view c s' = view c s \<and> queue_next_id s \<le> queue_next_id s'" by (simp add: s' view_def filter_insert_nothing)
  qed
  then show ?thesis unfolding raw_insert_batch_tx_def by (intro leaves_intros)
qed

lemma leaves_block_upsert [leaves_intros]:
  assumes "\<forall>b \<in> set bs. as_i64 (bm_chain_id b) \<noteq> c"
  shows "leaves c (block_upsert_batch_tx bs)"
proof -
  have "leaves c (block_upsert_stmt part)" if "part \<in> set (chunks (chunk_rows BLOCK_COLS) bs)" for part
    unfolding block_upsert_stmt_def
  proof (rule leaves_stmt)
    fix s x and s' :: db assume "(case insert_update block_key (map block_row_of part) (blocks s) of
        Inl e \<Rightarrow> Inl e | Inr (n, rows) \<Rightarrow> Inr (n, s\<lparr>blocks := rows\<rparr>)) = Inr (x, s')"
    then obtain n rows where u: "insert_update block_key (map block_row_of part) (blocks s) = Inr (n, rows)" "s' = s\<lparr>blocks := rows\<rparr>"
      by (auto split: sum.splits)
    have "\<forall>r \<in> set (map block_row_of part). \<forall>x. block_key x = block_key r \<longrightarrow> bl_chain_id x \<noteq> c"
      using assms chunks_subset[OF that] by (auto simp: block_key_def block_row_of_def)
    from filter_insert_update[OF u(1) this]
    show "view c s' = view c s \<and> queue_next_id s \<le> queue_next_id s'" by (simp add: u(2) view_def)
  qed
  then show ?thesis unfolding block_upsert_batch_tx_def by (intro leaves_intros)
qed

lemma leaves_cursor [leaves_intros]:
  assumes "as_i64 a \<noteq> c"
  shows "leaves c (cursor_advance_in_tx a h hs)" and "leaves c (cursor_rewind_in_tx a h)" and "leaves c (cursor_advance a h hs)"
proof -
  show adv: "leaves c (cursor_advance_in_tx a h hs)"
    unfolding cursor_advance_in_tx_def
    by (rule leaves_stmt) (use assms in \<open>auto simp: view_def intro!: filter_put_row\<close>)
  show "leaves c (cursor_rewind_in_tx a h)"
    unfolding cursor_rewind_in_tx_def
    by (rule leaves_stmt) (use assms in \<open>auto simp: view_def intro!: filter_replace\<close>)
  show "leaves c (cursor_advance a h hs)" unfolding cursor_advance_def using adv by (rule leaves_transaction)
qed

lemma leaves_deletes [leaves_intros]:
  assumes "as_i64 a \<noteq> c"
  shows "leaves c (raw_delete_from_height_tx a h)" and "leaves c (block_delete_from_height_tx a h)"
  unfolding raw_delete_from_height_tx_def block_delete_from_height_tx_def dml_def
  by (rule leaves_stmt; use assms in \<open>auto simp: view_def delete_where_def filter_filter intro!: filter_cong split: prod.splits\<close>)+

lemma leaves_push [leaves_intros]: "as_i64 (wi_chain_id it) \<noteq> c \<Longrightarrow> leaves c (push_in_tx it)"
  unfolding push_in_tx_def
  by (rule leaves_stmt) (auto simp: view_def queue_row_of_def filter_insert_nothing simp del: insert_nothing.simps)

lemma view_table_rows:
  assumes "tables s table = Some t" and "filter (\<lambda>r. tr_chain_id r = c) rows = filter (\<lambda>r. tr_chain_id r = c) (tb_rows t)"
  shows "view c (s\<lparr>tables := (tables s)(table \<mapsto> t\<lparr>tb_rows := rows\<rparr>)\<rparr>) = view c s"
  using assms by (simp add: view_def fun_eq_iff)

lemma leaves_event_insert:
  assumes "\<forall>r \<in> set part. as_i64 (er_chain_id r) \<noteq> c"
  shows "leaves c (event_insert_stmt table part)"
  unfolding event_insert_stmt_def
proof (rule leaves_stmt)
  fix s x and s' :: db assume i: "(case tables s table of
     None \<Rightarrow> Inl (''relation does not exist: '' @ table)
   | Some t \<Rightarrow>
      (let new = map (typed_row_of (table_has_idx table)) part;
           (n, rows) = insert_nothing (typed_key t) new (tb_rows t);
           s' = s\<lparr>tables := (tables s)(table \<mapsto> t\<lparr>tb_rows := rows\<rparr>)\<rparr>
       in if \<not> columns_ok t new then Inl ''column does not exist or has another type''
          else if tb_tx_fk t \<and> \<not> (\<forall>r \<in> set rows. r \<in> set (tb_rows t) \<or> has_tx s' r)
               then Inl ''insert violates foreign key constraint receipts_tx_fk''
          else Inr (n, s'))) = Inr (x, s')"
  then obtain t where t: "tables s table = Some t"
    and s': "s' = s\<lparr>tables := (tables s)(table \<mapsto> t\<lparr>tb_rows :=
        snd (insert_nothing (typed_key t) (map (typed_row_of (table_has_idx table)) part) (tb_rows t))\<rparr>)\<rparr>"
    by (auto simp: Let_def split: option.splits prod.splits if_splits)
  have "\<forall>r \<in> set (map (typed_row_of (table_has_idx table)) part). tr_chain_id r \<noteq> c"
    using assms by (auto simp: typed_row_of_def)
  from view_table_rows[OF t filter_insert_nothing[OF this]]
  show "view c s' = view c s \<and> queue_next_id s \<le> queue_next_id s'" by (simp add: s')
qed

lemma leaves_event_upsert_tx [leaves_intros]:
  assumes "\<forall>r \<in> set rows. as_i64 (er_chain_id r) \<noteq> c"
  shows "leaves c (event_upsert_batch_tx table rows)"
proof -
  have "leaves c (event_insert_stmt table part)"
    if "(sig, grp) \<in> set (group_by column_signature rows)" "part \<in> set (chunks n grp)" for sig grp part n
  proof -
    have "set part \<subseteq> set rows" using chunks_subset[OF that(2)] that(1) group_by_set[of column_signature rows] by force
    with assms show ?thesis by (intro leaves_event_insert) auto
  qed
  then show ?thesis unfolding event_upsert_batch_tx_def by (auto intro!: leaves_intros)
qed

lemma leaves_event_upsert [leaves_intros]:
  "\<forall>r \<in> set rows. as_i64 (er_chain_id r) \<noteq> c \<Longrightarrow> leaves c (event_upsert_batch table rows)"
  unfolding event_upsert_batch_def by (intro leaves_intros)

text \<open>The cascade from \<open>transactions\<close> to \<open>receipts\<close> stays within the chain, because the
  foreign key carries the chain id.\<close>

lemma view_cascade:
  assumes "\<forall>r \<in> set gone. tr_chain_id r \<noteq> c"
  shows "view c (cascade_receipts gone s) = view c s"
proof -
  have "filter (\<lambda>r. tr_chain_id r = c) (filter (\<lambda>r. (tr_chain_id r, tr_tx_id r) \<notin> (\<lambda>x. (tr_chain_id x, tr_tx_id x)) ` set gone) rows)
      = filter (\<lambda>r. tr_chain_id r = c) rows" for rows
    using assms by (auto simp: filter_filter intro!: filter_cong)
  then show ?thesis by (auto simp: cascade_receipts_def simp del: fun_upd_apply intro!: view_table_rows split: option.split)
qed

lemma leaves_event_delete [leaves_intros]:
  assumes "as_i64 a \<noteq> c"
  shows "leaves c (event_delete_from_height_tx table a h)"
proof -
  have "leaves c (event_delete_stmt table a h)"
    unfolding event_delete_stmt_def
  proof (rule leaves_stmt)
    fix s x and s' :: db
    let ?P = "\<lambda>r. tr_chain_id r = as_i64 a \<and> as_i64 h \<le> tr_height r"
    assume d: "(case tables s table of
       None \<Rightarrow> Inl (''relation does not exist: '' @ table)
     | Some t \<Rightarrow>
        (let P = ?P;
             (n, rows) = delete_where P (tb_rows t);
             s' = s\<lparr>tables := (tables s)(table \<mapsto> t\<lparr>tb_rows := rows\<rparr>)\<rparr>
         in Inr (n, if table = ''transactions'' then cascade_receipts (filter P (tb_rows t)) s' else s'))) = Inr (x, s')"
    then obtain t where t: "tables s table = Some t" by (auto split: option.splits)
    let ?s1 = "s\<lparr>tables := (tables s)(table \<mapsto> t\<lparr>tb_rows := snd (delete_where ?P (tb_rows t))\<rparr>)\<rparr>"
    have s': "s' = (if table = ''transactions'' then cascade_receipts (filter ?P (tb_rows t)) ?s1 else ?s1)"
      using d by (auto simp: t Let_def delete_where_def)
    have "filter (\<lambda>r. tr_chain_id r = c) (snd (delete_where ?P (tb_rows t))) = filter (\<lambda>r. tr_chain_id r = c) (tb_rows t)"
      using assms by (intro filter_delete_where) auto
    then have "view c ?s1 = view c s" by (rule view_table_rows[OF t])
    moreover have "view c (cascade_receipts (filter ?P (tb_rows t)) ?s1) = view c ?s1"
      using assms by (intro view_cascade) auto
    moreover have "queue_next_id s' = queue_next_id s"
      by (auto simp: s' cascade_receipts_def split: option.splits)
    ultimately show "view c s' = view c s \<and> queue_next_id s \<le> queue_next_id s'" by (auto simp: s')
  qed
  then show ?thesis unfolding event_delete_from_height_tx_def by (intro leaves_intros)
qed

section \<open>The atomic writes of another chain\<close>

lemma leaves_write_enrichment [leaves_intros]:
  assumes "\<forall>r \<in> set rows. as_i64 (er_chain_id r) \<noteq> c"
  shows "leaves c (write_enrichment rows)"
proof -
  have "\<forall>r \<in> set trows. as_i64 (er_chain_id r) \<noteq> c" if "(t, trows) \<in> set (enrichment_tables rows)" for t trows
    using that assms group_by_set[of "\<lambda>row. de_table (er_event row)" rows] by (force simp: enrichment_tables_set)
  then show ?thesis unfolding write_enrichment_def by (auto intro!: leaves_intros)
qed

text \<open>A fetched range is a chain's own when all that will be written for it carries the
  chain's id.\<close>

definition own_range :: "chain_id \<Rightarrow> fetched_range \<Rightarrow> bool" where
  "own_range a f \<longleftrightarrow> (\<forall>r \<in> set (fr_records f). rr_chain_id r = a)
     \<and> (\<forall>b \<in> set (ax_block_metas (fr_aux f)). bm_chain_id b = a)
     \<and> (\<forall>r \<in> set (ax_enrichment (fr_aux f)). er_chain_id r = a)"

lemma leaves_commit [leaves_intros]:
  assumes "own_range a f" and "as_i64 a \<noteq> c"
  shows "leaves c (commit a f e adv)" and "leaves c (commit_range a f e)"
proof -
  show com: "leaves c (commit a f e adv)" for adv
    unfolding commit_def commit_ingest_def
    by (intro leaves_intros) (use assms in \<open>auto simp: own_range_def ingest_batch_of_def intro: leaves_intros\<close>)
  show "leaves c (commit_range a f e)" unfolding commit_range_def by (rule com)
qed

lemma leaves_rollback [leaves_intros]:
  assumes "as_i64 a \<noteq> c"
  shows "leaves c (rollback_to a h tbls)"
  unfolding rollback_to_def by (intro leaves_intros assms)

section \<open>A source of one chain\<close>

text \<open>Operations on a larger state that leave a part of it.\<close>

definition frames :: "('s \<Rightarrow> 'v) \<Rightarrow> ('s, 'e, 'a) m \<Rightarrow> bool" where
  "frames v f \<longleftrightarrow> (\<forall>s r s'. f s = (r, s') \<longrightarrow> v s' = v s)"

named_theorems frames_intros

lemma frames_ret [frames_intros, simp]: "frames v (ret x)"
  by (simp add: frames_def ret_def)

lemma frames_modify [frames_intros]: "(\<And>s. v (f s) = v s) \<Longrightarrow> frames v (modify f)"
  by (simp add: frames_def modify_def)

lemma frames_bind_Ok:
  assumes "frames v f" and "\<And>x s s'. f s = (Ok x, s') \<Longrightarrow> frames v (g x)"
  shows "frames v (bind f g)"
  unfolding frames_def
proof (intro allI impI)
  fix s r s' assume b: "bind f g s = (r, s')"
  obtain r1 s1 where f: "f s = (r1, s1)" by fastforce
  then have s1: "v s1 = v s" using assms(1) unfolding frames_def by blast
  show "v s' = v s"
  proof (cases r1)
    case (Ok x)
    then have "g x s1 = (r, s')" using b f by (simp add: bind_def)
    moreover have "frames v (g x)" using assms(2) f Ok by blast
    ultimately show ?thesis using s1 unfolding frames_def by metis
  qed (use b f s1 in \<open>auto simp: bind_def\<close>)
qed

lemma frames_bind [frames_intros]: "frames v f \<Longrightarrow> (\<And>x. frames v (g x)) \<Longrightarrow> frames v (bind f g)"
  by (rule frames_bind_Ok)

text \<open>For a step whose parts depend on the state it starts in.\<close>

lemma framesI: "(\<And>s. v (snd (f s)) = v s) \<Longrightarrow> frames v f"
  unfolding frames_def by (metis snd_conv)

lemma frames_if [frames_intros]: "frames v f \<Longrightarrow> frames v g \<Longrightarrow> frames v (\<lambda>s. if P s then f s else g s)"
  by (simp add: frames_def)

lemma frames_at:
  shows "frames v f \<Longrightarrow> (\<And>x. frames v (g x)) \<Longrightarrow> v s = w \<Longrightarrow> v (snd (bind f g s)) = w"
    and "v s = w \<Longrightarrow> v (snd (ret x s)) = w"
proof -
  assume "frames v f" "\<And>x. frames v (g x)" "v s = w"
  then have "frames v (bind f g)" by (intro frames_bind)
  with \<open>v s = w\<close> show "v (snd (bind f g s)) = w" unfolding frames_def by (metis prod.collapse)
qed (simp add: ret_def)

lemma frames_on_src [frames_intros]: "frames (\<lambda>w. view c (snd w)) (on_src f)"
  by (auto simp: frames_def on_src_def Let_def split: prod.splits)

lemma frames_on_db [frames_intros]: "leaves c f \<Longrightarrow> frames (\<lambda>w. view c (snd w)) (on_db f)"
  by (auto simp: frames_def on_db_def Let_def dest: leavesD split: prod.splits)

lemma frames_on_world [frames_intros]: "frames (\<lambda>w. view c (snd w)) f \<Longrightarrow> frames (\<lambda>s. view c (in_db s)) (on_world f)"
  by (fastforce simp: frames_def on_world_def Let_def split: prod.splits)

text \<open>What the pipeline holds is of the chain.\<close>

definition own_pipe :: "chain_id \<Rightarrow> 'c pipe \<Rightarrow> bool" where
  "own_pipe a s \<longleftrightarrow> (\<forall>f \<in> set (sending_list s @ pi_chan s). own_range a f)"

lemma finish_fetch_db: "pi_db (finish_fetch dr i s) = pi_db s"
  by (auto simp: finish_fetch_def Let_def split: prod.splits res.splits)

lemma leaves_commit_consume [leaves_intros]:
  assumes "own_range a f" and "as_i64 a \<noteq> c"
  shows "leaves c (commit_consume a f p)"
proof -
  have "leaves c (\<lambda>d. (Panic, d))" by (simp add: leaves_iff)
  then show ?thesis unfolding commit_consume_def
    by (auto intro!: leaves_bind leaves_commit leaves_cursor leaves_ret assms split: prod.split option.split outcome.split)
qed

lemma receive_own: "own_pipe a s \<Longrightarrow> own_pipe a (receive dr s)"
  by (auto simp: receive_def own_pipe_def sending_list_def split: list.split prod.split res.split)

lemma receive_isolated:
  assumes "own_pipe (cs_chain_id (dr_source dr)) s" and "as_i64 (cs_chain_id (dr_source dr)) \<noteq> c"
  shows "view c (pi_db (receive dr s)) = view c (pi_db s)"
proof (cases "pi_chan s")
  case (Cons f rest)
  have "own_range (cs_chain_id (dr_source dr)) f" using assms(1) by (simp add: own_pipe_def Cons)
  note lv = leavesD[OF leaves_commit_consume[OF this assms(2)]]
  show ?thesis by (auto simp: receive_def Cons dest!: lv split: prod.split res.split)
qed (simp add: receive_def)

text \<open>The contract of a source that yields the data of its own chain only.\<close>

locale one_chain_source =
  fixes cs :: "'c chain_source"
  assumes own_records: "cs_fetch_records cs filt lo hi w = (Ok recs, w') \<Longrightarrow> r \<in> set recs \<Longrightarrow> rr_chain_id r = cs_chain_id cs"
    and own_metas: "cs_fetch_aux cs recs w = (Ok aux, w') \<Longrightarrow> b \<in> set (ax_block_metas aux) \<Longrightarrow> bm_chain_id b = cs_chain_id cs"
    and own_enrichment: "cs_fetch_aux cs recs w = (Ok aux, w') \<Longrightarrow> row \<in> set (ax_enrichment aux) \<Longrightarrow> er_chain_id row = cs_chain_id cs"
begin

lemma own_fetch:
  assumes "fetch_range cs filt lo hi w = (Ok f, w')"
  shows "own_range (cs_chain_id cs) f"
proof -
  from assms obtain recs w1 aux w2 where f:
    "cs_fetch_records cs filt lo hi w = (Ok recs, w1)"
    "(if recs = [] then ret aux_data_default else cs_fetch_aux cs recs) w1 = (Ok aux, w2)"
    "fr_records f = recs" "fr_aux f = aux"
    unfolding fetch_range_def by (elim bind_OkE) (auto simp: ret_def)
  have "\<forall>b \<in> set (ax_block_metas aux). bm_chain_id b = cs_chain_id cs"
    "\<forall>row \<in> set (ax_enrichment aux). er_chain_id row = cs_chain_id cs"
    using f(2) own_metas own_enrichment by (cases "recs = []"; auto simp: ret_def aux_data_default_def)+
  with f(1,3,4) own_records show ?thesis unfolding own_range_def by blast
qed

lemma frames_ingest_range:
  "as_i64 (cs_chain_id cs) \<noteq> c \<Longrightarrow> frames (\<lambda>w. view c (snd w)) (ingest_range cs filt lo hi e adv)"
  unfolding ingest_range_def
  by (intro frames_bind_Ok frames_on_src frames_on_db) (auto elim!: on_src_OkE intro: leaves_commit own_fetch)

text \<open>A step of the pipeline keeps what it holds the chain's own, and leaves the other chains.\<close>

lemma finish_fetch_own:
  assumes src: "dr_source dr = cs" and own: "own_pipe (cs_chain_id cs) s"
  shows "own_pipe (cs_chain_id cs) (finish_fetch dr i s)"
  using own by (auto simp: finish_fetch_def own_pipe_def sending_list_def Let_def polling_def src
      split: prod.splits res.splits if_splits dest: own_fetch)

lemma pipe_step_own:
  assumes "dr_source dr = cs" and "own_pipe (cs_chain_id cs) s"
  shows "own_pipe (cs_chain_id cs) (pipe_step dr a s)"
proof (cases a)
  case (FinishFetch i)
  with assms finish_fetch_own[of dr s i] show ?thesis by (simp add: pipe_step_def)
next
  case Receive
  with assms receive_own[of _ s] show ?thesis by (simp add: pipe_step_def)
qed (use assms(2) in \<open>auto simp: pipe_step_def own_pipe_def sending_list_def start_fetch_def send_fetched_def
    end_producer_def join_halves_def split: list.splits option.splits if_splits\<close>)

lemma pipe_step_isolated:
  assumes "dr_source dr = cs" and "as_i64 (cs_chain_id cs) \<noteq> c" and "own_pipe (cs_chain_id cs) s"
  shows "view c (pi_db (pipe_step dr a s)) = view c (pi_db s)"
proof (cases a)
  case Receive
  with assms receive_isolated[of dr s c] show ?thesis by (simp add: pipe_step_def)
qed (auto simp: pipe_step_def start_fetch_def send_fetched_def finish_fetch_db
    end_producer_def join_halves_def split: list.splits option.splits)

lemma frames_pipeline:
  assumes "dr_source dr = cs" and "as_i64 (cs_chain_id cs) \<noteq> c"
  shows "frames (\<lambda>w. view c (snd w)) (pipeline_m dr acts next target step)"
proof -
  have f: "own_pipe (cs_chain_id cs) (fold (pipe_step dr) acts s) \<and> view c (pi_db (fold (pipe_step dr) acts s)) = view c (pi_db s)"
    if "own_pipe (cs_chain_id cs) s" for s
    using that pipe_step_isolated[OF assms] pipe_step_own[OF assms(1)] by (induction acts arbitrary: s) simp_all
  have "view c (pi_db s) = view c d" if "run_pipeline dr acts next target step w d = Some s" for s w d
  proof -
    from that obtain s0 where s0: "pipe_init next target step w d = Some s0" "s = fold (pipe_step dr) acts s0"
      by (auto simp: run_pipeline_def)
    then have "own_pipe (cs_chain_id cs) s0" "pi_db s0 = d" by (auto simp: pipe_init_def own_pipe_def sending_list_def)
    with f[of s0] s0(2) show ?thesis by simp
  qed
  then show ?thesis by (auto simp: frames_def pipeline_m_def split: option.splits res.splits)
qed

text \<open>The tip loop and its supervisor.\<close>

lemma frames_reorg_check:
  "as_i64 (cs_chain_id cs) \<noteq> c \<Longrightarrow> frames (\<lambda>w. view c (snd w)) (reorg_check cs tbls conf)"
  unfolding reorg_check_def block_max_height_def block_get_def
  by (auto simp: Let_def intro!: frames_intros leaves_intros split: option.split)

lemma frames_reorg_step:
  assumes src: "dr_source (lc_drive cfg) = cs" and other: "as_i64 (cs_chain_id cs) \<noteq> c"
  shows "frames (\<lambda>s. view c (in_db s)) (reorg_step cfg)"
  by (rule framesI, unfold reorg_step_def Let_def src case_prod_beta)
    (auto intro!: frames_at(1)[where v = "\<lambda>s. view c (in_db s)"] frames_intros frames_reorg_check other split: option.split)

lemma frames_catch_up:
  assumes src: "dr_source (lc_drive cfg) = cs" and other: "as_i64 (cs_chain_id cs) \<noteq> c"
  shows "frames (\<lambda>s. view c (in_db s)) (catch_up cfg acts safe)"
  by (rule framesI, unfold catch_up_def Let_def src)
    (auto intro!: frames_at(1)[where v = "\<lambda>s. view c (in_db s)"] frames_intros leaves_cursor
      frames_pipeline src other split: option.split)

lemma frames_ingest_iter:
  assumes src: "dr_source (lc_drive cfg) = cs" and other: "as_i64 (cs_chain_id cs) \<noteq> c"
  shows "frames (\<lambda>s. view c (in_db s)) (ingest_iter cfg e)"
proof -
  let ?v = "\<lambda>s. view c (in_db s)"
  have sub: "frames ?v (subscribe_step cfg)"
    by (auto simp: frames_def subscribe_step_def split: prod.splits res.splits)
  have wait: "frames ?v (wait_step cfg w)" for w
    by (rule framesI) (auto simp: wait_step_def Let_def split: wake.split prod.split outcome.split)
  have poll: "frames ?v (poll_step cfg acts)" for acts
    by (rule framesI, unfold poll_step_def Let_def)
      (auto intro!: frames_at[where v = ?v] frames_intros frames_catch_up src other split: option.split)
  show ?thesis
    by (rule framesI, unfold ingest_iter_def)
      (auto intro!: frames_at[where v = ?v] frames_intros sub frames_reorg_step src other poll wait)
qed

lemma frames_ingest_loop:
  assumes src: "dr_source (lc_drive cfg) = cs" and other: "as_i64 (cs_chain_id cs) \<noteq> c"
  shows "frames (\<lambda>w. view c (snd w)) (ingest_loop cfg es)"
proof -
  have iters: "frames (\<lambda>s. view c (in_db s)) (ingest_iters cfg es)"
    by (induction es) (auto intro!: frames_intros frames_ingest_iter src other)
  have "leaves c (cursor_get (cs_chain_id cs))" unfolding cursor_get_def by (intro leaves_intros)
  moreover have "frames (\<lambda>w. view c (snd w)) (\<lambda>w. let (r, s) = ingest_iters cfg es (ingest_start cfg cursor (fst w) (snd w))
       in (r, (in_src s, in_db s)))" for cursor
    using iters by (fastforce simp: frames_def ingest_start_def Let_def split: prod.splits)
  ultimately have "frames (\<lambda>w. view c (snd w)) (bind (on_db (cursor_get (cs_chain_id cs))) (\<lambda>cursor w.
      let (r, s) = ingest_iters cfg es (ingest_start cfg cursor (fst w) (snd w)) in (r, (in_src s, in_db s))))"
    by (intro frames_intros)
  then show ?thesis by (simp add: frames_def ingest_loop_def src)
qed

lemma supervise_isolated:
  assumes src: "dr_source (lc_drive cfg) = cs" and other: "as_i64 (cs_chain_id cs) \<noteq> c"
  shows "view c (snd (supervise cfg attempts b d)) = view c d"
proof (induction attempts arbitrary: b d)
  case (Cons a rest)
  obtain r d' where r: "run_chain_once cfg a d = (r, d')" by fastforce
  then have "view c d' = view c d"
    using frames_ingest_loop[OF assms, of "ae_ticks a"]
    by (fastforce simp: run_chain_once_def frames_def Let_def split: res.splits prod.splits)
  with Cons.IH[of "min (b * 2) 30" d'] show ?case
    by (auto simp: r Let_def split: res.split prod.splits)
qed simp

end

text \<open>The JSON-RPC client keeps the contract, whatever the endpoint answers.\<close>

lemma rpc_fetch_own:
  assumes "fetch_records src filt lo hi s = Some (Ok recs, s')" and "r \<in> set recs"
  shows "rr_chain_id r = rs_chain_id src"
proof -
  from assms(1) obtain ls where "map_logs (rs_chain_id src) ls = Ok recs"
    by (auto simp: fetch_records_def and_then_Ok split: outcome.splits option.splits)
  from map_logs_record[OF this assms(2)] show ?thesis by simp
qed

lemma rpc_aux_own:
  assumes "fetch_aux sched src recs s = (Ok aux, s')"
  shows "(\<forall>b \<in> set (ax_block_metas aux). bm_chain_id b = rs_chain_id src) \<and> (\<forall>row \<in> set (ax_enrichment aux). er_chain_id row = rs_chain_id src)"
proof -
  obtain bs rs aux1 where b: "block_aux (rs_chain_id src) bs (tx_ids_of recs) aux_data_default = Ok aux1"
    and a: "aux = receipt_aux (rs_chain_id src) rs (tx_loc_of recs) aux1"
    using assms by (elim fetch_aux_OkE)
  have "er_chain_id row = cid" if "row \<in> set (matched_txs cid ids bl i txs)" for row cid ids bl i txs
    using that by (elim matched_txs_rows) (simp add: transaction_row_def aux_row_def)
  moreover have "er_chain_id row = cid" if "row \<in> set (receipt_rows cid loc p)" for row cid loc p
    using that by (auto simp: receipt_rows_def receipt_row_def aux_row_def split: option.splits)
  ultimately show ?thesis using block_aux_OkD[OF b]
    by (auto simp: a receipt_aux_eq aux_data_default_def block_meta_of_def)
qed

interpretation rpc: one_chain_source "rpc_chain_source sched src" for sched src
  by unfold_locales (auto simp: rpc_chain_source_def split: option.splits dest: rpc_fetch_own rpc_aux_own)

section \<open>A decoder of one chain\<close>

lemma leaves_block_calldata [leaves_intros]: "leaves c (block_calldata a ids)"
proof -
  have "leaves c (calldata_stmt a part)" for part
    unfolding calldata_stmt_def by (rule leaves_stmt) (auto split: option.splits)
  then show ?thesis unfolding block_calldata_def by (intro leaves_intros)
qed

lemma leaves_write_tables [leaves_intros]:
  "\<forall>(t, rows) \<in> set g. \<forall>r \<in> set rows. as_i64 (er_chain_id r) \<noteq> c \<Longrightarrow> leaves c (write_tables g)"
  unfolding write_tables_def by (auto intro!: leaves_intros)

lemma table_groups_rows:
  assumes "permutes hi" and "(t, grp) \<in> set (table_groups hi rows)"
  shows "set grp \<subseteq> set rows"
  using assms group_by_set[of "\<lambda>row. de_table (er_event row)" rows] by (force simp: table_groups_set)

lemma block_calldata_own:
  "block_calldata a ids s = (Ok txs, s') \<Longrightarrow> tx \<in> set txs \<Longrightarrow> tc_chain_id tx = a"
  by (auto dest!: block_calldata_OkD simp: calldata_of_def calldata_of_row_def split: option.splits res.splits if_splits)

text \<open>The contract of a decoder that decodes into the chain of its input.\<close>

locale one_chain_decoder =
  fixes dec :: decoder
  assumes own_events: "dc_decode dec r = Ok (Some row) \<Longrightarrow> er_chain_id row = rr_chain_id r"
    and own_calls: "dc_decode_call dec tx = Ok (Some row) \<Longrightarrow> er_chain_id row = tc_chain_id tx"
begin

lemma own_decoded:
  assumes "raw_range a lo up s = (Ok raw, s1)" and "decode_all (dc_decode dec) tms raw = Ok events"
  shows "\<forall>row \<in> set events. er_chain_id row = a"
  using assms by (auto dest!: decode_all_Ok raw_range_OkD own_events simp: stamp_def range_of_def record_of_raw_row_def)

lemma own_decoded_calls:
  assumes "(if dc_has_calls dec then bind (block_calldata a ids) (\<lambda>txs. lift (decode_all (dc_decode_call dec) tms txs)) else ret []) s
      = (Ok calls, s')"
  shows "\<forall>row \<in> set calls. er_chain_id row = a"
proof (cases "dc_has_calls dec")
  case True
  with assms obtain txs s1 where "block_calldata a ids s = (Ok txs, s1)" "decode_all (dc_decode_call dec) tms txs = Ok calls"
    by (auto elim!: bind_OkE simp: lift_def)
  then have "\<forall>tx \<in> set txs. tc_chain_id tx = a" "set calls = {stamp tms row | x row. x \<in> set txs \<and> dc_decode_call dec x = Ok (Some row)}"
    using block_calldata_own decode_all_Ok by blast+
  then show ?thesis using own_calls by (auto simp: stamp_def)
qed (use assms in \<open>simp add: ret_def\<close>)

lemma leaves_decode_range:
  assumes "as_i64 a \<noteq> c" and "permutes hi"
  shows "leaves c (decode_range hi dec a lo up)"
  unfolding decode_range_def
proof (intro leaves_bind_Ok)
  show "leaves c (raw_range a lo up)" "leaves c (block_times a lo up)" for c
    unfolding raw_range_def block_times_def by (intro leaves_intros)+
  fix raw tms events calls s s' s1 s1' s2 s2'
  show "leaves c (lift (decode_all (dc_decode dec) tms raw))" by simp
  show "leaves c (if dc_has_calls dec then bind (block_calldata a (hi_ids hi (remdups (map rr_tx_id raw))))
      (\<lambda>txs. lift (decode_all (dc_decode_call dec) tms txs)) else ret [])"
    by (auto intro!: leaves_intros)
  assume "raw_range a lo up s = (Ok raw, s')" "lift (decode_all (dc_decode dec) tms raw) s1 = (Ok events, s1')"
    "(if dc_has_calls dec then bind (block_calldata a (hi_ids hi (remdups (map rr_tx_id raw))))
      (\<lambda>txs. lift (decode_all (dc_decode_call dec) tms txs)) else ret []) s2 = (Ok calls, s2')"
  then have "\<forall>row \<in> set (events @ calls). er_chain_id row = a"
    using own_decoded own_decoded_calls by (auto dest!: lift_OkD)
  then show "leaves c (write_tables (table_groups hi (events @ calls)))"
    using assms(1) table_groups_rows[OF assms(2), of _ _ "events @ calls"] by (intro leaves_write_tables) fast
qed

end

interpretation evm: one_chain_decoder "evm_port lib d" for lib d
  by unfold_locales (auto simp: evm_port_def abi_decode_def abi_decode_call_def map_ok_Ok split: list.splits option.splits if_splits)

section \<open>The decode worker\<close>

lemma view_queue:
  "filter (\<lambda>q. wq_chain_id q = c) rows = filter (\<lambda>q. wq_chain_id q = c) (work_queue s) \<Longrightarrow> view c (s\<lparr>work_queue := rows\<rparr>) = view c s"
  by (simp add: view_def)

text \<open>Within the table, the id of the leased row determines its chain.\<close>

lemma leased_chain:
  assumes "ready_row s = Some q" and "distinct (map wq_id (work_queue s))" and "x \<in> set (work_queue (pulled s))" and "wq_id x = wq_id q"
  shows "wq_chain_id x = wq_chain_id q"
proof -
  obtain y where y: "y \<in> set (work_queue s)" "wq_id y = wq_id x" "wq_chain_id y = wq_chain_id x"
    using assms(1,3) by (auto simp: pulled_def leased_def split: if_splits)
  have "q \<in> set (work_queue s)" using ready_rowD[OF assms(1)] by simp
  with y assms(2,4) show ?thesis by (metis distinct_map inj_onD)
qed

lemma view_pulled:
  assumes "ready_row s = Some q" and "distinct (map wq_id (work_queue s))" and "wq_chain_id q \<noteq> c"
  shows "view c (pulled s) = view c s"
proof -
  have "wq_chain_id x = wq_chain_id q" if "x \<in> set (work_queue s)" "wq_id x = wq_id q" for x
    using that assms(2) ready_rowD[OF assms(1)] by (metis distinct_map inj_onD)
  then show ?thesis using assms(1,3) by (auto simp: pulled_def leased_def intro!: view_queue filter_replace)
qed

lemma view_ack:
  assumes "ack i n s = (r, s')" and "\<forall>x \<in> set (work_queue s). wq_id x = i \<longrightarrow> wq_chain_id x \<noteq> c"
  shows "view c s' = view c s"
  using assms(1)
proof (cases rule: ack_cases)
  case 1
  have "view c s' = view c (s\<lparr>work_queue := filter (\<lambda>q. \<not> (wq_id q = i \<and> wq_lease_seq q = n)) (work_queue s)\<rparr>)"
    by (simp add: 1 view_def)
  also have "\<dots> = view c s" using assms(2) by (intro view_queue) (auto simp: filter_filter intro!: filter_cong)
  finally show ?thesis .
qed simp

lemma as_i64_bigint: "- (2 ^ 63) \<le> i \<Longrightarrow> i < 2 ^ 63 \<Longrightarrow> as_i64 (as_u64 i) = i"
proof -
  assume i: "- (2 ^ 63) \<le> i" "i < 2 ^ 63"
  show ?thesis
  proof (cases "0 \<le> i")
    case True
    with i have "i mod 2 ^ 64 = i" by simp
    with i True show ?thesis by (simp add: as_u64_def as_i64_small)
  next
    case False
    with i have "(i + 2 ^ 64) mod 2 ^ 64 = i + 2 ^ 64" by (intro mod_pos_pos_trivial) auto
    then have "i mod 2 ^ 64 = i + 2 ^ 64" by simp
    with i False show ?thesis by (simp add: as_u64_def as_i64_def nat_less_iff)
  qed
qed

definition bigint :: "int \<Rightarrow> bool" where
  "bigint i \<longleftrightarrow> - (2 ^ 63) \<le> i \<and> i < 2 ^ 63"

lemma leased_item_isolated:
  assumes q: "ready_row s = Some q" "wq_chain_id q \<noteq> c" "bigint (wq_chain_id q)" and dist: "distinct (map wq_id (work_queue s))"
    and "permutes hi" and decs: "\<forall>a dec. decoders a = Some dec \<longrightarrow> one_chain_decoder dec" and l: "l = le_item (lease_of q)"
    and run: "bind (decode_leased hi decoders l) (\<lambda>written. bind (ack (wq_id q) n) (\<lambda>_. ret (Some written)))
        ((pulled s)\<lparr>faults := fs\<rparr>) = (r, s')"
  shows "view c s' = view c s"
proof -
  have other: "as_i64 (wi_chain_id l) \<noteq> c" using q(2,3) by (simp add: l lease_of_def as_i64_bigint bigint_def)
  have dec: "leaves c (decode_leased hi decoders l)"
    unfolding decode_leased_def
    using decs one_chain_decoder.leaves_decode_range[OF _ other \<open>permutes hi\<close>] by (auto split: option.split)
  obtain r1 s1 where d: "decode_leased hi decoders l ((pulled s)\<lparr>faults := fs\<rparr>) = (r1, s1)" by fastforce
  have v1: "view c s1 = view c s" using leavesD[OF dec d] view_pulled[OF q(1) dist q(2)] by simp
  have "keeps (\<lambda>t. work_queue t = work_queue (pulled s)) (decode_leased hi decoders l)"
    unfolding decode_leased_def using keeps_queue_decode by (auto split: option.split)
  from keepsD[OF this _ d] have wq: "work_queue s1 = work_queue (pulled s)" by simp
  show ?thesis
  proof (cases r1)
    case (Ok x)
    obtain r2 s2 where a: "ack (wq_id q) n s1 = (r2, s2)" by fastforce
    have "view c s2 = view c s1"
      using leased_chain[OF q(1) dist] q(2) by (intro view_ack[OF a]) (auto simp: wq)
    then show ?thesis using run d Ok a v1 by (cases r2) (auto simp: bind_def ret_def)
  qed (use run d v1 in \<open>auto simp: bind_def\<close>)
qed

text \<open>
  A decode worker writes only to the chain of the item it leased. Whatever \<open>run_once\<close> returns
  and wherever it fails, each chain other than the one of the oldest ready item keeps its blocks,
  cursor, raw records, queue rows and rows in every typed table, if the decoders are those of
  the registry and queue ids are unique.
\<close>

theorem worker_isolated:
  assumes "run_once hi decoders s = (r, s')" and "permutes hi" and "distinct (map wq_id (work_queue s))"
    and "\<forall>a dec. decoders a = Some dec \<longrightarrow> (\<exists>lib d. dec = evm_port lib d)"
    and "\<forall>q. ready_row s = Some q \<longrightarrow> bigint (wq_chain_id q) \<and> wq_chain_id q \<noteq> c"
  shows "view c s' = view c s"
proof -
  have decs: "\<forall>a dec. decoders a = Some dec \<longrightarrow> one_chain_decoder dec" using assms(4) evm.one_chain_decoder_axioms by blast
  obtain r0 s0 where p: "pull_any s = (r0, s0)" by fastforce
  show ?thesis
  proof (cases rule: pull_any_cases[OF p])
    case (2 e)
    with assms(1) p show ?thesis by (auto simp: run_once_def bind_def)
  next
    case 1
    show ?thesis
    proof (cases "ready_row s")
      case None
      with assms(1) p 1 show ?thesis by (auto simp: run_once_def bind_def ret_def pulled_def)
    next
      case (Some q)
      have "run_once hi decoders s = bind (decode_leased hi decoders (le_item (lease_of q))) (\<lambda>written.
          bind (ack (wq_id q) (wq_lease_seq q + 1)) (\<lambda>_. ret (Some written))) ((pulled s)\<lparr>faults := tl (faults s)\<rparr>)"
        using p 1 Some by (simp add: run_once_def bind_def decode_leased_def split: option.split)
      with assms(1) have "bind (decode_leased hi decoders (le_item (lease_of q))) (\<lambda>written.
          bind (ack (wq_id q) (wq_lease_seq q + 1)) (\<lambda>_. ret (Some written))) ((pulled s)\<lparr>faults := tl (faults s)\<rparr>) = (r, s')" by simp
      with assms(5) Some show ?thesis
        by (intro leased_item_isolated[OF Some _ _ assms(3,2) decs refl]) auto
    qed
  qed
qed

theorem worker_isolated_witness:
  "\<exists>d. build_decoder demo_abi (\<lambda>p. Inr p) demo_chain_cfg ''etc'' = Ok d
     \<and> view 6 (snd (run_once demo_hash_iter [5 \<mapsto> evm_port demo_abi d] demo_db)) = view 6 demo_db
     \<and> cv_queue (view 6 demo_db) = [queue_row_of 2 (demo_item 6 50)]"
proof -
  obtain d where d: "build_decoder demo_abi (\<lambda>p. Inr p) demo_chain_cfg ''etc'' = Ok d" using demo_decoder_builds by blast
  obtain r s' where r: "run_once demo_hash_iter [5 \<mapsto> evm_port demo_abi d] demo_db = (r, s')" by fastforce
  have "view 6 s' = view 6 demo_db"
    by (rule worker_isolated[OF r permutes_demo])
      (auto simp: demo_db_queue demo_ready queue_row_of_def demo_item_def as_i64_small bigint_def)
  with d r show ?thesis by (auto simp: view_def demo_db_queue queue_row_of_def demo_item_def as_i64_small)
qed

text \<open>
  Chains do not interfere. The supervised ingestion of a chain over JSON-RPC, through any
  answers of its endpoint, reorganisations, failures, restarts and cancellations, leaves
  every other chain as it is: blocks, cursor, raw records, queue rows and the rows of every
  typed table.
\<close>

theorem supervised_chain_isolated:
  assumes "dr_source (lc_drive cfg) = rpc_chain_source sched src" and "as_i64 (rs_chain_id src) \<noteq> c"
  shows "view c (snd (supervised_ingest cfg attempts d)) = view c d"
  unfolding supervised_ingest_def
  by (rule rpc.supervise_isolated[OF assms(1)]) (use assms(2) in \<open>simp add: rpc_chain_source_def\<close>)

definition demo_loop :: "nat rpc loop_cfg" where
  "demo_loop = \<lparr>lc_drive = demo_rpc_drive, lc_tables = [''transfers''], lc_confirmations = 2, lc_start_block = 1, lc_step = 50,
     lc_interval = 12\<rparr>"

theorem supervised_chain_isolated_witness:
  "view 6 (snd (supervised_ingest demo_loop
       [\<lparr>ae_cancelled = False, ae_built = Ok demo_rpc, ae_ticks = [tip_env WakeTimeout], ae_sleep_cancelled = False\<rparr>] demo_db))
     = view 6 demo_db \<and> cv_queue (view 6 demo_db) \<noteq> []"
proof -
  have "dr_source (lc_drive demo_loop) = rpc_chain_source demo_sched demo_source" "as_i64 (rs_chain_id demo_source) \<noteq> 6"
    by (simp_all add: demo_loop_def demo_rpc_drive_def demo_source_def rpc_source_new_def as_i64_small)
  from supervised_chain_isolated[OF this] show ?thesis
    by (simp add: view_def[of 6 demo_db] demo_db_queue queue_row_of_def demo_item_def as_i64_small)
qed

end
