(* ===== verification/Fleet.thy ===== *)
theory Fleet
  imports Isolation
begin

text \<open>
  The chains of \<open>run\<close> on one database (\<open>bins/indexer-cli/src/commands.rs\<close>,
  \<open>bins/indexer-cli/src/worker.rs\<close>): a drive per chain, the pool of decode workers and the
  reclaim ticker, interleaved step by step. The drives write the same tables through the same
  queue, so what a drive promises has to survive the steps of all the others; the isolation of
  the chains gives this.
\<close>

section \<open>The system\<close>

text \<open>A drive of one chain: the heights, the step and the state of its source.\<close>

record 'c chain_job =
  cj_drive :: "'c drive"
  cj_next :: nat
  cj_target :: nat
  cj_step :: nat
  cj_src :: 'c

record 'c fleet =
  fl_pipes :: "'c pipe list"
  fl_workers :: "worker list"
  fl_db :: db

datatype fleet_action = ChainAct nat pipe_action | FleetWorker nat | FleetReclaim | FleetClock nat

text \<open>The database is shared: a step of a drive starts from it and leaves it to the next one.\<close>

definition on_shared :: "db \<Rightarrow> 'c pipe \<Rightarrow> 'c pipe" where
  "on_shared d p = p\<lparr>pi_db := d\<rparr>"

fun fleet_step :: "'c drive list \<Rightarrow> hash_iter \<Rightarrow> (chain_id \<Rightarrow> decoder option) \<Rightarrow> fleet_action \<Rightarrow> 'c fleet \<Rightarrow> 'c fleet" where
  "fleet_step drs hi decoders (ChainAct i a) s =
     (if length (fl_pipes s) \<le> i then s
      else let p = pipe_step (drs ! i) a (on_shared (fl_db s) (fl_pipes s ! i))
           in s\<lparr>fl_pipes := (fl_pipes s)[i := p], fl_db := pi_db p\<rparr>)"
| "fleet_step drs hi decoders (FleetWorker i) s =
     (if length (fl_workers s) \<le> i then s
      else let (w, d) = worker_step hi decoders (fl_workers s ! i) (fl_db s)
           in s\<lparr>fl_workers := (fl_workers s)[i := w], fl_db := d\<rparr>)"
| "fleet_step drs hi decoders FleetReclaim s = s\<lparr>fl_db := reclaim_tick (fl_db s)\<rparr>"
| "fleet_step drs hi decoders (FleetClock n) s = s\<lparr>fl_db := (fl_db s)\<lparr>clock := clock (fl_db s) + n\<rparr>\<rparr>"

definition run_fleet :: "hash_iter \<Rightarrow> (chain_id \<Rightarrow> decoder option) \<Rightarrow> nat \<Rightarrow> 'c chain_job list \<Rightarrow> fleet_action list \<Rightarrow> db
    \<Rightarrow> 'c fleet option" where
  "run_fleet hi decoders workers jobs acts d = map_option
     (\<lambda>ps. fold (fleet_step (map cj_drive jobs) hi decoders) acts
        \<lparr>fl_pipes = ps, fl_workers = spawn_worker_pool workers, fl_db = d\<rparr>)
     (those (map (\<lambda>j. pipe_init (cj_next j) (cj_target j) (cj_step j) (cj_src j) d) jobs))"

section \<open>What a drive relies on\<close>

text \<open>The cursor and the raw records of a chain.\<close>

definition same_data :: "int \<Rightarrow> db \<Rightarrow> db \<Rightarrow> bool" where
  "same_data c d d' \<longleftrightarrow> cv_raw (view c d') = cv_raw (view c d) \<and> cv_cursors (view c d') = cv_cursors (view c d)"

lemma same_data_view: "view c d' = view c d \<Longrightarrow> same_data c d d'"
  by (simp add: same_data_def)

lemma same_data_stored: "stored d' = stored d \<Longrightarrow> same_data c d d'"
  by (intro same_data_view view_stored)

lemma same_data_tables: "raw_records d' = raw_records d \<Longrightarrow> cursors d' = cursors d \<Longrightarrow> same_data c d d'"
  by (simp add: same_data_def view_def)

text \<open>A fetched range of the chain is stored.\<close>

definition stored_own :: "chain_id \<Rightarrow> db \<Rightarrow> fetched_range \<Rightarrow> bool" where
  "stored_own cid d f \<longleftrightarrow> (\<forall>rec \<in> set (fr_records f). rr_chain_id rec = cid \<longrightarrow>
     raw_key (raw_row_of rec) \<in> raw_key ` set (cv_raw (view (as_i64 cid) d)))"

lemma stored_own_iff:
  "stored_own cid d f \<longleftrightarrow> (\<forall>rec \<in> set (fr_records f). rr_chain_id rec = cid \<longrightarrow> raw_key (raw_row_of rec) \<in> raw_key ` set (raw_records d))"
proof -
  have "raw_key (raw_row_of rec) \<in> raw_key ` set (filter (\<lambda>r. rw_chain_id r = as_i64 cid) rows) \<longleftrightarrow> raw_key (raw_row_of rec) \<in> raw_key ` set rows"
    if "rr_chain_id rec = cid" for rec rows
    using that by (force simp: raw_key_def raw_row_of_def)
  then show ?thesis by (auto simp: stored_own_def view_def)
qed

lemma stored_own_grow:
  "stored_own cid d f \<Longrightarrow> raw_key ` set (raw_records d) \<subseteq> raw_key ` set (raw_records d') \<Longrightarrow> stored_own cid d' f"
  unfolding stored_own_iff by blast

lemma stored_own_same: "same_data (as_i64 cid) d d' \<Longrightarrow> stored_own cid d' f = stored_own cid d f"
  by (simp add: stored_own_def same_data_def)

interpretation own_raw: range_store cid "stored_own cid" for cid
proof
  fix f d out d' assume "commit_range cid f 0 d = (Ok out, d')"
  then show "stored_own cid d' f"
    by (cases rule: commit_range_cases) (auto simp: stored_own_iff commit_effect_raw)
next
  fix f d r d' g assume "commit_range cid f 0 d = (r, d')" and g: "stored_own cid d g"
  then show "stored_own cid d' g"
  proof (cases rule: commit_range_cases)
    case (1 out fs)
    then show ?thesis using stored_own_grow[OF g] by (simp add: commit_effect_raw)
  qed (use g stored_own_same[OF same_data_stored] in blast)
next
  fix h hs d r d' g assume "cursor_advance cid h hs d = (r :: (domain_error, unit) res, d')" and g: "stored_own cid d g"
  then show "stored_own cid d' g"
  proof (cases rule: cursor_advance_cases)
    case (1 fs)
    then show ?thesis using stored_own_grow[OF g] by (simp add: cursor_put_def)
  qed (use g stored_own_same[OF same_data_stored] in blast)
qed

lemma same_cursor:
  assumes "same_data c d d'"
  shows "\<forall>r. cu_chain_id r = c \<longrightarrow> (r \<in> set (cursors d') \<longleftrightarrow> r \<in> set (cursors d))"
proof -
  have "set (filter (\<lambda>r. cu_chain_id r = c) (cursors d')) = set (filter (\<lambda>r. cu_chain_id r = c) (cursors d))"
    using assms by (simp add: same_data_def view_def)
  then show ?thesis by auto
qed

text \<open>The invariant of a drive survives a step that leaves the chain's cursor and records.\<close>

lemma pipe_inv_same:
  assumes "pipe_inv (stored_own (cs_chain_id (dr_source dr))) dr start plan rows0 fs (on_shared d p)"
    and "same_data (as_i64 (cs_chain_id (dr_source dr))) d d'"
  shows "pipe_inv (stored_own (cs_chain_id (dr_source dr))) dr start plan rows0 fs (on_shared d' p)"
proof -
  have "flow_inv dr plan fs (on_shared d' p)" "result_inv (on_shared d' p)"
    using assms(1) by (simp_all add: pipe_inv_def on_shared_def flow_inv_def owned_def lossless_def sending_list_def result_inv_def)
  moreover have "cursor_inv (cs_chain_id (dr_source dr)) rows0 plan (on_shared d p)" using assms(1) by (simp add: pipe_inv_def)
  then have "cursor_inv (cs_chain_id (dr_source dr)) rows0 plan (on_shared d' p)"
    using same_cursor[OF assms(2)] unfolding cursor_inv_def on_shared_def by simp blast
  moreover have "cursor_at (cs_chain_id (dr_source dr)) start (on_shared d' p)"
    using assms(1) same_cursor[OF assms(2)] by (auto simp: pipe_inv_def cursor_at_def on_shared_def)
  ultimately show ?thesis
    using assms(1) stored_own_same[OF assms(2)] by (simp add: pipe_inv_def on_shared_def)
qed

section \<open>What the others guarantee\<close>

text \<open>Workers and the reclaim ticker touch neither records nor cursors.\<close>

lemma worker_step_same: "worker_step hi decoders w d = (w', d') \<Longrightarrow> same_data c d d'"
proof (cases w)
  case Idle
  obtain r d1 where p: "pull_any d = (r, d1)" by fastforce
  assume "worker_step hi decoders w d = (w', d')"
  then have "d' = d1" using Idle p by (auto split: res.splits option.splits)
  then show ?thesis by (cases rule: pull_any_cases[OF p]) (auto simp: pulled_def intro!: same_data_tables split: option.split)
next
  case (Holding l)
  let ?P = "\<lambda>s. raw_records s = raw_records d \<and> cursors s = cursors d"
  have inv: "db_invariant ?P" unfolding db_invariant_def by (metis stored_fields(2,3))
  have "keeps ?P (event_insert_stmt table part)" for table part
    unfolding event_insert_stmt_def
    by (rule keeps_stmt[OF inv]) (auto simp: Let_def split: option.splits prod.splits if_splits)
  from keeps_decode[OF inv this] have "keeps ?P (decode_item hi decoders (le_item l))"
    unfolding decode_item_def by (auto split: option.split)
  moreover assume "worker_step hi decoders w d = (w', d')"
  then obtain r where "decode_item hi decoders (le_item l) d = (r, d')"
    using Holding by (cases "decode_item hi decoders (le_item l) d") (auto split: res.splits)
  ultimately have "?P d'" using keepsD[of ?P _ d] by blast
  then show ?thesis by (intro same_data_tables) auto
next
  case (Finished l)
  obtain r d1 where p: "ack (le_id l) (le_seq l) d = (r, d1)" by fastforce
  assume "worker_step hi decoders w d = (w', d')"
  then have "d' = d1" using Finished p by (auto split: res.splits)
  then show ?thesis by (cases rule: ack_cases[OF p]) (auto intro!: same_data_tables)
qed (auto simp: same_data_def)

lemma reclaim_tick_same: "same_data c d (reclaim_tick d)"
proof -
  obtain r d' where p: "reclaim_expired 60 d = (r, d')" by fastforce
  then show ?thesis
    by (cases rule: reclaim_cases[OF p]) (auto simp: reclaim_tick_def reclaim_def intro!: same_data_tables)
qed

section \<open>The composition\<close>

abbreviation cj_chain :: "'c chain_job \<Rightarrow> chain_id" where
  "cj_chain j \<equiv> cs_chain_id (dr_source (cj_drive j))"

abbreviation cj_plan :: "'c chain_job \<Rightarrow> (nat \<times> nat) list" where
  "cj_plan j \<equiv> spans (cj_next j) (cj_target j) (cj_step j)"

text \<open>The drives are of distinct chains, and their sources yield their own chain's data.\<close>

definition jobs_ok :: "'c chain_job list \<Rightarrow> bool" where
  "jobs_ok jobs \<longleftrightarrow> distinct (map (\<lambda>j. as_i64 (cj_chain j)) jobs)
     \<and> (\<forall>j \<in> set jobs. 0 < cj_step j \<and> cj_target j + cj_step j < 2 ^ 63 \<and> cj_next j \<le> cj_target j + 1
          \<and> one_chain_source (dr_source (cj_drive j)))"

definition drive_inv :: "cursor_row set \<Rightarrow> 'c chain_job \<Rightarrow> db \<Rightarrow> 'c pipe \<Rightarrow> bool" where
  "drive_inv rows0 j d p \<longleftrightarrow> own_pipe (cj_chain j) p
     \<and> (\<exists>fs. pipe_inv (stored_own (cj_chain j)) (cj_drive j) (cj_next j) (cj_plan j) rows0 fs (on_shared d p))"

definition fleet_inv :: "cursor_row set \<Rightarrow> 'c chain_job list \<Rightarrow> 'c fleet \<Rightarrow> bool" where
  "fleet_inv rows0 jobs s \<longleftrightarrow> list_all2 (\<lambda>j p. drive_inv rows0 j (fl_db s) p) jobs (fl_pipes s)"

lemma drive_inv_same: "drive_inv rows0 j d p \<Longrightarrow> same_data (as_i64 (cj_chain j)) d d' \<Longrightarrow> drive_inv rows0 j d' p"
  unfolding drive_inv_def using pipe_inv_same by blast

lemma fleet_inv_same:
  assumes "fleet_inv rows0 jobs s" and "fl_pipes s' = fl_pipes s" and "\<And>c. same_data c (fl_db s) (fl_db s')"
  shows "fleet_inv rows0 jobs s'"
  using assms(1) unfolding fleet_inv_def assms(2) by (rule list_all2_mono) (use drive_inv_same assms(3) in blast)

lemma own_pipe_shared [simp]: "own_pipe a (on_shared d p) = own_pipe a p"
  by (simp add: own_pipe_def on_shared_def sending_list_def)

lemma on_shared_self [simp]: "on_shared (pi_db p) p = p" "on_shared d (on_shared d' p) = on_shared d p" "pi_db (on_shared d p) = d"
  by (simp_all add: on_shared_def)

lemma own_step:
  assumes "drive_inv rows0 j d p" and "one_chain_source (dr_source (cj_drive j))" and "0 < cj_step j"
    and "cj_target j + cj_step j < 2 ^ 63" and "cj_next j \<le> cj_target j + 1" and p': "p' = pipe_step (cj_drive j) a (on_shared d p)"
  shows "drive_inv rows0 j (pi_db p') p'" and "as_i64 (cj_chain j) \<noteq> c \<Longrightarrow> view c (pi_db p') = view c d"
proof -
  obtain fs where own: "own_pipe (cj_chain j) (on_shared d p)"
    and inv: "pipe_inv (stored_own (cj_chain j)) (cj_drive j) (cj_next j) (cj_plan j) rows0 fs (on_shared d p)"
    using assms(1) by (auto simp: drive_inv_def)
  have ch: "contiguous (cj_next j) (cj_plan j) (cj_target j + 1)" using assms(3,5) by (rule contiguous_spans)
  have e: "cj_target j + 1 < 2 ^ 64" using assms(3,4) by simp
  obtain fs' where "pipe_inv (stored_own (cj_chain j)) (cj_drive j) (cj_next j) (cj_plan j) rows0 fs' p'"
    using own_raw.pipe_step_inv[OF inv ch e refl, of a] unfolding p' by blast
  moreover have iso: "own_pipe (cj_chain j) p' \<and> (as_i64 (cj_chain j) \<noteq> c \<longrightarrow> view c (pi_db p') = view c d)" for c
    using one_chain_source.pipe_step_isolated[OF assms(2) refl _ own, of _ a] one_chain_source.pipe_step_own[OF assms(2) refl own, of a]
    unfolding p' by simp
  ultimately show "drive_inv rows0 j (pi_db p') p'" by (auto simp: drive_inv_def)
  show "as_i64 (cj_chain j) \<noteq> c \<Longrightarrow> view c (pi_db p') = view c d" using iso by blast
qed

lemma chain_act_inv:
  assumes ok: "jobs_ok jobs" and inv: "fleet_inv rows0 jobs s" and i: "i < length (fl_pipes s)"
    and p': "p' = pipe_step (cj_drive (jobs ! i)) a (on_shared (fl_db s) (fl_pipes s ! i))"
  shows "fleet_inv rows0 jobs (s\<lparr>fl_pipes := (fl_pipes s)[i := p'], fl_db := pi_db p'\<rparr>)"
proof -
  have len: "length jobs = length (fl_pipes s)" and each: "\<And>k. k < length jobs \<Longrightarrow> drive_inv rows0 (jobs ! k) (fl_db s) (fl_pipes s ! k)"
    using inv by (auto simp: fleet_inv_def list_all2_conv_all_nth)
  have job: "one_chain_source (dr_source (cj_drive (jobs ! i)))" "0 < cj_step (jobs ! i)"
    "cj_target (jobs ! i) + cj_step (jobs ! i) < 2 ^ 63" "cj_next (jobs ! i) \<le> cj_target (jobs ! i) + 1"
    using ok i len by (auto simp: jobs_ok_def)
  have ij: "i < length jobs" using i len by simp
  note step = own_step[OF each[OF ij] job p']
  have "drive_inv rows0 (jobs ! k) (pi_db p') ((fl_pipes s)[i := p'] ! k)" if k: "k < length jobs" for k
  proof (cases "k = i")
    case False
    then have "as_i64 (cj_chain (jobs ! i)) \<noteq> as_i64 (cj_chain (jobs ! k))"
      using ok k ij by (auto simp: jobs_ok_def distinct_conv_nth)
    with step(2) have "same_data (as_i64 (cj_chain (jobs ! k))) (fl_db s) (pi_db p')" by (intro same_data_view)
    with drive_inv_same[OF each[OF k]] False show ?thesis by simp
  qed (use step(1) i in simp)
  then show ?thesis using len by (simp add: fleet_inv_def list_all2_conv_all_nth)
qed

lemma fleet_step_inv:
  assumes "jobs_ok jobs" and "fleet_inv rows0 jobs s"
  shows "fleet_inv rows0 jobs (fleet_step (map cj_drive jobs) hi decoders a s)"
proof (cases a)
  case (ChainAct i b)
  have "length jobs = length (fl_pipes s)" using assms(2) by (auto simp: fleet_inv_def dest: list_all2_lengthD)
  then show ?thesis using assms(2) chain_act_inv[OF assms, of i _ b] by (auto simp: ChainAct Let_def not_le)
next
  case (FleetWorker i)
  show ?thesis
  proof (cases "length (fl_workers s) \<le> i")
    case False
    obtain w d where w: "worker_step hi decoders (fl_workers s ! i) (fl_db s) = (w, d)" by fastforce
    show ?thesis using False by (intro fleet_inv_same[OF assms(2)]) (auto simp: FleetWorker w intro: worker_step_same[OF w])
  qed (use assms(2) FleetWorker in simp)
next
  case FleetReclaim
  show ?thesis by (intro fleet_inv_same[OF assms(2)]) (simp_all add: FleetReclaim reclaim_tick_same)
next
  case (FleetClock n)
  show ?thesis by (intro fleet_inv_same[OF assms(2)]) (simp_all add: FleetClock same_data_tables)
qed

lemma those_all2: "those (map f xs) = Some ys \<longleftrightarrow> list_all2 (\<lambda>x y. f x = Some y) xs ys"
  by (induction xs arbitrary: ys) (auto simp: list_all2_Cons1 split: option.splits)

lemma run_fleet_inv:
  assumes "jobs_ok jobs" and "run_fleet hi decoders workers jobs acts d = Some s"
  shows "fleet_inv (set (cursors d)) jobs s"
proof -
  obtain ps where ps: "list_all2 (\<lambda>j p. pipe_init (cj_next j) (cj_target j) (cj_step j) (cj_src j) d = Some p) jobs ps"
    and s: "s = fold (fleet_step (map cj_drive jobs) hi decoders) acts \<lparr>fl_pipes = ps, fl_workers = spawn_worker_pool workers, fl_db = d\<rparr>"
    using assms(2) by (auto simp: run_fleet_def those_all2)
  have "drive_inv (set (cursors d)) j d p"
    if "j \<in> set jobs" and p: "pipe_init (cj_next j) (cj_target j) (cj_step j) (cj_src j) d = Some p" for j p
  proof -
    have "plan_ranges (cj_next j) (cj_target j) (cj_step j) = Some (cj_plan j)"
      using assms(1) that(1) unfolding jobs_ok_def by (intro plan_ranges_spans) auto
    from own_raw.pipe_init_inv[OF p this] have "pipe_inv (stored_own (cj_chain j)) (cj_drive j) (cj_next j) (cj_plan j) (set (cursors d)) [] p" .
    moreover have "own_pipe (cj_chain j) p" "pi_db p = d" using p by (auto simp: pipe_init_def own_pipe_def sending_list_def)
    ultimately show ?thesis unfolding drive_inv_def using on_shared_self(1)[of p] by auto
  qed
  with ps have "fleet_inv (set (cursors d)) jobs \<lparr>fl_pipes = ps, fl_workers = spawn_worker_pool workers, fl_db = d\<rparr>"
    by (auto simp: fleet_inv_def elim!: list.rel_mono_strong)
  then show ?thesis unfolding s
    using fleet_step_inv[OF assms(1)] by (induction acts rule: rev_induct) simp_all
qed

lemma own_range_stored:
  assumes "one_chain_source (dr_source dr)" and "was_fetched dr f" and "stored_own (cs_chain_id (dr_source dr)) d f"
    and "feeds dr logs" and "fr_to f < 2 ^ 63"
  shows "stored_raw d (logs (fr_from f) (fr_to f))"
proof -
  have "own_range (cs_chain_id (dr_source dr)) f"
    using assms(2) one_chain_source.own_fetch[OF assms(1)] unfolding was_fetched_def by blast
  with assms(3) have "stored_raw d (fr_records f)" by (auto simp: stored_own_iff own_range_def stored_raw_def)
  with was_fetched_feeds[OF assms(2,4,5)] show ?thesis by simp
qed

text \<open>What the invariant of a drive says of the shared database.\<close>

lemma drive_inv_complete:
  assumes "drive_inv rows0 j d p" and src: "one_chain_source (dr_source (cj_drive j))" and "feeds (cj_drive j) logs"
    and bnd: "0 < cj_step j" "cj_target j + cj_step j < 2 ^ 63" "cj_next j \<le> cj_target j"
  shows "\<And>r. r \<in> set (cursors d) \<Longrightarrow> cu_chain_id r = as_i64 (cj_chain j) \<Longrightarrow> r \<notin> rows0 \<Longrightarrow>
       \<exists>h. cu_last_height r = as_i64 h \<and> h \<in> snd ` set (cj_plan j)
          \<and> (\<forall>(lo, up) \<in> set (cj_plan j). up \<le> h \<longrightarrow> stored_raw d (logs lo up))"
    and "\<And>po. pi_result p = Some (Ok po) \<Longrightarrow> \<not> po_shutdown po \<Longrightarrow> po_advanced_to po = Some (cj_target j)
       \<and> (\<exists>r \<in> set (cursors d). cu_chain_id r = as_i64 (cj_chain j) \<and> cu_last_height r = as_i64 (cj_target j))
       \<and> (\<forall>(lo, up) \<in> set (cj_plan j). stored_raw d (logs lo up))"
proof -
  obtain fs where inv: "pipe_inv (stored_own (cj_chain j)) (cj_drive j) (cj_next j) (cj_plan j) rows0 fs (on_shared d p)"
    using assms(1) by (auto simp: drive_inv_def)
  have ch: "contiguous (cj_next j) (cj_plan j) (cj_target j + 1)" using bnd(1,3) by (intro contiguous_spans) simp_all
  have e: "cj_target j + 1 < 2 ^ 64" using bnd by simp
  have st: "stored_raw d (logs lo up)"
    if pl: "(lo, up) \<in> set (cj_plan j)" and ex: "\<exists>f. rng f = (lo, up) \<and> was_fetched (cj_drive j) f \<and> stored_own (cj_chain j) d f" for lo up
  proof -
    obtain f where f: "rng f = (lo, up)" "was_fetched (cj_drive j) f" "stored_own (cj_chain j) d f" using ex by blast
    have "up < 2 ^ 63" using spans_width[OF pl] bnd(2) by simp
    with own_range_stored[OF src f(2,3) assms(3)] f(1) show ?thesis by simp
  qed
  have pr: "pi_db (on_shared d p) = d" "pi_result (on_shared d p) = pi_result p" by (simp_all add: on_shared_def)
  show "\<exists>h. cu_last_height r = as_i64 h \<and> h \<in> snd ` set (cj_plan j) \<and> (\<forall>(lo, up) \<in> set (cj_plan j). up \<le> h \<longrightarrow> stored_raw d (logs lo up))"
    if r: "r \<in> set (cursors d)" "cu_chain_id r = as_i64 (cj_chain j)" "r \<notin> rows0" for r
  proof -
    from own_raw.cursor_covers[OF inv ch e, unfolded pr, OF r]
    obtain h where h: "cu_last_height r = as_i64 h" "h \<in> snd ` set (cj_plan j)" and below: "\<forall>(lo, up) \<in> set (cj_plan j). up \<le> h \<longrightarrow>
        (\<exists>f. rng f = (lo, up) \<and> was_fetched (cj_drive j) f \<and> stored_own (cj_chain j) d f)"
      by (elim exE conjE)
    from below st have "\<forall>(lo, up) \<in> set (cj_plan j). up \<le> h \<longrightarrow> stored_raw d (logs lo up)" by (auto simp: split_beta)
    with h show ?thesis by (intro exI[of _ h] conjI)
  qed
  show "po_advanced_to po = Some (cj_target j)
       \<and> (\<exists>r \<in> set (cursors d). cu_chain_id r = as_i64 (cj_chain j) \<and> cu_last_height r = as_i64 (cj_target j))
       \<and> (\<forall>(lo, up) \<in> set (cj_plan j). stored_raw d (logs lo up))" if po: "pi_result p = Some (Ok po)" "\<not> po_shutdown po" for po
    using own_raw.completed_drive[OF inv ch e bnd(3), unfolded pr, OF po] st by (auto simp: split_beta)
qed

text \<open>
  The chains of one indexer are complete side by side. Let a drive per JSON-RPC chain, a pool of
  decode workers and the reclaim ticker share one database, interleaved in any order down to
  the single transaction, with any failures, and stop them anywhere. For each of the chains:
  if its cursor has moved, it is at the end of a planned range and all logs of the ranges up
  to there are stored; and if its drive returned without being stopped, it reports its target,
  its cursor stands at the target and the logs of every planned range are stored. No other
  chain and no worker can undo this.
\<close>

theorem fleet_chains_complete:
  assumes "distinct (map (\<lambda>j. as_i64 (cj_chain j)) jobs)"
    and "\<forall>j \<in> set jobs. 0 < cj_step j \<and> cj_target j + cj_step j < 2 ^ 63 \<and> cj_next j \<le> cj_target j
          \<and> (\<exists>sched src. dr_source (cj_drive j) = rpc_chain_source sched src)"
    and "run_fleet hi decoders workers jobs acts d = Some s" and "i < length jobs" and "j = jobs ! i" and "feeds (cj_drive j) logs"
  shows "(\<forall>r \<in> set (cursors (fl_db s)). cu_chain_id r = as_i64 (cj_chain j) \<longrightarrow> r \<notin> set (cursors d) \<longrightarrow>
       (\<exists>h. cu_last_height r = as_i64 h \<and> h \<in> snd ` set (cj_plan j)
          \<and> (\<forall>(lo, up) \<in> set (cj_plan j). up \<le> h \<longrightarrow> stored_raw (fl_db s) (logs lo up))))
   \<and> (\<forall>po. pi_result (fl_pipes s ! i) = Some (Ok po) \<longrightarrow> \<not> po_shutdown po \<longrightarrow>
       po_advanced_to po = Some (cj_target j)
       \<and> (\<exists>r \<in> set (cursors (fl_db s)). cu_chain_id r = as_i64 (cj_chain j) \<and> cu_last_height r = as_i64 (cj_target j))
       \<and> (\<forall>(lo, up) \<in> set (cj_plan j). stored_raw (fl_db s) (logs lo up)))"
proof -
  have ok: "jobs_ok jobs" using assms(1,2) rpc.one_chain_source_axioms unfolding jobs_ok_def by (metis trans_le_add1)
  then have job: "one_chain_source (dr_source (cj_drive j))" "0 < cj_step j" "cj_target j + cj_step j < 2 ^ 63" "cj_next j \<le> cj_target j"
    using assms(2,4,5) by (auto simp: jobs_ok_def)
  have inv: "drive_inv (set (cursors d)) j (fl_db s) (fl_pipes s ! i)"
    using run_fleet_inv[OF ok assms(3)] assms(4,5) by (auto simp: fleet_inv_def list_all2_conv_all_nth)
  from drive_inv_complete[OF inv job(1) assms(6) job(2-4)] show ?thesis by blast
qed

text \<open>Two chains of one provider.\<close>

definition demo_job :: "nat \<Rightarrow> nat rpc chain_job" where
  "demo_job c = \<lparr>cj_drive = demo_rpc_drive\<lparr>dr_source := rpc_chain_source demo_sched (demo_source\<lparr>rs_chain_id := c\<rparr>)\<rparr>,
     cj_next = 1, cj_target = 20, cj_step = 10, cj_src = demo_rpc\<rparr>"

lemma demo_job_chain [simp]: "cj_chain (demo_job c) = c"
  by (simp add: demo_job_def rpc_chain_source_def)

lemma demo_job_feeds:
  "feeds (cj_drive (demo_job c)) (\<lambda>lo hi. concat (map (block_records c (\<lambda>h. [demo_log h])) [lo..<Suc hi]))"
proof -
  have "block_feed (cj_drive (demo_job c)) (block_records (rs_chain_id (demo_source\<lparr>rs_chain_id := c\<rparr>)) (\<lambda>h. [demo_log h]))"
    by (rule conjunct1[OF rpc_keeps_contract[where base = "\<lparr>lf_addresses = [], lf_topic0 = []\<rparr>" and sched = demo_sched]])
      (use demo_base_filter demo_complete in \<open>simp_all add: demo_job_def demo_rpc_drive_def numbered_def demo_log_def
         plan_profile_default_def complete_pages_def page_overflows_def\<close>)
  then show ?thesis by (simp add: block_feed_def)
qed

theorem fleet_chains_complete_witness:
  "\<exists>s. run_fleet demo_hash_iter (\<lambda>_. None) 1 [demo_job 1, demo_job 2]
       [ChainAct 0 StartFetch, ChainAct 1 StartFetch, FleetWorker 0, ChainAct 1 (FinishFetch 0)] db_empty = Some s
     \<and> (\<forall>r \<in> set (cursors (fl_db s)). cu_chain_id r = 2 \<longrightarrow> (\<exists>h. cu_last_height r = as_i64 h \<and> h \<in> {10, 20}))"
proof -
  let ?acts = "[ChainAct 0 StartFetch, ChainAct 1 StartFetch, FleetWorker 0, ChainAct 1 (FinishFetch 0)]"
  have pl: "plan_ranges 1 20 10 = Some [(1, 10), (11, 20)]" "spans 1 20 10 = [(1, 10), (11, 20)]"
    by (simp_all add: plan_ranges_spans spans.simps)
  then obtain s where s: "run_fleet demo_hash_iter (\<lambda>_. None) 1 [demo_job 1, demo_job 2] ?acts db_empty = Some s"
    by (auto simp: run_fleet_def demo_job_def pipe_init_def simp del: fold_simps)
  have hs: "snd ` set (cj_plan (demo_job 2)) = {10, 20}" using pl(2) by (simp add: demo_job_def)
  have d: "distinct (map (\<lambda>j. as_i64 (cj_chain j)) [demo_job 1, demo_job 2])" by (simp add: as_i64_small)
  have "(\<forall>r \<in> set (cursors (fl_db s)). cu_chain_id r = as_i64 (cj_chain (demo_job 2)) \<longrightarrow> r \<notin> set (cursors db_empty) \<longrightarrow>
       (\<exists>h. cu_last_height r = as_i64 h \<and> h \<in> snd ` set (cj_plan (demo_job 2))
          \<and> (\<forall>(lo, up) \<in> set (cj_plan (demo_job 2)). up \<le> h \<longrightarrow>
              stored_raw (fl_db s) (concat (map (block_records 2 (\<lambda>h. [demo_log h])) [lo..<Suc up])))))"
    by (rule conjunct1[OF fleet_chains_complete[OF d _ s, of 1]]) 
      (use demo_job_feeds[of 2] in \<open>auto simp: demo_job_def simp del: upt_Suc\<close>)
  then have "\<forall>r \<in> set (cursors (fl_db s)). cu_chain_id r = 2 \<longrightarrow> (\<exists>h. cu_last_height r = as_i64 h \<and> h \<in> {10, 20})"
    unfolding demo_job_chain hs by (simp add: as_i64_small db_empty_def) blast
  with s show ?thesis by blast
qed

end
