(* ===== verification/Run_System.thy ===== *)
theory Run_System
  imports Binaries Fleet
begin

text \<open>
  The command \<open>run\<close> as a system: the tasks it spawns (\<open>Commands\<close>), the loop that a task builds for
  its chain (\<open>bins/indexer-cli/src/supervisor.rs\<close>), the isolation of the tasks and their
  completeness side by side (\<open>Isolation\<close>, \<open>Fleet\<close>), down from a validated configuration.
\<close>

section \<open>The loop of a task\<close>

text \<open>\<open>run_chain_once\<close> up to the loop.\<close>

definition task_loop :: "'n cmd_env \<Rightarrow> string \<Rightarrow> ingest_task \<Rightarrow> (source_error, 'n rpc loop_cfg) res" where
  "task_loop env base task =
     and_then (build_chain (ce_lib env) (ce_read env) (ce_rpc env) (tk_chain task) base (tk_aux_concurrency task)) (\<lambda>built.
     case start_block (tk_chain task) of
       None \<Rightarrow> Panic
     | Some start \<Rightarrow> Ok
         \<lparr>lc_drive = \<lparr>dr_source = rpc_chain_source (ce_sched env) (bc_source built), dr_filter = evm_record_filter (ce_iter env) (bc_decoder built),
            dr_conc = tk_range_concurrency task, dr_exhausted = (\<lambda>s. quota_exhausted (ledger s))\<rparr>,
          lc_tables = tk_tables task, lc_confirmations = ch_confirmations (tk_chain task), lc_start_block = start,
          lc_step = max (max_getlogs_blocks (rs_plan (bc_source built))) 1, lc_interval = tk_interval task\<rparr>)"

lemma task_loop_OkE:
  assumes "task_loop env base task = Ok cfg"
  obtains built where "build_chain (ce_lib env) (ce_read env) (ce_rpc env) (tk_chain task) base (tk_aux_concurrency task) = Ok built"
    "dr_source (lc_drive cfg) = rpc_chain_source (ce_sched env) (bc_source built)"
    "dr_filter (lc_drive cfg) = evm_record_filter (ce_iter env) (bc_decoder built)"
    "lc_step cfg = max (max_getlogs_blocks (rs_plan (bc_source built))) 1" "cs_chain_id (dr_source (lc_drive cfg)) = ch_id (tk_chain task)"
    "rs_chain_id (bc_source built) = ch_id (tk_chain task)"
proof -
  from assms obtain built start where b: "build_chain (ce_lib env) (ce_read env) (ce_rpc env) (tk_chain task) base (tk_aux_concurrency task) = Ok built"
    "start_block (tk_chain task) = Some start"
    by (auto simp: task_loop_def and_then_Ok split: option.splits)
  moreover have "rs_chain_id (bc_source built) = ch_id (tk_chain task)" using build_chain_Ok[OF b(1)] by simp
  ultimately show thesis using assms by (intro that[of built]) (auto simp: task_loop_def rpc_chain_source_def)
qed

section \<open>What \<open>run\<close> starts\<close>

lemma run_loop_tasks:
  assumes "run_loop env base ix interval chs tasks decs d = (Ok (tasks', decs'), d')"
  shows "map tk_chain tasks' = map tk_chain tasks @ chs
     \<and> (\<forall>a dec. decs' a = Some dec \<longrightarrow> decs a = Some dec \<or> (\<exists>b. dec = evm_port (ce_lib env) b))"
  using assms
proof (induction chs arbitrary: tasks decs d)
  case (Cons chain rest)
  from Cons.prems obtain b d1 where
    r: "run_loop env base ix interval rest (tasks @ [ingest_task_for ix interval chain (evm_schemas (ce_iter env) b)])
          (decs(ch_id chain \<mapsto> evm_port (ce_lib env) b)) d1 = (Ok (tasks', decs'), d')"
    by (auto elim!: bind_OkE)
  from Cons.IH[OF r] show ?case by (auto simp: ingest_task_for_def split: if_splits)
qed (auto simp: ret_def)

lemma validated_ids: "validate cfg = Ok () \<Longrightarrow> distinct (map ch_id (cf_chains cfg)) \<and> (\<forall>chain \<in> set (cf_chains cfg). start_block chain \<noteq> None)"
  by (auto simp: validate_def validate_chains_Ok list_all_iff split: if_splits)

text \<open>Every chain has one task, chains have distinct ids and a start, and the workers decode with
  the decoders of the registry.\<close>

lemma run_setup_tasks:
  assumes "run_setup env path workers interval d = (Ok (tasks, decs, ws), d')"
  shows "distinct (map (\<lambda>t. ch_id (tk_chain t)) tasks)" and "\<forall>t \<in> set tasks. start_block (tk_chain t) \<noteq> None"
    and "\<forall>a dec. decs a = Some dec \<longrightarrow> (\<exists>b. dec = evm_port (ce_lib env) b)"
proof -
  obtain cfg s0 s1 iv where c: "boot env path d = (Ok cfg, s0)"
    "run_loop env (base_dir path) (cf_indexer cfg) iv (cf_chains cfg) [] Map.empty s1 = (Ok (tasks, decs), d')"
    using assms unfolding run_setup_def by (auto elim!: bind_OkE simp: ret_def)
  note r = run_loop_tasks[OF c(2)]
  have "validate cfg = Ok ()"
    using c(1) by (auto simp: boot_Ok config_load_def split: sum.splits res.splits)
  moreover have m: "cf_chains cfg = map tk_chain tasks" using r by simp
  ultimately show "distinct (map (\<lambda>t. ch_id (tk_chain t)) tasks)" "\<forall>t \<in> set tasks. start_block (tk_chain t) \<noteq> None"
    using validated_ids[of cfg] by (simp_all add: m comp_def)
  show "\<forall>a dec. decs a = Some dec \<longrightarrow> (\<exists>b. dec = evm_port (ce_lib env) b)" using r by auto
qed

lemma task_ids_differ:
  assumes "distinct (map (\<lambda>t. ch_id (tk_chain t)) tasks)" and "\<forall>t \<in> set tasks. ch_id (tk_chain t) < 2 ^ 64"
  shows "distinct (map (\<lambda>t. as_i64 (ch_id (tk_chain t))) tasks)"
proof -
  have "inj_on as_i64 (ch_id ` tk_chain ` set tasks)" using assms(2) as_i64_inj by (auto simp: inj_on_def)
  then have "distinct (map as_i64 (map (\<lambda>t. ch_id (tk_chain t)) tasks))"
    using assms(1) by (subst distinct_map) (auto simp: image_image)
  then show ?thesis by (simp add: comp_def)
qed

text \<open>
  C5. The chains of \<open>run\<close> do not interfere. If \<open>run\<close> got past its checks, then for each of its tasks,
  through any answers of the endpoint, reorganisations, failures, panics, restarts and
  cancellations, the supervised ingestion leaves every other chain as it is: blocks, cursor, raw
  records, queue rows and the rows of every typed table. A round of a decode worker, whatever
  it returns, leaves every chain but that of the item it leased. The task never runs into a
  missing start block.
\<close>

theorem run_isolates_chains:
  assumes "run_setup env path workers interval d0 = (Ok (tasks, decs, ws), d1)" and "\<forall>t \<in> set tasks. ch_id (tk_chain t) < 2 ^ 64"
    and "i < length tasks" and "k < length tasks" and "i \<noteq> k" and "c = as_i64 (ch_id (tk_chain (tasks ! k)))"
    and "permutes (ce_hash env)" and "distinct (map wq_id (work_queue d))"
    and "\<forall>q. ready_row d = Some q \<longrightarrow> bigint (wq_chain_id q) \<and> wq_chain_id q \<noteq> c"
  shows "start_block (tk_chain (tasks ! i)) \<noteq> None
     \<and> (\<forall>cfg attempts. task_loop env (base_dir path) (tasks ! i) = Ok cfg \<longrightarrow> view c (snd (supervised_ingest cfg attempts d)) = view c d)
     \<and> view c (snd (run_once (ce_hash env) decs d)) = view c d"
proof (intro conjI allI impI)
  note t = run_setup_tasks[OF assms(1)]
  show "start_block (tk_chain (tasks ! i)) \<noteq> None" using t(2) assms(3) by simp
  fix cfg attempts assume "task_loop env (base_dir path) (tasks ! i) = Ok cfg"
  then obtain src where b: "dr_source (lc_drive cfg) = rpc_chain_source (ce_sched env) src" "rs_chain_id src = ch_id (tk_chain (tasks ! i))"
    by (rule task_loop_OkE) blast
  have "as_i64 (rs_chain_id src) \<noteq> c"
    using task_ids_differ[OF t(1) assms(2)] assms(3-6) by (simp add: b(2) distinct_conv_nth)
  then show "view c (snd (supervised_ingest cfg attempts d)) = view c d" by (rule supervised_chain_isolated[OF b(1)])
next
  obtain r d' where r: "run_once (ce_hash env) decs d = (r, d')" by fastforce
  have "\<forall>a dec. decs a = Some dec \<longrightarrow> (\<exists>lib b. dec = evm_port lib b)" using run_setup_tasks(3)[OF assms(1)] by blast
  from worker_isolated[OF r assms(7,8) this assms(9)] show "view c (snd (run_once (ce_hash env) decs d)) = view c d" by (simp add: r)
qed

section \<open>Completeness\<close>

text \<open>A drive of the task: a catch-up of its loop, over some heights.\<close>

definition drives_task :: "'n cmd_env \<Rightarrow> string \<Rightarrow> ingest_task \<Rightarrow> 'n rpc chain_job \<Rightarrow> bool" where
  "drives_task env base task j \<longleftrightarrow> (\<exists>cfg. task_loop env base task = Ok cfg \<and> cj_drive j = lc_drive cfg \<and> cj_step j = lc_step cfg)"

lemma drives_taskE:
  assumes "drives_task env base task j"
  obtains built :: "'n built_chain" where
    "build_chain (ce_lib env) (ce_read env) (ce_rpc env) (tk_chain task) base (tk_aux_concurrency task) = Ok built"
    "dr_source (cj_drive j) = rpc_chain_source (ce_sched env) (bc_source built)"
    "dr_filter (cj_drive j) = evm_record_filter (ce_iter env) (bc_decoder built)"
    "cj_step j = max (max_getlogs_blocks (rs_plan (bc_source built))) 1" "cj_chain j = ch_id (tk_chain task)"
proof -
  obtain cfg where cfg: "task_loop env base task = Ok cfg" "cj_drive j = lc_drive cfg" "cj_step j = lc_step cfg"
    using assms by (auto simp: drives_task_def)
  show thesis using cfg(1) by (rule task_loop_OkE) (rule that, simp_all add: cfg(2,3))
qed

text \<open>The planned range of a block below the end of a planned range ends there at the latest.\<close>

lemma contiguous_below:
  assumes "contiguous s sp e" and "(lo, hi) \<in> set sp" and "h \<in> snd ` set sp" and "lo \<le> h"
  shows "hi \<le> h"
  using assms
proof (induction s sp e rule: contiguous.induct)
  case (2 s lo' hi' r e)
  have later: "hi' < a \<and> a \<le> b" if "(a, b) \<in> set r" for a b
    using 2(2) contiguous_bounds[of "hi' + 1" r e] that by force
  obtain l where l: "(l, h) \<in> set ((lo', hi') # r)" using 2(4) by force
  show ?case
  proof (cases "(lo, hi) \<in> set r")
    case True
    with later[OF True] 2(2,5) l have "(l, h) \<in> set r" by auto
    with 2(1)[OF _ True _ 2(5)] 2(2) show ?thesis by force
  next
    case False
    with 2(3) l later[of l h] show ?thesis by auto
  qed
qed simp

lemma spans_below:
  assumes "0 < step" and "s \<le> b" and "b \<le> h" and "h \<in> snd ` set (spans s t step)" and "s \<le> t"
  shows "\<exists>(lo, hi) \<in> set (spans s t step). lo \<le> b \<and> b \<le> hi \<and> hi \<le> h"
proof -
  have ch: "contiguous s (spans s t step) (t + 1)" using assms(1,5) by (intro contiguous_spans) simp_all
  then have "h \<le> t" using contiguous_bounds[OF ch] assms(4) by fastforce
  then obtain lo hi where r: "(lo, hi) \<in> set (spans s t step)" "lo \<le> b" "b \<le> hi"
    using span_of_block[OF assms(1,2), of t] assms(3) by auto
  with contiguous_below[OF ch r(1) assms(4)] assms(3) show ?thesis by auto
qed

lemma stored_block:
  assumes "stored_raw d (concat (map logs [lo..<Suc hi]))" and "lo \<le> b" and "b \<le> hi"
  shows "stored_raw d (logs b)"
proof -
  have "b \<in> set [lo..<Suc hi]" using assms(2,3) by auto
  then have "set (logs b) \<subseteq> set (concat (map logs [lo..<Suc hi]))" unfolding set_concat set_map by blast
  with assms(1) show ?thesis unfolding stored_raw_def by blast
qed

text \<open>The drive of a task fetches the logs of its chain.\<close>

lemma drives_task_feeds:
  assumes "drives_task env base task j" and "cj_step j < 2 ^ 32"
    and "build_chain (ce_lib env) (ce_read env) (ce_rpc env) (tk_chain task) base (tk_aux_concurrency task) = Ok built"
    and "complete_pages (bc_source built) \<lparr>lf_addresses = ed_addresses (bc_decoder built), lf_topic0 = topic0s (ce_iter env) (ed_abi (bc_decoder built))\<rparr> at"
    and "numbered at" and "iterates (ce_iter env)" and "\<And>e. length (al_event_selector (ce_lib env) e) = 32"
  shows "feeds (cj_drive j) (\<lambda>lo hi. concat (map (block_records (ch_id (tk_chain task)) at) [lo..<Suc hi]))"
proof -
  have b: "dr_source (cj_drive j) = rpc_chain_source (ce_sched env) (bc_source built)"
    "dr_filter (cj_drive j) = evm_record_filter (ce_iter env) (bc_decoder built)"
    "cj_step j = max (max_getlogs_blocks (rs_plan (bc_source built))) 1"
    using assms(1,3) by (auto elim!: drives_taskE)
  have dec: "build_decoder (ce_lib env) (ce_read env) (tk_chain task) base = Ok (bc_decoder built)"
    and rs: "rs_chain_id (bc_source built) = ch_id (tk_chain task)" using build_chain_Ok[OF assms(3)] by simp_all
  have "base_filter (dr_filter (cj_drive j)) = Returns \<lparr>lf_addresses = ed_addresses (bc_decoder built), lf_topic0 = topic0s (ce_iter env) (ed_abi (bc_decoder built))\<rparr>"
    using built_filter_is_servable[OF dec assms(6,7)] b(2) by auto
  moreover have "max_getlogs_blocks (rs_plan (bc_source built)) < 2 ^ 32" using assms(2) b(3) by simp
  ultimately show ?thesis using rpc_keeps_contract[OF _ _ assms(4,5) b(1)] unfolding sound_feed_def rs by blast
qed

text \<open>
  C4. The chains of \<open>run\<close> are complete side by side. After \<open>run\<close> got past its checks, let each of its
  tasks catch up, with the source, the filter and the step that the task builds from its
  configuration, next to the decode workers and the reclaim ticker on one database, in any
  order down to the single transaction, with any failures, and stop them anywhere. Take a task
  whose endpoint serves complete pages of the logs of its chain. If the chain's cursor has moved,
  every configured log of every block up to it is stored; if the catch-up returned without
  being stopped, the cursor stands at its target and the logs of all its blocks are stored.
\<close>

theorem run_stores_every_chain:
  assumes "run_setup env path workers interval d0 = (Ok (tasks, decs, ws), d1)" and "\<forall>t \<in> set tasks. ch_id (tk_chain t) < 2 ^ 64"
    and "list_all2 (drives_task env (base_dir path)) tasks jobs"
    and "\<forall>j \<in> set jobs. cj_step j < 2 ^ 32 \<and> cj_next j \<le> cj_target j \<and> cj_target j + 2 ^ 32 < 2 ^ 63"
    and "run_fleet (ce_hash env) decs workers jobs acts d = Some s" and "i < length tasks" and "j = jobs ! i"
    and "cid = ch_id (tk_chain (tasks ! i))"
    and "build_chain (ce_lib env) (ce_read env) (ce_rpc env) (tk_chain (tasks ! i)) (base_dir path) (tk_aux_concurrency (tasks ! i)) = Ok built"
    and "complete_pages (bc_source built) \<lparr>lf_addresses = ed_addresses (bc_decoder built), lf_topic0 = topic0s (ce_iter env) (ed_abi (bc_decoder built))\<rparr> at"
    and "numbered at" and "iterates (ce_iter env)" and "\<And>e. length (al_event_selector (ce_lib env) e) = 32"
  shows "(\<forall>r \<in> set (cursors (fl_db s)). cu_chain_id r = as_i64 cid \<longrightarrow> r \<notin> set (cursors d) \<longrightarrow>
       (\<exists>h. cu_last_height r = as_i64 h \<and> (\<forall>b \<in> {cj_next j..h}. stored_raw (fl_db s) (block_records cid at b))))
   \<and> (\<forall>po. pi_result (fl_pipes s ! i) = Some (Ok po) \<longrightarrow> \<not> po_shutdown po \<longrightarrow>
       (\<exists>r \<in> set (cursors (fl_db s)). cu_chain_id r = as_i64 cid \<and> cu_last_height r = as_i64 (cj_target j))
       \<and> (\<forall>b \<in> {cj_next j..cj_target j}. stored_raw (fl_db s) (block_records cid at b)))"
proof -
  have len: "length jobs = length tasks" and dt: "\<And>k. k < length tasks \<Longrightarrow> drives_task env (base_dir path) (tasks ! k) (jobs ! k)"
    using assms(3) by (auto simp: list_all2_conv_all_nth)
  have src: "\<exists>sched src. dr_source (cj_drive (jobs ! k)) = rpc_chain_source sched src" "0 < cj_step (jobs ! k)"
    and id: "cj_chain (jobs ! k) = ch_id (tk_chain (tasks ! k))" if "k < length tasks" for k
    using dt[OF that] by (auto elim!: drives_taskE)
  have "map (\<lambda>j. as_i64 (cj_chain j)) jobs = map (\<lambda>t. as_i64 (ch_id (tk_chain t))) tasks"
    using id len by (intro nth_equalityI) simp_all
  then have dist: "distinct (map (\<lambda>j. as_i64 (cj_chain j)) jobs)"
    using task_ids_differ[OF run_setup_tasks(1)[OF assms(1)] assms(2)] by simp
  have ok: "\<forall>j \<in> set jobs. 0 < cj_step j \<and> cj_target j + cj_step j < 2 ^ 63 \<and> cj_next j \<le> cj_target j
      \<and> (\<exists>sched src. dr_source (cj_drive j) = rpc_chain_source sched src)"
    using assms(4) src len by (force simp: in_set_conv_nth)
  have j: "j \<in> set jobs" "i < length jobs" "cj_chain j = cid" using assms(6-8) len id by simp_all
  note bnd = bspec[OF ok j(1)]
  have "drives_task env (base_dir path) (tasks ! i) j" "cj_step j < 2 ^ 32" using dt[OF assms(6)] assms(4,7) j(1) by simp_all
  from drives_task_feeds[OF this assms(9-13)]
  have "feeds (cj_drive j) (\<lambda>lo hi. concat (map (block_records cid at) [lo..<Suc hi]))" unfolding assms(8) .
  note fleet = fleet_chains_complete[OF dist ok assms(5) j(2) assms(7) this, unfolded j(3)]
  show ?thesis
  proof (intro conjI ballI allI impI)
    fix r assume "r \<in> set (cursors (fl_db s))" "cu_chain_id r = as_i64 cid" "r \<notin> set (cursors d)"
    with conjunct1[OF fleet] obtain h where h: "cu_last_height r = as_i64 h" "h \<in> snd ` set (cj_plan j)"
      "\<forall>(lo, up) \<in> set (cj_plan j). up \<le> h \<longrightarrow> stored_raw (fl_db s) (concat (map (block_records cid at) [lo..<Suc up]))" by blast
    have "stored_raw (fl_db s) (block_records cid at x)" if x: "x \<in> {cj_next j..h}" for x
    proof -
      obtain lo up where "(lo, up) \<in> set (cj_plan j)" "lo \<le> x" "x \<le> up" "up \<le> h"
        using spans_below[of "cj_step j" "cj_next j" x h "cj_target j"] x h(2) bnd by auto
      with h(3) show ?thesis by (blast intro: stored_block)
    qed
    with h(1) show "\<exists>h. cu_last_height r = as_i64 h \<and> (\<forall>b \<in> {cj_next j..h}. stored_raw (fl_db s) (block_records cid at b))" by blast
  next
    fix po assume "pi_result (fl_pipes s ! i) = Some (Ok po)" "\<not> po_shutdown po"
    note fin = mp[OF mp[OF spec[OF conjunct2[OF fleet]] this(1)] this(2)]
    then show "\<exists>r \<in> set (cursors (fl_db s)). cu_chain_id r = as_i64 cid \<and> cu_last_height r = as_i64 (cj_target j)" by blast
    fix x assume "x \<in> {cj_next j..cj_target j}"
    then obtain lo up where "(lo, up) \<in> set (cj_plan j)" "lo \<le> x" "x \<le> up"
      using span_of_block[of "cj_step j" "cj_next j" x "cj_target j"] bnd by auto
    with fin show "stored_raw (fl_db s) (block_records cid at x)" by (blast intro: stored_block)
  qed
qed

section \<open>Witnesses\<close>

text \<open>A configuration with two chains of one provider.\<close>

definition pair_chain :: "nat \<Rightarrow> chain_cfg" where
  "pair_chain n = start_chain\<lparr>ch_id := n\<rparr>"

definition pair_env :: "nat cmd_env" where
  "pair_env = start_env\<lparr>ce_extract := (\<lambda>_. Inr (start_config\<lparr>cf_chains := [pair_chain 1, pair_chain 2]\<rparr>))\<rparr>"

definition pair_task :: "nat \<Rightarrow> ingest_task" where
  "pair_task n = ingest_task_for (cf_indexer start_config) (ix_tip_interval_secs (cf_indexer start_config)) (pair_chain n) (start_schema # aux_schemas)"

lemma pair_fields [simp]:
  "ce_lib pair_env = demo_abi" "ce_iter pair_env = ce_iter start_env" "ce_read pair_env = (\<lambda>p. Inr p)" "ce_connect pair_env u n = None"
  "ce_rpc pair_env = ce_rpc start_env" "ce_sched pair_env = demo_sched" "ce_hash pair_env = demo_hash_iter" "ch_id (pair_chain n) = n"
  "tk_chain (pair_task n) = pair_chain n" "tk_aux_concurrency (pair_task n) = 4"
  by (simp_all add: pair_env_def start_env_def pair_chain_def pair_task_def ingest_task_for_def)

lemma pair_decoder: "build_decoder demo_abi (\<lambda>p. Inr p) (pair_chain n) [] = Ok start_decoder"
proof -
  have "build_evm_decoder demo_abi (\<lambda>p. Inr p) (pair_chain n) [] = build_evm_decoder demo_abi (\<lambda>p. Inr p) start_chain []"
    by (simp add: pair_chain_def build_evm_decoder_def)
  moreover have "ch_kind (pair_chain n) = ch_kind start_chain" by (simp add: pair_chain_def)
  ultimately show ?thesis using start_builds by (simp add: build_decoder_def split: if_splits)
qed

lemma pair_build: "build_chain demo_abi (\<lambda>p. Inr p) (ce_rpc start_env) (pair_chain n) [] 4 =
    Ok \<lparr>bc_source = demo_source\<lparr>rs_chain_id := n\<rparr>, bc_decoder = start_decoder, bc_ledger = ledger_new None (cm_rate AlchemyCost)\<rparr>"
  using pair_decoder[of n] by (simp add: pair_chain_def build_chain_def build_evm_def build_decoder_def demo_source_def start_chain_def demo_chain_cfg_def
      for_kind_def apply_overrides_def plan_profile_default_def rpc_source_new_def Let_def)

lemma pair_start: "start_block (pair_chain n) = Some 100"
  by (simp add: pair_chain_def start_chain_def demo_chain_cfg_def start_block_def List.map_filter_def start_contract_def demo_contract_def)

lemma pair_runs:
  "\<exists>d decs. run_setup pair_env ''c'' 2 None d = (Ok ([pair_task 1, pair_task 2], decs, spawn_worker_pool 2), d)
     \<and> work_queue d = [] \<and> cursors d = []"
proof -
  obtain d :: db where d: "faults d = []" "work_queue d = []" "\<forall>schema \<in> set (start_schema # aux_schemas). tables d (es_table schema) \<noteq> None"
    using start_migrates by blast
  let ?d = "d\<lparr>cursors := []\<rparr>"
  have "config_load (ce_extract pair_env) ''c'' = Ok (start_config\<lparr>cf_chains := [pair_chain 1, pair_chain 2]\<rparr>)" by (simp add: config_load_def pair_env_def start_env_def validate_def start_config_def demo_config_def pair_chain_def start_chain_def demo_chain_cfg_def queue_cfg_default_def query_cfg_default_def default_queue_kind_def default_expose_def validate_contract_def start_contract_def demo_contract_def start_block_def List.map_filter_def)
  moreover have "preflight (start_schema # aux_schemas) ?d = (Ok (), ?d)" using d by (intro preflight_passes) auto
  ultimately have "run_setup pair_env ''c'' 2 None ?d = (Ok ([pair_task 1, pair_task 2], Map.empty(1 \<mapsto> evm_port demo_abi start_decoder, 2 \<mapsto> evm_port demo_abi start_decoder), spawn_worker_pool 2), ?d)"
    using d(1) pair_decoder[of 1] pair_decoder[of 2] start_fields(10)
    by (simp add: run_setup_def boot_Ok bind_Ok ret_def pair_task_def del: One_nat_def)
  with d(2) show ?thesis by (intro exI[of _ ?d]) auto
qed

lemma pair_loop: "\<exists>cfg. task_loop pair_env [] (pair_task n) = Ok cfg"
  using pair_build[of n] pair_start[of n] by (simp add: task_loop_def)

theorem run_isolates_chains_witness:
  "\<exists>d cfg. task_loop pair_env [] (pair_task 1) = Ok cfg
     \<and> (\<forall>attempts. view 2 (snd (supervised_ingest cfg attempts d)) = view 2 d)"
proof -
  obtain d decs where d: "run_setup pair_env ''c'' 2 None d = (Ok ([pair_task 1, pair_task 2], decs, spawn_worker_pool 2), d)"
    "work_queue d = []" using pair_runs by blast
  have "ready_row d = None" by (simp add: ready_row_def d(2))
  with run_isolates_chains[OF d(1), of 0 1 2 d] have "task_loop pair_env [] (pair_task 1) = Ok cfg \<Longrightarrow>
      view 2 (snd (supervised_ingest cfg attempts d)) = view 2 d" for cfg attempts
    by (simp add: d(2) permutes_def demo_hash_iter_def as_i64_small del: One_nat_def)
  with pair_loop[of 1] show ?thesis by blast
qed

definition pair_job :: "nat \<Rightarrow> nat rpc chain_job" where
  "pair_job n = (case task_loop pair_env [] (pair_task n) of
     Ok cfg \<Rightarrow> \<lparr>cj_drive = lc_drive cfg, cj_next = 100, cj_target = 3000, cj_step = lc_step cfg, cj_src = demo_rpc\<rparr> | _ \<Rightarrow> demo_job n)"

lemma pair_job_fields:
  "drives_task pair_env [] (pair_task n) (pair_job n)" "cj_next (pair_job n) = 100" "cj_target (pair_job n) = 3000" "cj_step (pair_job n) = 2000"
  "cj_src (pair_job n) = demo_rpc"
proof -
  obtain cfg where cfg: "task_loop pair_env [] (pair_task n) = Ok cfg" using pair_loop by blast
  then show "drives_task pair_env [] (pair_task n) (pair_job n)" "cj_next (pair_job n) = 100" "cj_target (pair_job n) = 3000"
    "cj_src (pair_job n) = demo_rpc" by (auto simp: pair_job_def drives_task_def)
  show "cj_step (pair_job n) = 2000"
    using cfg pair_build[of n] by (auto simp: pair_job_def plan_profile_default_def elim!: task_loop_OkE)
qed

theorem run_stores_every_chain_witness:
  "\<exists>d decs s. run_setup pair_env ''c'' 2 None d = (Ok ([pair_task 1, pair_task 2], decs, spawn_worker_pool 2), d)
     \<and> run_fleet demo_hash_iter decs 2 [pair_job 1, pair_job 2] [ChainAct 0 StartFetch, ChainAct 1 StartFetch, FleetWorker 0] d = Some s
     \<and> (\<forall>r \<in> set (cursors (fl_db s)). cu_chain_id r = 2 \<longrightarrow>
         (\<exists>h. cu_last_height r = as_i64 h \<and> (\<forall>b \<in> {100..h}. stored_raw (fl_db s) (block_records 2 (\<lambda>h. [demo_log h]) b))))"
proof -
  let ?acts = "[ChainAct 0 StartFetch, ChainAct 1 StartFetch, FleetWorker 0]" and ?jobs = "[pair_job 1, pair_job 2]"
  obtain d decs where d: "run_setup pair_env ''c'' 2 None d = (Ok ([pair_task 1, pair_task 2], decs, spawn_worker_pool 2), d)"
    "cursors d = []" using pair_runs by blast
  obtain s where s: "run_fleet demo_hash_iter decs 2 ?jobs ?acts d = Some s"
    by (auto simp: run_fleet_def pair_job_fields pipe_init_def plan_ranges_spans simp del: fold_simps)
  have "(\<forall>r \<in> set (cursors (fl_db s)). cu_chain_id r = as_i64 2 \<longrightarrow> r \<notin> set (cursors d) \<longrightarrow>
       (\<exists>h. cu_last_height r = as_i64 h \<and> (\<forall>b \<in> {cj_next (pair_job 2)..h}. stored_raw (fl_db s) (block_records 2 (\<lambda>h. [demo_log h]) b))))"
  proof (rule conjunct1[OF run_stores_every_chain[OF d(1), where jobs = ?jobs and i = 1 and cid = 2 and acts = ?acts]])
    show "complete_pages (bc_source \<lparr>bc_source = demo_source\<lparr>rs_chain_id := 2\<rparr>, bc_decoder = start_decoder, bc_ledger = ledger_new None (cm_rate AlchemyCost)\<rparr>) base
        (\<lambda>h. [demo_log h])" for base
      using demo_complete[of base] by (simp add: complete_pages_def page_overflows_def)
    show "numbered (\<lambda>h. [demo_log h])" by (simp add: numbered_def demo_log_def)
    show "iterates (ce_iter pair_env)" by (simp add: iterates_def)
    show "length (al_event_selector (ce_lib pair_env) e) = 32" for e by (simp add: demo_abi_def)
  qed (use s pair_build[of 2] in \<open>simp_all add: pair_job_fields del: One_nat_def\<close>)
  then show ?thesis using d s by (auto simp: pair_job_fields as_i64_small)
qed

end
