(* ===== verification/Delivery.thy ===== *)
theory Delivery
  imports Run_System
begin

text \<open>
  From the chain to the client: the two halves of the system meet in the database. What the ingest
  side stores and decodes, and what the read side returns for it, are joined here through the
  primary keys of the tables.
\<close>

section \<open>Keys\<close>

text \<open>The tables have the primary keys that the migrator gave them.\<close>

definition migrated_keys :: "db \<Rightarrow> string \<Rightarrow> bool" where
  "migrated_keys d table \<longleftrightarrow> (\<exists>t. tables d table = Some t \<and> tb_pk t = event_pk)
     \<and> (\<forall>u. tables d ''transactions'' = Some u \<longrightarrow> tb_pk u = aux_pk) \<and> (\<forall>u. tables d ''receipts'' = Some u \<longrightarrow> tb_pk u = aux_pk)"

lemma typed_key_event: "tb_pk t = event_pk \<Longrightarrow> typed_key t r = typed_key t s \<longleftrightarrow>
    tr_chain_id r = tr_chain_id s \<and> tr_height r = tr_height s \<and> tr_idx r = tr_idx s"
  by (auto simp: typed_key_def event_pk_def typed_column_def split: option.splits)

lemma typed_key_aux: "tb_pk t = aux_pk \<Longrightarrow> typed_key t r = typed_key t s \<longleftrightarrow> tr_chain_id r = tr_chain_id s \<and> tr_tx_id r = tr_tx_id s"
  by (auto simp: typed_key_def aux_pk_def typed_column_def)

lemma distinct_map_key:
  "distinct (map f xs) \<Longrightarrow> \<forall>x y. f x = f y \<longleftrightarrow> g x = g y \<Longrightarrow> distinct (map g xs)"
  by (simp add: distinct_map inj_on_def)

lemma keyed_distinct:
  assumes "db_wf d" and "migrated_keys d table"
  shows "distinct (map (\<lambda>r. (tr_chain_id r, tr_height r, tr_idx r)) (table_rows d table))"
    and "tx_unique d ''transactions''" and "tx_unique d ''receipts''"
proof -
  have wf: "distinct (map (typed_key t) (tb_rows t))" if "tables d name = Some t" for name t
    using assms(1) that by (auto simp: db_wf_def wf_tables_def)
  obtain t where t: "tables d table = Some t" "tb_pk t = event_pk" using assms(2) by (auto simp: migrated_keys_def)
  show "distinct (map (\<lambda>r. (tr_chain_id r, tr_height r, tr_idx r)) (table_rows d table))"
    using wf[OF t(1)] typed_key_event[OF t(2)] by (auto simp: table_rows_def t(1) intro: distinct_map_key)
  have "tx_unique d aux" if "aux = ''transactions'' \<or> aux = ''receipts''" for aux
  proof (cases "tables d aux")
    case (Some u)
    then have "tb_pk u = aux_pk" using assms(2) that by (auto simp: migrated_keys_def)
    with wf[OF Some] typed_key_aux[of u] show ?thesis
      by (auto simp: tx_unique_def table_rows_def Some intro: distinct_map_key)
  qed (simp add: tx_unique_def table_rows_def)
  then show "tx_unique d ''transactions''" "tx_unique d ''receipts''" by blast+
qed

section \<open>The row of a log\<close>

lemma evm_decode_position:
  assumes "dc_decode (evm_port lib dec) r = Ok (Some row)"
  shows "er_chain_id row = rr_chain_id r \<and> er_height row = rr_height r \<and> er_index row = rr_index r"
  using assms by (auto simp: evm_port_def abi_decode_def map_ok_Ok split: list.splits option.splits if_splits)

text \<open>A stored and decoded log has its row, at its chain, height and index.\<close>

lemma decoded_row_stored:
  assumes "stored_raw d recs" and "is_decoded (evm_port lib dec) cid d recs" and "rec \<in> set recs" and "rr_chain_id rec = cid"
    and "rr_height rec < 2 ^ 64" and "rr_index rec < 2 ^ 64"
    and "\<forall>q \<in> set (raw_records d). raw_key q = raw_key (raw_row_of rec) \<longrightarrow>
        (\<exists>row. dc_decode (evm_port lib dec) (record_of_raw_row cid q) = Ok (Some row) \<and> de_table (er_event row) = table)"
    and "migrated_keys d table" and "table_has_idx table"
  shows "\<exists>r \<in> set (table_rows d table). tr_chain_id r = as_i64 cid \<and> tr_height r = as_i64 (rr_height rec)
     \<and> tr_idx r = Some (as_i64 (rr_index rec))"
proof -
  obtain q where q: "q \<in> set (raw_records d)" "raw_key q = raw_key (raw_row_of rec)"
    using assms(1,3) by (force simp: stored_raw_def)
  obtain row where row: "dc_decode (evm_port lib dec) (record_of_raw_row cid q) = Ok (Some row)" "de_table (er_event row) = table"
    using assms(7) q by blast
  have "row_present d row" using assms(2,3) q row(1) unfolding is_decoded_def by (metis comp_apply image_eqI)
  then obtain t tms where t: "tables d table = Some t"
    "typed_key t (typed_row_of True (stamp tms row)) \<in> typed_key t ` set (tb_rows t)"
    using row(2) assms(9) by (auto simp: row_present_def)
  have pk: "tb_pk t = event_pk" using assms(8) t(1) by (auto simp: migrated_keys_def)
  obtain r where r: "r \<in> set (tb_rows t)" "typed_key t r = typed_key t (typed_row_of True (stamp tms row))" using t(2) by auto
  have "rw_height q = as_i64 (rr_height rec)" "rw_idx q = as_i64 (rr_index rec)" using q(2) by (simp_all add: raw_key_def raw_row_of_def)
  then have "er_chain_id row = cid" "er_height row = rr_height rec" "er_index row = rr_index rec"
    using evm_decode_position[OF row(1)] assms(5,6) by (simp_all add: record_of_raw_row_def as_u64_as_i64)
  then have "tr_chain_id r = as_i64 cid \<and> tr_height r = as_i64 (rr_height rec) \<and> tr_idx r = Some (as_i64 (rr_index rec))"
    using r(2) unfolding typed_key_event[OF pk] by (simp add: typed_row_of_def stamp_def)
  with r(1) t(1) show ?thesis by (auto simp: table_rows_def)
qed

section \<open>The request\<close>

text \<open>A request for a chain, with no other filter and from the start.\<close>

definition asks_chain :: "gql_lib \<Rightarrow> gql_args \<Rightarrow> int \<Rightarrow> bool" where
  "asks_chain gl args chain \<longleftrightarrow> shortcut gl args ''chainId'' chain \<and> args ''fromHeight'' = None \<and> args ''toHeight'' = None
     \<and> args ''where'' = None \<and> args ''after'' = None"

lemma asks_chain_filters: "asks_chain gl args chain \<Longrightarrow> arg_filters gl args = Ok [eq_filter ''chain_id'' OpEq chain]"
  by (auto simp: asks_chain_def shortcut_def arg_filters_def arg_shortcut_def arg_where_def)

lemma chain_rows_hit:
  assumes "build_query tbls spec = Ok (q, binds)" and "sp_filters spec = [eq_filter ''chain_id'' OpEq chain]" and "sp_after spec = None"
    and "in_i64 chain" and "tr_chain_id r = chain" and "r \<in> set (table_rows d (sp_table spec))"
    and "tx_unique d ''transactions''" and "tx_unique d ''receipts''"
  shows "\<exists>j. (r, j) \<in> set (ordered_hits pe q binds d)"
proof -
  obtain conds fb where f: "build_filters tbls (sp_table spec) (sp_filters spec) = Ok (conds, fb)" "sq_conds q = conds" "binds = fb"
    "sq_table q = sp_table spec" "sq_joins q = aux_joins tbls spec"
    by (rule build_query_Ok[OF assms(1)]) (simp add: assms(3))
  have "length conds = 1" and c: "conds ! 0 = FilterCond ''chain_id'' OpEq 1 (cast_suffix CInt64)" "binds ! 0 = BInt chain"
    using build_filters_Ok[OF f(1)] assms(2,4) f(3)
    by (auto simp: bound_filter_def col_type_def meta_col_type_def eq_filter_def in_i64_def parse_i64_show_int)
  then have "list_all (cond_holds pe binds r) (sq_conds q)"
    using assms(5) by (simp add: list_all_length f(2) compare_column_def)
  moreover obtain j where "(r, j) \<in> set (joined_rows d q)"
    using joined_rows_aux[OF f(5) assms(7,8)] assms(6) f(4) by (metis imageE list.set_map prod.collapse)
  ultimately show ?thesis by (auto simp: ordered_hits_def Let_def)
qed

text \<open>
  C3. What is indexed reaches the client. Take a log that is stored and decoded, as the backfill
  leaves every log of the requested blocks, and whose stored record the configured ABIs
  recognise as an event of a table. In a well-formed database with the keys of the migrator, a
  client that asks the table's query field for the chain and follows \<open>endCursor\<close> receives the
  value of the row that has the chain, the height and the index of the log.
\<close>

theorem indexed_logs_reach_clients:
  assumes "stored_raw d recs" and "is_decoded (evm_port lib dec) cid d recs" and "rec \<in> set recs" and "rr_chain_id rec = cid"
    and "rr_height rec < 2 ^ 64" and "rr_index rec < 2 ^ 64"
    and "\<forall>q \<in> set (raw_records d). raw_key q = raw_key (raw_row_of rec) \<longrightarrow>
        (\<exists>row. dc_decode (evm_port lib dec) (record_of_raw_row cid q) = Ok (Some row) \<and> de_table (er_event row) = table)"
    and "db_wf d" and "migrated_keys d table" and "table_has_idx table" and "faults d = []"
    and "\<forall>r \<in> set (table_rows d table). tr_idx r \<noteq> None \<and> in_i64 (tr_height r) \<and> in_i64 (the (tr_idx r))"
    and "query_args gl table ev args look = Ok spec" and "asks_chain gl args (as_i64 cid)" and "\<forall>c. gl_string gl (GqlString c) = Ok c"
    and "build_query tbls spec = Ok (q, binds)" and "\<forall>xs. mset (pe_scan pe xs) = mset xs" and "length (listing pe tbls spec d) < pages"
  shows "\<exists>nodes r j. read_connections pages gl (pg_query_repo pe tbls) table ev args look d = Some nodes
     \<and> row_value gl (pe_text pe (sq_row q) r j) \<in> set nodes \<and> r \<in> set (table_rows d table)
     \<and> tr_chain_id r = as_i64 cid \<and> tr_height r = as_i64 (rr_height rec) \<and> tr_idx r = Some (as_i64 (rr_index rec))"
proof -
  obtain r where r: "r \<in> set (table_rows d table)" "tr_chain_id r = as_i64 cid" "tr_height r = as_i64 (rr_height rec)"
    "tr_idx r = Some (as_i64 (rr_index rec))"
    using decoded_row_stored[OF assms(1-7,9,10)] by blast
  note keys = keyed_distinct[OF assms(8,9)]
  note sp = query_args_Ok[OF assms(13)]
  have fs: "sp_filters spec = [eq_filter ''chain_id'' OpEq (as_i64 cid)]" using sp(2) asks_chain_filters[OF assms(14)] by simp
  have after: "sp_after spec = None" using sp(3) assms(14) by (simp add: arg_after_def asks_chain_def)
  have rd: "readable pe tbls spec d q binds"
    using assms(9,11,12,16,17) keys sp(1) fs after
    by (intro keyed_readable[where v = "show_int (as_i64 cid)"]) (auto simp: eq_filter_def migrated_keys_def)
  have "in_i64 (as_i64 cid)" by (auto simp: in_i64_def as_i64_def Let_def)
  then obtain j where "(r, j) \<in> set (ordered_hits pe q binds d)"
    using chain_rows_hit[OF assms(16) fs after _ r(2) _ keys(2,3)] r(1) sp(1) by blast
  then have "pe_text pe (sq_row q) r j \<in> set (listing pe tbls spec d)" unfolding listing_readable[OF rd] by force
  moreover have "read_pages pages pe tbls spec d = Some (listing pe tbls spec d)"
    using read_pages_resume[OF rd, of 0 pages] assms(18) by (simp add: listing_readable[OF rd] resume_def)
  then have "read_connections pages gl (pg_query_repo pe tbls) table ev args look d = Some (map (row_value gl) (listing pe tbls spec d))"
    using read_connections_pages[OF assms(15,13)] by simp
  ultimately show ?thesis using r by auto
qed

section \<open>An instance\<close>

definition indexed_db :: db where
  "indexed_db = db_empty\<lparr>raw_records := [raw_row_of demo_log_record],
     tables := [''evt_t'' \<mapsto> \<lparr>tb_cols = [], tb_pk = event_pk, tb_tx_fk = False, tb_rows = [read_row 1 9 0]\<rparr>]\<rparr>"

lemma indexed_record: "record_of_raw_row 1 (raw_row_of demo_log_record) = demo_log_record"
proof -
  have "unframe_selectors (frame_selectors [replicate 32 7]) = [replicate 32 7]" by (rule unframe_frame) simp
  then show ?thesis by (simp add: record_of_raw_row_def raw_row_of_def demo_log_record_def as_u64_as_i64 del: One_nat_def)
qed

lemma indexed_decodes:
  "\<exists>row. dc_decode (evm_port demo_abi start_decoder) demo_log_record = Ok (Some row) \<and> de_table (er_event row) = ''evt_t''
     \<and> er_chain_id row = 1 \<and> er_height row = 9 \<and> er_index row = 0"
proof -
  have "\<exists>fields. decode_event demo_abi demo_transfer start_schema demo_log_record = Ok \<lparr>de_table = ''evt_t'', de_fields = fields\<rparr>"
    unfolding start_schema_def
    by (simp add: decode_event_def demo_log_record_def schema_for_def)
      (simp add: demo_abi_def demo_transfer_def event_column_def dynamic_type_def ends_with_char_def)
  then show ?thesis by (auto simp: evm_port_def abi_decode_def start_decoder_def demo_log_record_def)
qed

definition evt_spec :: query_spec where
  "evt_spec = (read_spec [chain_one])\<lparr>sp_table := ''evt_t''\<rparr>"

lemma evt_build:
  "build_query [''evt_t'' \<mapsto> []] evt_spec = Ok (\<lparr>sq_row = row_expr [] [], sq_table = ''evt_t'', sq_joins = [],
     sq_conds = [FilterCond ''chain_id'' OpEq 1 []], sq_descending = False, sq_limit = 2\<rparr>, [BInt 1])"
  by code_simp

lemma evt_args: "query_args sample_lib ''evt_t'' True sample_args (\<lambda>_. False) = Ok evt_spec"
proof -
  have "show_int 1 = ''1''" by code_simp
  then show ?thesis
    by (simp add: query_args_def arg_first_def arg_after_def arg_descending_def arg_filters_def arg_shortcut_def arg_where_def sample_args_def
        sample_lib_def in_i64_def as_u32_def read_spec_def chain_one_def eq_filter_def evt_spec_def)
qed

lemma indexed_rows: "table_rows indexed_db ''evt_t'' = [read_row 1 9 0]" "raw_records indexed_db = [raw_row_of demo_log_record]"
  "faults indexed_db = []"
  by (simp_all add: table_rows_def indexed_db_def db_empty_def)

lemma indexed_is_decoded: "is_decoded (evm_port demo_abi start_decoder) 1 indexed_db [demo_log_record]"
proof -
  obtain row where row: "dc_decode (evm_port demo_abi start_decoder) demo_log_record = Ok (Some row)" "de_table (er_event row) = ''evt_t''"
    "er_chain_id row = 1" "er_height row = 9" "er_index row = 0" using indexed_decodes by blast
  have "row_present indexed_db row"
    unfolding row_present_def using row(2-5)
    by (intro exI[of _ "\<lparr>tb_cols = [], tb_pk = event_pk, tb_tx_fk = False, tb_rows = [read_row 1 9 0]\<rparr>"] exI[of _ "[]"])
      (simp add: indexed_db_def typed_key_event typed_row_of_def stamp_def read_row_def table_has_idx_def RECEIPTS_TABLE_def as_i64_small)
  then show ?thesis by (simp add: is_decoded_def indexed_rows indexed_record row(1) del: One_nat_def)
qed

theorem indexed_logs_reach_clients_witness:
  "\<exists>nodes. read_connections 3 sample_lib (pg_query_repo read_eval [''evt_t'' \<mapsto> []]) ''evt_t'' True sample_args (\<lambda>_. False) indexed_db = Some nodes
     \<and> nodes \<noteq> []"
proof -
  have "evt_spec\<lparr>sp_after := None\<rparr> = evt_spec" by (simp add: evt_spec_def read_spec_def)
  then have len: "length (listing read_eval [''evt_t'' \<mapsto> []] evt_spec indexed_db) < 3"
    by (simp add: listing_def evt_build ordered_hits_def joined_rows_def indexed_rows)
  let ?q = "\<lparr>sq_row = row_expr [] [], sq_table = ''evt_t'', sq_joins = [], sq_conds = [FilterCond ''chain_id'' OpEq 1 []],
     sq_descending = False, sq_limit = 2\<rparr>"
  have "\<exists>nodes r j. read_connections 3 sample_lib (pg_query_repo read_eval [''evt_t'' \<mapsto> []]) ''evt_t'' True sample_args (\<lambda>_. False) indexed_db = Some nodes
      \<and> row_value sample_lib (pe_text read_eval (sq_row ?q) r j) \<in> set nodes \<and> r \<in> set (table_rows indexed_db ''evt_t'')
      \<and> tr_chain_id r = as_i64 1 \<and> tr_height r = as_i64 (rr_height demo_log_record) \<and> tr_idx r = Some (as_i64 (rr_index demo_log_record))"
  proof (rule indexed_logs_reach_clients[OF _ indexed_is_decoded _ _ _ _ _ _ _ _ _ _ evt_args _ _ evt_build _ len])
    show "\<forall>q \<in> set (raw_records indexed_db). raw_key q = raw_key (raw_row_of demo_log_record) \<longrightarrow>
        (\<exists>row. dc_decode (evm_port demo_abi start_decoder) (record_of_raw_row 1 q) = Ok (Some row) \<and> de_table (er_event row) = ''evt_t'')"
      using indexed_decodes by (auto simp: indexed_rows indexed_record simp del: One_nat_def)
    show "db_wf indexed_db" by (simp add: indexed_db_def db_wf_def wf_fixed_def wf_tables_def db_empty_def)
    show "migrated_keys indexed_db ''evt_t''" by (simp add: migrated_keys_def indexed_db_def db_empty_def)
    show "asks_chain sample_lib sample_args (as_i64 1)"
      using sample_simps(4,5) by (simp add: asks_chain_def sample_args_def as_i64_small)
  qed (simp_all add: stored_raw_def indexed_rows demo_log_record_def table_has_idx_def RECEIPTS_TABLE_def read_row_def in_i64_def sample_simps)
  then show ?thesis by auto
qed

end
